theory Spec2Isabelle
  imports Complex_Main "HOL-Library.Word"
begin

unbundle bit_operations_syntax

section \<open>Board model (rules.js, chess.js, chess-ai.js)\<close>

text \<open>
  A piece is the object \<^verbatim>\<open>{ color, isKing }\<close>; the two colours are the strings
  \<^verbatim>\<open>'red'\<close> and \<^verbatim>\<open>'yellow'\<close>. A board is an array of row arrays whose cells hold a
  piece or \<^verbatim>\<open>null\<close>. Rows may be missing or short (a malformed board): reading a
  missing cell of an existing row gives \<^verbatim>\<open>undefined\<close>, which like \<^verbatim>\<open>null\<close> is falsy
  and is \<open>None\<close> here; reading a cell of a missing row throws a TypeError.
  Coordinates are JavaScript numbers that only ever hold integers here; a position
  \<^verbatim>\<open>[x, y]\<close> is a pair. A move is the array the rule engine returns:
  \<^verbatim>\<open>[toX, toY]\<close> for a regular move and \<^verbatim>\<open>[toX, toY, capX, capY]\<close> for a jump.
\<close>

datatype color = Red | Yellow

record piece =
  color :: color
  isKing :: bool

type_synonym square = "piece option"
type_synonym board = "square list list"
type_synonym move = "int list"

datatype error = TypeError | NonIndexWrite

text \<open>\<^verbatim>\<open>board[y]\<close>: the row, or undefined when \<open>y\<close> is not an index of the array.\<close>

definition rowAt :: "board \<Rightarrow> int \<Rightarrow> square list option" where
  "rowAt board y = (if 0 \<le> y \<and> nat y < length board then Some (board ! nat y) else None)"

text \<open>\<^verbatim>\<open>row[x]\<close> read for truthiness: a piece, or \<open>None\<close> for null and undefined.\<close>

definition cellOf :: "square list \<Rightarrow> int \<Rightarrow> square" where
  "cellOf row x = (if 0 \<le> x \<and> nat x < length row then row ! nat x else None)"

text \<open>The unguarded read \<^verbatim>\<open>board[y][x]\<close>.\<close>

definition cellAt :: "board \<Rightarrow> int \<Rightarrow> int \<Rightarrow> error + square" where
  "cellAt board x y = (case rowAt board y of None \<Rightarrow> Inl TypeError | Some row \<Rightarrow> Inr (cellOf row x))"

text \<open>The guarded read \<^verbatim>\<open>board[y] ? board[y][x] : undefined\<close> (also \<^verbatim>\<open>board[y]?.[x]\<close>).\<close>

definition cellSafe :: "board \<Rightarrow> int \<Rightarrow> int \<Rightarrow> square" where
  "cellSafe board x y = (case rowAt board y of None \<Rightarrow> None | Some row \<Rightarrow> cellOf row x)"

text \<open>
  The write \<^verbatim>\<open>board[y][x] = v\<close> at a place that every call site has checked to be
  inside an 8x8 board.
\<close>

definition setCell :: "board \<Rightarrow> int \<Rightarrow> int \<Rightarrow> square \<Rightarrow> board" where
  "setCell board x y v = board[nat y := (board ! nat y)[nat x := v]]"

text \<open>
  A \<^verbatim>\<open>for (const x of xs)\<close> loop whose body pushes results to one array and may
  throw: the results pushed, in order, or the first error.
\<close>

fun collectE :: "('a \<Rightarrow> error + 'b list) \<Rightarrow> 'a list \<Rightarrow> error + 'b list" where
  "collectE f [] = Inr []"
| "collectE f (x # xs) =
     (case f x of
        Inl e \<Rightarrow> Inl e
      | Inr ys \<Rightarrow> (case collectE f xs of Inl e \<Rightarrow> Inl e | Inr zs \<Rightarrow> Inr (ys @ zs)))"

section \<open>The rule engine (rules.js, class ChessRules)\<close>

definition red_move :: "(int \<times> int) list" where
  "red_move = [(-1, -1), (1, -1)]"

definition yellow_move :: "(int \<times> int) list" where
  "yellow_move = [(-1, 1), (1, 1)]"

definition all_capture :: "(int \<times> int) list" where
  "all_capture = [(-1, -1), (1, -1), (-1, 1), (1, 1)]"

definition king_move :: "(int \<times> int) list" where
  "king_move = [(-1, -1), (1, -1), (-1, 1), (1, 1)]"

text \<open>The \<^verbatim>\<open>dist\<close> values of \<^verbatim>\<open>for (let dist = 1; dist < 8; dist++)\<close>.\<close>

definition dists :: "int list" where
  "dists = [1, 2, 3, 4, 5, 6, 7]"

text \<open>The indices of \<^verbatim>\<open>for (let y = 0; y < 8; y++)\<close>.\<close>

definition idx8 :: "int list" where
  "idx8 = [0, 1, 2, 3, 4, 5, 6, 7]"

definition isInBounds :: "int \<Rightarrow> int \<Rightarrow> bool" where
  "isInBounds x y = (x \<ge> 0 \<and> x < 8 \<and> y \<ge> 0 \<and> y < 8)"

definition shouldPromote :: "color \<Rightarrow> int \<Rightarrow> bool" where
  "shouldPromote c y = ((c = Red \<and> y = 0) \<or> (c = Yellow \<and> y = 7))"

definition opponentOf :: "color \<Rightarrow> color" where
  "opponentOf c = (if c = Red then Yellow else Red)"

definition copyBoard :: "board \<Rightarrow> board" where
  "copyBoard board = map (\<lambda>y. map (\<lambda>x. cellSafe board x y) idx8) idx8"

subsection \<open>getRegularMoves\<close>

text \<open>The king's inner loop over \<^verbatim>\<open>dist\<close> for one direction: the moves it pushes.\<close>

fun kingSteps :: "board \<Rightarrow> int \<Rightarrow> int \<Rightarrow> int \<Rightarrow> int \<Rightarrow> int list \<Rightarrow> error + move list" where
  "kingSteps board x y dx dy [] = Inr []"
| "kingSteps board x y dx dy (dist' # rest) =
     (let newX = x + dx * dist'; newY = y + dy * dist' in
      if \<not> isInBounds newX newY then Inr []
      else case cellAt board newX newY of
             Inl e \<Rightarrow> Inl e
           | Inr (Some blocker) \<Rightarrow> Inr []
           | Inr None \<Rightarrow>
               (case kingSteps board x y dx dy rest of
                  Inl e \<Rightarrow> Inl e
                | Inr ms \<Rightarrow> Inr ([newX, newY] # ms)))"

definition manStep :: "board \<Rightarrow> int \<Rightarrow> int \<Rightarrow> int \<Rightarrow> int \<Rightarrow> error + move list" where
  "manStep board x y dx dy =
     (let newX = x + dx; newY = y + dy in
      if isInBounds newX newY
      then (case cellAt board newX newY of
              Inl e \<Rightarrow> Inl e
            | Inr sq \<Rightarrow> Inr (if sq = None then [[newX, newY]] else []))
      else Inr [])"

definition getRegularMoves :: "board \<Rightarrow> int \<times> int \<Rightarrow> piece \<Rightarrow> error + move list" where
  "getRegularMoves board position piece =
     (let x = fst position; y = snd position;
          moveDirections = (if isKing piece then king_move
                            else if color piece = Red then red_move else yellow_move)
      in if isKing piece
         then collectE (\<lambda>(dx, dy). kingSteps board x y dx dy dists) moveDirections
         else collectE (\<lambda>(dx, dy). manStep board x y dx dy) moveDirections)"

subsection \<open>findSingleJumps\<close>

text \<open>
  The king's inner loop for one direction, with its loop variables
  \<^verbatim>\<open>opponentFound\<close>, \<^verbatim>\<open>captureX\<close>, \<^verbatim>\<open>captureY\<close>: the jumps it pushes.
\<close>

fun kingJumps ::
  "board \<Rightarrow> int \<Rightarrow> int \<Rightarrow> int \<Rightarrow> int \<Rightarrow> color \<Rightarrow> bool \<Rightarrow> int \<Rightarrow> int \<Rightarrow> int list \<Rightarrow> move list" where
  "kingJumps board x y dx dy opponentColor opponentFound captureX captureY [] = []"
| "kingJumps board x y dx dy opponentColor opponentFound captureX captureY (dist' # rest) =
     (let checkX = x + dx * dist'; checkY = y + dy * dist' in
      if \<not> isInBounds checkX checkY then []
      else case cellSafe board checkX checkY of
             Some squareContent \<Rightarrow>
               if color squareContent = opponentColor \<and> \<not> opponentFound
               then kingJumps board x y dx dy opponentColor True checkX checkY rest
               else []
           | None \<Rightarrow>
               (if opponentFound then [[checkX, checkY, captureX, captureY]] else [])
               @ kingJumps board x y dx dy opponentColor opponentFound captureX captureY rest)"

definition manJump :: "board \<Rightarrow> int \<Rightarrow> int \<Rightarrow> int \<Rightarrow> int \<Rightarrow> color \<Rightarrow> move list" where
  "manJump board x y dx dy opponentColor =
     (let captureX = x + dx; captureY = y + dy; landX = x + dx * 2; landY = y + dy * 2 in
      if isInBounds captureX captureY \<and> isInBounds landX landY
      then (case cellSafe board captureX captureY of
              Some capturedPiece \<Rightarrow>
                if color capturedPiece = opponentColor \<and> cellSafe board landX landY = None
                then [[landX, landY, captureX, captureY]] else []
            | None \<Rightarrow> [])
      else [])"

definition findSingleJumps :: "board \<Rightarrow> int \<times> int \<Rightarrow> piece \<Rightarrow> move list" where
  "findSingleJumps board position piece =
     (let x = fst position; y = snd position;
          opponentColor = opponentOf (color piece)
      in concat (map (\<lambda>(dx, dy).
                   if isKing piece
                   then kingJumps board x y dx dy opponentColor False (-1) (-1) dists
                   else manJump board x y dx dy opponentColor) all_capture))"

lemma collectE_cong [fundef_cong]:
  "xs = ys \<Longrightarrow> (\<And>x. x \<in> set ys \<Longrightarrow> f x = g x) \<Longrightarrow> collectE f xs = collectE g ys"
  by (induction ys arbitrary: xs) (auto split: sum.splits)

subsection \<open>Board shape and occupancy (used to show that jump chains end)\<close>

text \<open>
  \<open>wf8\<close> is the shape every board of the game has: eight rows of eight cells.
  \<open>occupied\<close> is the set of squares that hold a piece; each hop of a jump chain
  removes a piece, which is why the recursion of \<^verbatim>\<open>findPaths\<close> ends.
  \<open>jumpOK\<close> collects what every entry returned by \<open>findSingleJumps\<close> satisfies.
\<close>

definition wf8 :: "board \<Rightarrow> bool" where
  "wf8 b = (length b = 8 \<and> (\<forall>r \<in> set b. length r = 8))"

definition occupied :: "board \<Rightarrow> (int \<times> int) set" where
  "occupied b = {(x, y). isInBounds x y \<and> cellSafe b x y \<noteq> None}"

lemma isInBounds_iff: "isInBounds x y \<longleftrightarrow> x \<in> set idx8 \<and> y \<in> set idx8"
  by (auto simp: isInBounds_def idx8_def)

lemma finite_occupied: "finite (occupied b)"
proof -
  have "occupied b \<subseteq> set idx8 \<times> set idx8"
    by (auto simp: occupied_def isInBounds_iff)
  then show ?thesis by (rule finite_subset) simp
qed

lemma wf8_copyBoard: "wf8 (copyBoard b)"
  by (simp add: wf8_def copyBoard_def idx8_def)

lemma nth_idx8: "0 \<le> y \<Longrightarrow> y < 8 \<Longrightarrow> idx8 ! nat y = y"
proof -
  assume "0 \<le> y" "y < 8"
  then have "y \<in> {0,1,2,3,4,5,6,7}" by auto
  then show ?thesis by (auto simp: idx8_def)
qed

lemma cellSafe_copyBoard: "isInBounds x y \<Longrightarrow> cellSafe (copyBoard b) x y = cellSafe b x y"
proof -
  assume ib: "isInBounds x y"
  then have x: "0 \<le> x" "x < 8" and y: "0 \<le> y" "y < 8" by (auto simp: isInBounds_def)
  have l: "length idx8 = 8" by (simp add: idx8_def)
  have "rowAt (copyBoard b) y = Some (map (\<lambda>x. cellSafe b x y) idx8)"
    using y by (simp add: rowAt_def copyBoard_def l nth_idx8)
  moreover have "nat x < 8" using x by simp
  ultimately show ?thesis using x
    by (simp add: cellSafe_def[of "copyBoard b"] cellOf_def l nth_idx8)
qed

lemma rowAt_wf8: "wf8 b \<Longrightarrow> 0 \<le> y \<Longrightarrow> y < 8 \<Longrightarrow> \<exists>r. rowAt b y = Some r \<and> length r = 8"
  by (auto simp: wf8_def rowAt_def all_set_conv_all_nth)

lemma cellAt_wf8: "wf8 b \<Longrightarrow> 0 \<le> y \<Longrightarrow> y < 8 \<Longrightarrow> cellAt b x y = Inr (cellSafe b x y)"
  by (auto simp: wf8_def rowAt_def cellAt_def cellSafe_def)

lemma cellSafe_oob: "wf8 b \<Longrightarrow> \<not> isInBounds x y \<Longrightarrow> cellSafe b x y = None"
  by (auto simp: wf8_def rowAt_def cellSafe_def cellOf_def isInBounds_def)

lemma cellAt_wf8_Some: "wf8 b \<Longrightarrow> cellAt b x y = Inr (Some p) \<Longrightarrow> isInBounds x y \<and> cellSafe b x y = Some p"
  by (auto simp: wf8_def rowAt_def cellAt_def cellSafe_def cellOf_def isInBounds_def split: if_splits)

lemma wf8_nth: "wf8 b \<longleftrightarrow> length b = 8 \<and> (\<forall>i<8. length (b ! i) = 8)"
  by (auto simp: wf8_def all_set_conv_all_nth)

lemma wf8_setCell: "wf8 b \<Longrightarrow> wf8 (setCell b x y v)"
proof (cases "nat y < length b")
  case True
  assume "wf8 b"
  with True show ?thesis
    by (auto simp: wf8_nth setCell_def nth_list_update)
next
  case False
  assume "wf8 b"
  with False show ?thesis
    by (simp add: setCell_def list_update_beyond not_less)
qed

lemma cellSafe_nth: "wf8 b \<Longrightarrow> isInBounds x y \<Longrightarrow> cellSafe b x y = b ! nat y ! nat x"
  by (auto simp: wf8_nth cellSafe_def rowAt_def cellOf_def isInBounds_def)

lemma cellSafe_setCell:
  assumes "wf8 b" "isInBounds x y" "isInBounds x' y'"
  shows "cellSafe (setCell b x y v) x' y' = (if x' = x \<and> y' = y then v else cellSafe b x' y')"
proof -
  have n: "nat y < 8" "nat x < 8" "nat y' < 8" "nat x' < 8"
    using assms by (auto simp: isInBounds_def)
  have e: "nat x = nat x' \<longleftrightarrow> x' = x" "nat y = nat y' \<longleftrightarrow> y' = y"
    using assms by (auto simp: isInBounds_def)
  have l: "length b = 8" "length (b ! nat y) = 8" "length (b ! nat y') = 8"
    using assms(1) n by (simp_all add: wf8_nth)
  have "cellSafe (setCell b x y v) x' y' = setCell b x y v ! nat y' ! nat x'"
    using assms by (simp add: cellSafe_nth wf8_setCell)
  also have "\<dots> = (if x' = x \<and> y' = y then v else b ! nat y' ! nat x')"
    using n l e by (simp add: setCell_def nth_list_update)
  finally show ?thesis using assms by (simp add: cellSafe_nth)
qed

definition jumpOK :: "board \<Rightarrow> int \<times> int \<Rightarrow> color \<Rightarrow> move \<Rightarrow> bool" where
  "jumpOK b pos opp j =
     (\<exists>lx ly cx cy. j = [lx, ly, cx, cy] \<and> isInBounds lx ly \<and> isInBounds cx cy \<and>
        cellSafe b lx ly = None \<and> (\<exists>q. cellSafe b cx cy = Some q \<and> color q = opp) \<and>
        (cx, cy) \<noteq> pos \<and> (lx, ly) \<noteq> pos)"

lemma kingJumps_ok:
  assumes "j \<in> set (kingJumps b x y dx dy opp found cx cy ds)"
    and "dx \<noteq> 0" and "\<forall>d \<in> set ds. d \<noteq> 0"
    and "found \<longrightarrow> isInBounds cx cy \<and> (\<exists>q. cellSafe b cx cy = Some q \<and> color q = opp) \<and> (cx, cy) \<noteq> (x, y)"
  shows "jumpOK b (x, y) opp j"
  using assms
proof (induction ds arbitrary: found cx cy)
  case Nil
  then show ?case by simp
next
  case (Cons d ds)
  let ?cx = "x + dx * d" and ?cy = "y + dy * d"
  from Cons.prems have d: "d \<noteq> 0" and ds: "\<forall>d \<in> set ds. d \<noteq> 0" by auto
  have ne: "?cx \<noteq> x" using d \<open>dx \<noteq> 0\<close> by simp
  show ?case
  proof (cases "isInBounds ?cx ?cy")
    case False
    with Cons.prems(1) show ?thesis by (simp add: Let_def)
  next
    case ib: True
    show ?thesis
    proof (cases "cellSafe b ?cx ?cy")
      case None
      with ib Cons.prems(1) have
        "(found \<and> j = [?cx, ?cy, cx, cy]) \<or> j \<in> set (kingJumps b x y dx dy opp found cx cy ds)"
        by (auto simp: Let_def split: if_splits)
      then show ?thesis
      proof
        assume "found \<and> j = [?cx, ?cy, cx, cy]"
        with Cons.prems(4) ib None ne show ?thesis
          by (auto simp: jumpOK_def)
      next
        assume "j \<in> set (kingJumps b x y dx dy opp found cx cy ds)"
        from Cons.IH[OF this \<open>dx \<noteq> 0\<close> ds Cons.prems(4)] show ?thesis .
      qed
    next
      case (Some sq)
      with ib Cons.prems(1) have c: "color sq = opp" "\<not> found"
        and j: "j \<in> set (kingJumps b x y dx dy opp True ?cx ?cy ds)"
        by (auto simp: Let_def split: if_splits)
      have "True \<longrightarrow> isInBounds ?cx ?cy \<and> (\<exists>q. cellSafe b ?cx ?cy = Some q \<and> color q = opp) \<and> (?cx, ?cy) \<noteq> (x, y)"
        using ib Some c ne by simp
      from Cons.IH[OF j \<open>dx \<noteq> 0\<close> ds this] show ?thesis .
    qed
  qed
qed

lemma manJump_ok:
  assumes "j \<in> set (manJump b x y dx dy opp)" and "dx \<noteq> 0"
  shows "jumpOK b (x, y) opp j"
proof -
  let ?cx = "x + dx" and ?cy = "y + dy" and ?lx = "x + dx * 2" and ?ly = "y + dy * 2"
  have "isInBounds ?cx ?cy \<and> isInBounds ?lx ?ly"
  proof (rule ccontr)
    assume "\<not> (isInBounds ?cx ?cy \<and> isInBounds ?lx ?ly)"
    with assms(1) show False by (simp add: manJump_def Let_def)
  qed
  then have ib: "isInBounds ?cx ?cy" "isInBounds ?lx ?ly" by simp_all
  have "cellSafe b ?cx ?cy \<noteq> None"
  proof
    assume "cellSafe b ?cx ?cy = None"
    with assms(1) ib show False by (simp add: manJump_def Let_def)
  qed
  then obtain q where q: "cellSafe b ?cx ?cy = Some q" by auto
  have c: "color q = opp \<and> cellSafe b ?lx ?ly = None"
  proof (rule ccontr)
    assume "\<not> (color q = opp \<and> cellSafe b ?lx ?ly = None)"
    with assms(1) ib q show False by (simp add: manJump_def Let_def)
  qed
  with assms(1) ib q have "color q = opp" "cellSafe b ?lx ?ly = None" "j = [?lx, ?ly, ?cx, ?cy]"
    by (simp_all add: manJump_def Let_def)
  with ib q assms(2) show ?thesis
    by (simp add: jumpOK_def)
qed

lemma findSingleJumps_ok:
  assumes "j \<in> set (findSingleJumps b pos p)"
  shows "jumpOK b pos (opponentOf (color p)) j"
proof -
  obtain x y where pos: "pos = (x, y)" by (cases pos)
  from assms obtain dx dy where d: "(dx, dy) \<in> set all_capture"
    and j: "j \<in> set (if isKing p then kingJumps b x y dx dy (opponentOf (color p)) False (-1) (-1) dists
                      else manJump b x y dx dy (opponentOf (color p)))"
    by (auto simp: findSingleJumps_def pos Let_def)
  from d have dx: "dx \<noteq> 0" by (auto simp: all_capture_def)
  show ?thesis
  proof (cases "isKing p")
    case True
    with j have "j \<in> set (kingJumps b x y dx dy (opponentOf (color p)) False (-1) (-1) dists)" by simp
    from kingJumps_ok[OF this dx] show ?thesis by (simp add: pos dists_def)
  next
    case False
    with j have "j \<in> set (manJump b x y dx dy (opponentOf (color p)))" by simp
    from manJump_ok[OF this dx] show ?thesis by (simp add: pos)
  qed
qed

subsection \<open>getJumpMoves\<close>

text \<open>
  The recursive closure \<^verbatim>\<open>findPaths\<close> pushes every complete path to the shared
  array \<^verbatim>\<open>finalJumpSequences\<close>; the function below returns the paths pushed, in
  push order. A path is the flat array \<^verbatim>\<open>[nextX, nextY, capX, capY, ...pathSoFar]\<close>,
  last hop first. \<^verbatim>\<open>continue\<close> is \<open>Inr []\<close>. Reading \<^verbatim>\<open>pieceAfterJump.isKing\<close>
  of an empty cell throws. On promotion the source also sets \<^verbatim>\<open>isKing\<close> on the
  piece of \<^verbatim>\<open>nextBoard\<close>, a board that is dropped right after.
\<close>

function findPaths :: "board \<Rightarrow> int \<times> int \<Rightarrow> piece \<Rightarrow> int list \<Rightarrow> error + int list list" where
  "findPaths currentBoard currentPos currentPiece pathSoFar =
     (let singleJumps = findSingleJumps currentBoard currentPos currentPiece in
      if singleJumps = [] then Inr (if pathSoFar \<noteq> [] then [pathSoFar] else [])
      else collectE (\<lambda>jump.
        if length jump \<noteq> 4 then Inr []
        else
          let nextX = jump ! 0; nextY = jump ! 1; capX = jump ! 2; capY = jump ! 3;
              nextBoard = copyBoard currentBoard
          in case cellAt nextBoard (fst currentPos) (snd currentPos) of
               Inl e \<Rightarrow> Inl e
             | Inr None \<Rightarrow> Inr []
             | Inr (Some pieceToMove) \<Rightarrow>
                 if \<not> isInBounds capX capY then Inr []
                 else if \<not> isInBounds nextX nextY then Inr []
                 else
                   let board1 = setCell nextBoard nextX nextY (Some pieceToMove);
                       board2 = setCell board1 (fst currentPos) (snd currentPos) None;
                       board3 = (if cellSafe board2 capX capY \<noteq> None
                                 then setCell board2 capX capY None else board2)
                   in (case cellSafe board3 nextX nextY of
                         None \<Rightarrow> Inl TypeError
                       | Some pieceAfterJump \<Rightarrow>
                           let promotedThisStep =
                                 (\<not> isKing pieceAfterJump \<and> shouldPromote (color pieceAfterJump) nextY);
                               newPath = [nextX, nextY, capX, capY] @ pathSoFar
                           in if promotedThisStep then Inr [newPath]
                              else findPaths board3 (nextX, nextY) pieceAfterJump newPath))
        singleJumps)"
  by pat_completeness auto


lemma occupied_setCell:
  "wf8 b \<Longrightarrow> isInBounds x y \<Longrightarrow>
   occupied (setCell b x y v) = (if v = None then occupied b - {(x, y)} else insert (x, y) (occupied b))"
  by (auto simp: occupied_def cellSafe_setCell split: if_splits)

lemma occupied_copyBoard: "occupied (copyBoard b) = occupied b"
  by (auto simp: occupied_def cellSafe_copyBoard)

lemma jump_shrinks:
  assumes ok: "jumpOK b pos opp [nx, ny, cx, cy]"
    and src: "cellAt (copyBoard b) (fst pos) (snd pos) = Inr (Some pm)"
  defines "b1 \<equiv> setCell (copyBoard b) nx ny (Some pm)"
  defines "b2 \<equiv> setCell b1 (fst pos) (snd pos) None"
  defines "b3 \<equiv> (if cellSafe b2 cx cy \<noteq> None then setCell b2 cx cy None else b2)"
  shows "occupied b3 = insert (nx, ny) (occupied b) - {pos, (cx, cy)}"
    and "card (occupied b3) < card (occupied b)"
    and "wf8 b3" and "cellSafe b3 nx ny = Some pm"
proof -
  from ok have ibn: "isInBounds nx ny" and ibc: "isInBounds cx cy"
    and land: "cellSafe b nx ny = None" and cap: "cellSafe b cx cy \<noteq> None"
    and ne: "(cx, cy) \<noteq> pos" "(nx, ny) \<noteq> pos"
    by (auto simp: jumpOK_def)
  from land cap have nc: "(nx, ny) \<noteq> (cx, cy)" by auto
  from cellAt_wf8_Some[OF wf8_copyBoard src]
  have ibp: "isInBounds (fst pos) (snd pos)"
    and pm': "cellSafe (copyBoard b) (fst pos) (snd pos) = Some pm"
    by simp_all
  from pm' ibp have pm: "cellSafe b (fst pos) (snd pos) = Some pm"
    by (simp add: cellSafe_copyBoard)
  have w1: "wf8 b1" by (simp add: b1_def wf8_setCell wf8_copyBoard)
  have w2: "wf8 b2" by (simp add: b2_def wf8_setCell w1)
  have c2: "cellSafe b2 cx cy \<noteq> None"
    using ne nc cap ibc ibp ibn
    by (cases pos) (auto simp: b2_def b1_def cellSafe_setCell wf8_setCell wf8_copyBoard cellSafe_copyBoard)
  then have b3: "b3 = setCell b2 cx cy None" by (simp add: b3_def)
  show w3: "wf8 b3" by (simp add: b3 wf8_setCell w2)
  show "cellSafe b3 nx ny = Some pm"
    using ne nc ibc ibp ibn
    by (cases pos) (auto simp: b3 b2_def b1_def cellSafe_setCell wf8_setCell wf8_copyBoard)
  show o: "occupied b3 = insert (nx, ny) (occupied b) - {pos, (cx, cy)}"
    using ibc ibp ibn
    by (cases pos) (auto simp: b3 b2_def b1_def occupied_setCell wf8_setCell wf8_copyBoard occupied_copyBoard)
  have pin: "pos \<in> occupied b" using ibp pm by (cases pos) (auto simp: occupied_def)
  have cin: "(cx, cy) \<in> occupied b" using ibc cap by (auto simp: occupied_def)
  have nin: "(nx, ny) \<notin> occupied b" using land by (auto simp: occupied_def)
  have "occupied b3 = insert (nx, ny) (occupied b - {pos, (cx, cy)})"
    using o ne nc by auto
  moreover have "(nx, ny) \<notin> occupied b - {pos, (cx, cy)}" using nin by simp
  ultimately have "card (occupied b3) = Suc (card (occupied b - {pos, (cx, cy)}))"
    using finite_occupied[of b] by simp
  moreover have "card (occupied b - {pos, (cx, cy)}) = card (occupied b) - 2"
    using pin cin ne finite_occupied[of b] by (simp add: card_Diff_subset)
  moreover have "card (occupied b) \<ge> 2"
  proof -
    have "card {pos, (cx, cy)} \<le> card (occupied b)"
      using pin cin finite_occupied[of b] by (intro card_mono) auto
    then show ?thesis using ne by simp
  qed
  ultimately show "card (occupied b3) < card (occupied b)" by simp
qed

lemma jump_is_4: "jumpOK b pos opp j \<Longrightarrow> j = [j ! 0, j ! 1, j ! 2, j ! 3]"
  by (auto simp: jumpOK_def)


termination findPaths
proof (relation "measure (\<lambda>(b, pos, p, path). card (occupied b))", goal_cases)
  case 1
  show ?case by simp
next
  case (2 currentBoard currentPos currentPiece pathSoFar singleJumps jump nextX nextY capX capY nextBoard b pieceToMove board1 board2 board3 pieceAfterJump promotedThisStep newPath)
  from 2 have "jump \<in> set (findSingleJumps currentBoard currentPos currentPiece)" by simp
  from findSingleJumps_ok[OF this]
  have ok: "jumpOK currentBoard currentPos (opponentOf (color currentPiece)) jump" .
  with jump_is_4[OF ok] 2
  have ok': "jumpOK currentBoard currentPos (opponentOf (color currentPiece)) [nextX, nextY, capX, capY]"
    by simp
  from 2 have src: "cellAt (copyBoard currentBoard) (fst currentPos) (snd currentPos) = Inr (Some pieceToMove)"
    by simp
  have b1: "board1 = setCell (copyBoard currentBoard) nextX nextY (Some pieceToMove)"
    using 2 by simp
  have b2: "board2 = setCell board1 (fst currentPos) (snd currentPos) None"
    using 2 by simp
  have b3: "board3 = (if cellSafe board2 capX capY \<noteq> None then setCell board2 capX capY None else board2)"
    using 2 by simp
  have "card (occupied board3) < card (occupied currentBoard)"
    using jump_shrinks(2)[OF ok' src] by (simp only: b3 b2 b1)
  then show ?case by simp
qed

declare findPaths.simps [simp del]

text \<open>
  The reformatting loop of \<^verbatim>\<open>getJumpMoves\<close>: the first hop of a path is its last
  four entries; it is pushed to \<^verbatim>\<open>formattedMoves\<close> unless an equal entry is there.
\<close>

fun formatPaths :: "int list list \<Rightarrow> move list \<Rightarrow> move list" where
  "formatPaths [] formattedMoves = formattedMoves"
| "formatPaths (path # rest) formattedMoves =
     (if length path < 4 \<or> length path mod 4 \<noteq> 0 then formatPaths rest formattedMoves
      else
        let firstStepMove = [path ! (length path - 4), path ! (length path - 3),
                             path ! (length path - 2), path ! (length path - 1)]
        in if \<not> list_ex (\<lambda>m. m ! 0 = firstStepMove ! 0 \<and> m ! 1 = firstStepMove ! 1 \<and>
                              m ! 2 = firstStepMove ! 2 \<and> m ! 3 = firstStepMove ! 3) formattedMoves
           then formatPaths rest (formattedMoves @ [firstStepMove])
           else formatPaths rest formattedMoves)"

definition getJumpMoves :: "board \<Rightarrow> int \<times> int \<Rightarrow> piece \<Rightarrow> error + move list" where
  "getJumpMoves board position piece =
     (case findPaths board position piece [] of
        Inl e \<Rightarrow> Inl e
      | Inr finalJumpSequences \<Rightarrow> Inr (formatPaths finalJumpSequences []))"

subsection \<open>hasMandatoryJumps and getValidMoves\<close>

text \<open>
  The two loops of \<^verbatim>\<open>hasMandatoryJumps\<close> return true at the first piece of the
  colour that has a single jump; a missing row is skipped.
\<close>

definition hasMandatoryJumps :: "board \<Rightarrow> color \<Rightarrow> bool" where
  "hasMandatoryJumps board c =
     list_ex (\<lambda>y. case rowAt board y of
                     None \<Rightarrow> False
                   | Some row \<Rightarrow>
                       list_ex (\<lambda>x. case cellOf row x of
                                       None \<Rightarrow> False
                                     | Some piece \<Rightarrow>
                                         color piece = c \<and> findSingleJumps board (x, y) piece \<noteq> [])
                               idx8)
             idx8"

definition getValidMoves :: "board \<Rightarrow> int \<times> int \<Rightarrow> piece \<Rightarrow> error + move list" where
  "getValidMoves board position piece =
     (let mustJump = hasMandatoryJumps board (color piece) in
      case getJumpMoves board position piece of
        Inl e \<Rightarrow> Inl e
      | Inr jumpMoves \<Rightarrow>
          if mustJump then Inr jumpMoves
          else if length jumpMoves > 0 then Inr jumpMoves
          else getRegularMoves board position piece)"

subsection \<open>checkWinner\<close>

text \<open>
  \<^verbatim>\<open>checkWinner\<close> returns \<^verbatim>\<open>'red'\<close>, \<^verbatim>\<open>'yellow'\<close>, \<^verbatim>\<open>'draw'\<close> or \<^verbatim>\<open>null\<close>. Its four
  local variables are the record \<open>tally\<close>; a loop whose body updates them and may
  throw is \<open>foldE\<close>.
\<close>

datatype outcome = Wins color | Draw

record tally =
  redPieces :: nat
  yellowPieces :: nat
  redMovesAvailable :: bool
  yellowMovesAvailable :: bool

fun foldE :: "('a \<Rightarrow> 's \<Rightarrow> error + 's) \<Rightarrow> 'a list \<Rightarrow> 's \<Rightarrow> error + 's" where
  "foldE f [] s = Inr s"
| "foldE f (x # xs) s = (case f x s of Inl e \<Rightarrow> Inl e | Inr s' \<Rightarrow> foldE f xs s')"

text \<open>
  \<^verbatim>\<open>findSingleJumps(...).length > 0 || getRegularMoves(...).length > 0\<close>: the second
  call is made only when the first finds nothing.
\<close>

definition pieceCanMove :: "board \<Rightarrow> int \<times> int \<Rightarrow> piece \<Rightarrow> error + bool" where
  "pieceCanMove board position piece =
     (if length (findSingleJumps board position piece) > 0 then Inr True
      else case getRegularMoves board position piece of
             Inl e \<Rightarrow> Inl e
           | Inr ms \<Rightarrow> Inr (length ms > 0))"

definition tallySquare :: "board \<Rightarrow> square list \<Rightarrow> int \<Rightarrow> int \<Rightarrow> tally \<Rightarrow> error + tally" where
  "tallySquare board row y x t =
     (case cellOf row x of
        None \<Rightarrow> Inr t
      | Some piece \<Rightarrow>
          if color piece = Red
          then (let t1 = t\<lparr>redPieces := redPieces t + 1\<rparr> in
                if \<not> redMovesAvailable t1
                then (case pieceCanMove board (x, y) piece of
                        Inl e \<Rightarrow> Inl e
                      | Inr can \<Rightarrow> Inr (if can then t1\<lparr>redMovesAvailable := True\<rparr> else t1))
                else Inr t1)
          else (let t1 = t\<lparr>yellowPieces := yellowPieces t + 1\<rparr> in
                if \<not> yellowMovesAvailable t1
                then (case pieceCanMove board (x, y) piece of
                        Inl e \<Rightarrow> Inl e
                      | Inr can \<Rightarrow> Inr (if can then t1\<lparr>yellowMovesAvailable := True\<rparr> else t1))
                else Inr t1))"

definition tallyRow :: "board \<Rightarrow> int \<Rightarrow> tally \<Rightarrow> error + tally" where
  "tallyRow board y t =
     (case rowAt board y of
        None \<Rightarrow> Inr t
      | Some row \<Rightarrow>
          if length row \<noteq> 8 then Inr t
          else foldE (tallySquare board row y) idx8 t)"

definition verdict :: "tally \<Rightarrow> outcome option" where
  "verdict t =
     (if redPieces t = 0 \<and> yellowPieces t > 0 then Some (Wins Yellow)
      else if yellowPieces t = 0 \<and> redPieces t > 0 then Some (Wins Red)
      else if redPieces t = 0 \<and> yellowPieces t = 0 then Some Draw
      else if \<not> redMovesAvailable t \<and> yellowMovesAvailable t then Some (Wins Yellow)
      else if \<not> yellowMovesAvailable t \<and> redMovesAvailable t then Some (Wins Red)
      else if \<not> redMovesAvailable t \<and> \<not> yellowMovesAvailable t \<and>
              redPieces t > 0 \<and> yellowPieces t > 0 then Some Draw
      else None)"

definition checkWinner :: "board \<Rightarrow> error + outcome option" where
  "checkWinner board =
     (if length board \<noteq> 8 then Inr None
      else case foldE (tallyRow board) idx8
                  \<lparr>redPieces = 0, yellowPieces = 0,
                   redMovesAvailable = False, yellowMovesAvailable = False\<rparr> of
             Inl e \<Rightarrow> Inl e
           | Inr t \<Rightarrow> Inr (verdict t))"

subsection \<open>Boards for examples\<close>

text \<open>The empty 8x8 board, and a board with pieces put on given squares.\<close>

definition emptyBoard :: board where
  "emptyBoard = replicate 8 (replicate 8 None)"

fun place :: "(int \<times> int \<times> piece) list \<Rightarrow> board \<Rightarrow> board" where
  "place [] board = board"
| "place ((x, y, p) # rest) board = place rest (setCell board x y (Some p))"

definition man :: "color \<Rightarrow> piece" where
  "man c = \<lparr>color = c, isKing = False\<rparr>"

definition king :: "color \<Rightarrow> piece" where
  "king c = \<lparr>color = c, isKing = True\<rparr>"

section \<open>King jumps along a diagonal (claim C4)\<close>

text \<open>
  The words of the claim as definitions: the \<open>d\<close>-th square of a diagonal, an empty
  square of the board, a square that holds an opponent piece, and "the first occupied
  square along the direction holds an opponent piece". \<open>kingJumpSpec\<close> describes the
  jumps of one direction: the captured square \<open>k\<close> is the first occupied one and holds
  an opponent piece, and every square after it up to the landing square \<open>l\<close> is on the
  board and empty.
\<close>

definition raySq :: "int \<times> int \<Rightarrow> int \<times> int \<Rightarrow> int \<Rightarrow> int \<times> int" where
  "raySq pos dir d = (fst pos + fst dir * d, snd pos + snd dir * d)"

definition emptyAt :: "board \<Rightarrow> int \<times> int \<Rightarrow> bool" where
  "emptyAt b s = (isInBounds (fst s) (snd s) \<and> cellSafe b (fst s) (snd s) = None)"

definition opponentAt :: "board \<Rightarrow> color \<Rightarrow> int \<times> int \<Rightarrow> bool" where
  "opponentAt b opp s =
     (isInBounds (fst s) (snd s) \<and>
      (case cellSafe b (fst s) (snd s) of None \<Rightarrow> False | Some q \<Rightarrow> color q = opp))"

definition kingJumpSpec :: "board \<Rightarrow> int \<times> int \<Rightarrow> color \<Rightarrow> int \<times> int \<Rightarrow> move \<Rightarrow> bool" where
  "kingJumpSpec b pos opp dir j =
     (\<exists>k \<in> {1..7}. \<exists>l \<in> {k<..7}.
        (\<forall>d \<in> {1..<k}. emptyAt b (raySq pos dir d)) \<and>
        opponentAt b opp (raySq pos dir k) \<and>
        (\<forall>m \<in> {k<..l}. emptyAt b (raySq pos dir m)) \<and>
        j = [fst (raySq pos dir l), snd (raySq pos dir l),
             fst (raySq pos dir k), snd (raySq pos dir k)])"

definition firstOccupiedIsOpponent :: "board \<Rightarrow> int \<times> int \<Rightarrow> color \<Rightarrow> int \<times> int \<Rightarrow> bool" where
  "firstOccupiedIsOpponent b pos opp dir =
     (\<exists>k \<in> {1..7}. (\<forall>d \<in> {1..<k}. emptyAt b (raySq pos dir d)) \<and>
                     opponentAt b opp (raySq pos dir k))"

definition landing :: "move \<Rightarrow> int \<times> int" where
  "landing j = (j ! 0, j ! 1)"

lemma dists_upto: "dists = [1..7]"
  by (simp add: dists_def upto_rec1)

lemma kingJumps_found:
  "j \<in> set (kingJumps b x y dx dy opp True cx cy [n..7]) \<longleftrightarrow>
   (\<exists>l. n \<le> l \<and> l \<le> 7 \<and> (\<forall>m \<in> {n..l}. emptyAt b (raySq (x, y) (dx, dy) m)) \<and>
        j = [x + dx * l, y + dy * l, cx, cy])"
proof (induction "nat (8 - n)" arbitrary: n)
  case 0
  then have "[n..7] = []" by simp
  moreover have "\<not> (\<exists>l. n \<le> l \<and> l \<le> 7)" using 0 by auto
  ultimately show ?case by auto
next
  case (Suc k)
  then have n: "n \<le> 7" and up: "[n..7] = n # [n + 1..7]" by (auto simp: upto_rec1)
  have IH: "j \<in> set (kingJumps b x y dx dy opp True cx cy [n + 1..7]) \<longleftrightarrow>
   (\<exists>l. n + 1 \<le> l \<and> l \<le> 7 \<and> (\<forall>m \<in> {n + 1..l}. emptyAt b (raySq (x, y) (dx, dy) m)) \<and>
        j = [x + dx * l, y + dy * l, cx, cy])"
    using Suc by (intro Suc.hyps(1)) auto
  show ?case
  proof (cases "emptyAt b (raySq (x, y) (dx, dy) n)")
    case False
    then have "kingJumps b x y dx dy opp True cx cy [n..7] = []"
      by (auto simp: up emptyAt_def raySq_def Let_def split: option.splits)
    moreover have "\<not> (\<exists>l. n \<le> l \<and> l \<le> 7 \<and> (\<forall>m \<in> {n..l}. emptyAt b (raySq (x, y) (dx, dy) m)))"
      using False by auto
    ultimately show ?thesis by auto
  next
    case True
    then have e: "kingJumps b x y dx dy opp True cx cy [n..7] =
        [x + dx * n, y + dy * n, cx, cy] # kingJumps b x y dx dy opp True cx cy [n + 1..7]"
      by (simp add: up emptyAt_def raySq_def Let_def)
    have split: "\<And>l. n \<le> l \<Longrightarrow> (\<forall>m \<in> {n..l}. emptyAt b (raySq (x, y) (dx, dy) m)) \<longleftrightarrow>
                 (\<forall>m \<in> {n + 1..l}. emptyAt b (raySq (x, y) (dx, dy) m))"
    proof -
      fix l :: int assume "n \<le> l"
      then have "{n..l} = insert n {n + 1..l}" by auto
      then show "(\<forall>m \<in> {n..l}. emptyAt b (raySq (x, y) (dx, dy) m)) \<longleftrightarrow>
                 (\<forall>m \<in> {n + 1..l}. emptyAt b (raySq (x, y) (dx, dy) m))"
        using True by simp
    qed
    show ?thesis
    proof
      assume "j \<in> set (kingJumps b x y dx dy opp True cx cy [n..7])"
      then consider "j = [x + dx * n, y + dy * n, cx, cy]"
        | "j \<in> set (kingJumps b x y dx dy opp True cx cy [n + 1..7])"
        by (auto simp: e)
      then show "\<exists>l. n \<le> l \<and> l \<le> 7 \<and> (\<forall>m \<in> {n..l}. emptyAt b (raySq (x, y) (dx, dy) m)) \<and>
        j = [x + dx * l, y + dy * l, cx, cy]"
      proof cases
        case 1
        then show ?thesis using n True by (intro exI[of _ n]) simp
      next
        case 2
        with IH obtain l where l: "n + 1 \<le> l" "l \<le> 7"
          "\<forall>m \<in> {n + 1..l}. emptyAt b (raySq (x, y) (dx, dy) m)"
          "j = [x + dx * l, y + dy * l, cx, cy]" by auto
        then have "n \<le> l" by simp
        with l split[of l] show ?thesis by (intro exI[of _ l]) simp
      qed
    next
      assume "\<exists>l. n \<le> l \<and> l \<le> 7 \<and> (\<forall>m \<in> {n..l}. emptyAt b (raySq (x, y) (dx, dy) m)) \<and>
        j = [x + dx * l, y + dy * l, cx, cy]"
      then obtain l where l: "n \<le> l" "l \<le> 7"
          "\<forall>m \<in> {n..l}. emptyAt b (raySq (x, y) (dx, dy) m)"
          "j = [x + dx * l, y + dy * l, cx, cy]" by auto
      show "j \<in> set (kingJumps b x y dx dy opp True cx cy [n..7])"
      proof (cases "l = n")
        case True
        with l show ?thesis by (simp add: e)
      next
        case False
        with l have "n + 1 \<le> l" by simp
        moreover from l split[of l] have "\<forall>m \<in> {n + 1..l}. emptyAt b (raySq (x, y) (dx, dy) m)" by simp
        ultimately have "j \<in> set (kingJumps b x y dx dy opp True cx cy [n + 1..7])"
          using IH l by auto
        then show ?thesis by (simp add: e)
      qed
    qed
  qed
qed


lemma kingJumps_scan:
  "j \<in> set (kingJumps b x y dx dy opp False cx cy [n..7]) \<longleftrightarrow>
   (\<exists>k l. n \<le> k \<and> k < l \<and> l \<le> 7 \<and>
        (\<forall>d \<in> {n..<k}. emptyAt b (raySq (x, y) (dx, dy) d)) \<and>
        opponentAt b opp (raySq (x, y) (dx, dy) k) \<and>
        (\<forall>m \<in> {k<..l}. emptyAt b (raySq (x, y) (dx, dy) m)) \<and>
        j = [x + dx * l, y + dy * l, x + dx * k, y + dy * k])"
  (is "?L n \<longleftrightarrow> ?R n")
proof (induction "nat (8 - n)" arbitrary: n)
  case 0
  then have "[n..7] = []" by simp
  moreover have "\<not> (\<exists>k l. n \<le> k \<and> k < l \<and> l \<le> (7::int))" using 0 by auto
  ultimately show ?case by auto
next
  case (Suc w)
  then have n: "n \<le> 7" and up: "[n..7] = n # [n + 1..7]" by (auto simp: upto_rec1)
  have IH: "?L (n + 1) \<longleftrightarrow> ?R (n + 1)"
    using Suc by (intro Suc.hyps(1)) auto
  let ?s = "raySq (x, y) (dx, dy) n"
  have s: "?s = (x + dx * n, y + dy * n)" by (simp add: raySq_def)
  consider (out) "\<not> isInBounds (x + dx * n) (y + dy * n)"
    | (emp) "emptyAt b ?s"
    | (opp) "opponentAt b opp ?s"
    | (own) "isInBounds (x + dx * n) (y + dy * n)" "\<not> emptyAt b ?s" "\<not> opponentAt b opp ?s"
    by blast
  then show ?case
  proof cases
    case out
    then have "kingJumps b x y dx dy opp False cx cy [n..7] = []"
      by (simp add: up Let_def)
    moreover have "\<not> ?R n"
    proof
      assume "?R n"
      then obtain k l where kl: "n \<le> k" "k < l" "l \<le> 7"
        "\<forall>d \<in> {n..<k}. emptyAt b (raySq (x, y) (dx, dy) d)"
        "opponentAt b opp (raySq (x, y) (dx, dy) k)" by blast
      show False
      proof (cases "k = n")
        case True
        with kl(5) out show False by (simp add: opponentAt_def raySq_def)
      next
        case False
        with kl(1) have "n \<in> {n..<k}" by simp
        with kl(4) have "emptyAt b ?s" by blast
        with out show False by (simp add: emptyAt_def raySq_def)
      qed
    qed
    ultimately show ?thesis by simp
  next
    case emp
    then have e: "kingJumps b x y dx dy opp False cx cy [n..7] =
        kingJumps b x y dx dy opp False cx cy [n + 1..7]"
      by (simp add: up emptyAt_def raySq_def Let_def)
    have nopp: "\<not> opponentAt b opp ?s"
      using emp by (auto simp: emptyAt_def opponentAt_def split: option.splits)
    have "?R n \<longleftrightarrow> ?R (n + 1)"
    proof
      assume "?R n"
      then obtain k l where kl: "n \<le> k" "k < l" "l \<le> 7"
        "\<forall>d \<in> {n..<k}. emptyAt b (raySq (x, y) (dx, dy) d)"
        "opponentAt b opp (raySq (x, y) (dx, dy) k)"
        "\<forall>m \<in> {k<..l}. emptyAt b (raySq (x, y) (dx, dy) m)"
        "j = [x + dx * l, y + dy * l, x + dx * k, y + dy * k]" by blast
      from kl(5) nopp have "k \<noteq> n" by auto
      with kl(1) have "n + 1 \<le> k" by simp
      moreover from kl(4) have "\<forall>d \<in> {n + 1..<k}. emptyAt b (raySq (x, y) (dx, dy) d)" by simp
      ultimately show "?R (n + 1)" using kl by blast
    next
      assume "?R (n + 1)"
      then obtain k l where kl: "n + 1 \<le> k" "k < l" "l \<le> 7"
        "\<forall>d \<in> {n + 1..<k}. emptyAt b (raySq (x, y) (dx, dy) d)"
        "opponentAt b opp (raySq (x, y) (dx, dy) k)"
        "\<forall>m \<in> {k<..l}. emptyAt b (raySq (x, y) (dx, dy) m)"
        "j = [x + dx * l, y + dy * l, x + dx * k, y + dy * k]" by blast
      have "\<forall>d \<in> {n..<k}. emptyAt b (raySq (x, y) (dx, dy) d)"
      proof
        fix d assume "d \<in> {n..<k}"
        then have "d = n \<or> d \<in> {n + 1..<k}" by auto
        with emp kl(4) show "emptyAt b (raySq (x, y) (dx, dy) d)" by auto
      qed
      moreover from kl(1) have "n \<le> k" by simp
      ultimately show "?R n" using kl by blast
    qed
    with IH e show ?thesis by simp
  next
    case opp
    then have e: "kingJumps b x y dx dy opp False cx cy [n..7] =
        kingJumps b x y dx dy opp True (x + dx * n) (y + dy * n) [n + 1..7]"
      by (auto simp: up opponentAt_def raySq_def Let_def split: option.splits)
    have nemp: "\<not> emptyAt b ?s"
      using opp by (auto simp: emptyAt_def opponentAt_def split: option.splits)
    have "?R n \<longleftrightarrow> (\<exists>l. n + 1 \<le> l \<and> l \<le> 7 \<and>
        (\<forall>m \<in> {n + 1..l}. emptyAt b (raySq (x, y) (dx, dy) m)) \<and>
        j = [x + dx * l, y + dy * l, x + dx * n, y + dy * n])" (is "_ \<longleftrightarrow> ?F")
    proof
      assume "?R n"
      then obtain k l where kl: "n \<le> k" "k < l" "l \<le> 7"
        "\<forall>d \<in> {n..<k}. emptyAt b (raySq (x, y) (dx, dy) d)"
        "opponentAt b opp (raySq (x, y) (dx, dy) k)"
        "\<forall>m \<in> {k<..l}. emptyAt b (raySq (x, y) (dx, dy) m)"
        "j = [x + dx * l, y + dy * l, x + dx * k, y + dy * k]" by blast
      have "k = n"
      proof (rule ccontr)
        assume "k \<noteq> n"
        with kl(1) have "n \<in> {n..<k}" by simp
        with kl(4) nemp show False by blast
      qed
      moreover have "{n<..l} = {n + 1..l}" by auto
      ultimately show ?F using kl by (intro exI[of _ l]) auto
    next
      assume ?F
      then obtain l where l: "n + 1 \<le> l" "l \<le> 7"
        "\<forall>m \<in> {n + 1..l}. emptyAt b (raySq (x, y) (dx, dy) m)"
        "j = [x + dx * l, y + dy * l, x + dx * n, y + dy * n]" by blast
      have "{n<..l} = {n + 1..l}" by auto
      with l opp show "?R n"
        by (intro exI[of _ n] exI[of _ l]) auto
    qed
    with e kingJumps_found[of j b x y dx dy opp "x + dx * n" "y + dy * n" "n + 1"]
    show ?thesis by simp
  next
    case own
    then obtain q where q: "cellSafe b (x + dx * n) (y + dy * n) = Some q" "color q \<noteq> opp"
      by (auto simp: emptyAt_def opponentAt_def raySq_def split: option.splits)
    then have "kingJumps b x y dx dy opp False cx cy [n..7] = []"
      using own(1) by (simp add: up Let_def)
    moreover have "\<not> ?R n"
    proof
      assume "?R n"
      then obtain k l where kl: "n \<le> k" "k < l" "l \<le> 7"
        "\<forall>d \<in> {n..<k}. emptyAt b (raySq (x, y) (dx, dy) d)"
        "opponentAt b opp (raySq (x, y) (dx, dy) k)" by blast
      show False
      proof (cases "k = n")
        case True
        with kl(5) own show False by simp
      next
        case False
        with kl(1) have "n \<in> {n..<k}" by simp
        with kl(4) own show False by blast
      qed
    qed
    ultimately show ?thesis by simp
  qed
qed


lemma kingJumps_landing:
  assumes "j \<in> set (kingJumps b x y dx dy opp found cx cy [n..7])"
  shows "\<exists>l. n \<le> l \<and> landing j = (x + dx * l, y + dy * l)"
proof (cases found)
  case True
  with assms kingJumps_found[of j b x y dx dy opp cx cy n] show ?thesis
    by (auto simp: landing_def)
next
  case False
  with assms kingJumps_scan[of j b x y dx dy opp cx cy n]
  obtain k l where "n \<le> k" "k < l" "j = [x + dx * l, y + dy * l, x + dx * k, y + dy * k]"
    by auto
  then show ?thesis by (intro exI[of _ l]) (simp add: landing_def)
qed

lemma kingJumps_distinct:
  assumes "dx \<noteq> 0"
  shows "distinct (map landing (kingJumps b x y dx dy opp found cx cy [n..7]))"
proof (induction "nat (8 - n)" arbitrary: n found cx cy)
  case 0
  then have "[n..7] = []" by simp
  then show ?case by simp
next
  case (Suc w)
  then have up: "[n..7] = n # [n + 1..7]" by (auto simp: upto_rec1)
  have IH: "\<And>found cx cy. distinct (map landing
              (kingJumps b x y dx dy opp found cx cy [n + 1..7]))"
    using Suc by (intro Suc.hyps(1)) auto
  have fresh: "\<And>found' cx' cy' c d. (x + dx * n, y + dy * n) \<notin>
       landing ` set (kingJumps b x y dx dy opp found' cx' cy' [n + 1..7])"
  proof
    fix found' cx' cy'
    assume "(x + dx * n, y + dy * n) \<in>
       landing ` set (kingJumps b x y dx dy opp found' cx' cy' [n + 1..7])"
    then obtain j where j: "j \<in> set (kingJumps b x y dx dy opp found' cx' cy' [n + 1..7])"
      and e: "landing j = (x + dx * n, y + dy * n)" by auto
    from kingJumps_landing[OF j] obtain l where "n + 1 \<le> l" "landing j = (x + dx * l, y + dy * l)" by auto
    with e assms show False by simp
  qed
  show ?case
    unfolding up
    by (auto simp: Let_def IH fresh[unfolded image_iff, simplified] landing_def[of "[_, _, _, _]"] split: option.splits)
qed

lemma kingJumps_dir:
  assumes "j \<in> set (kingJumps b x y dx dy opp False cx cy dists)"
    and "dx = 1 \<or> dx = -1" and "dy = 1 \<or> dy = -1"
  shows "sgn (fst (landing j) - x) = dx \<and> sgn (snd (landing j) - y) = dy"
proof -
  from kingJumps_landing[of j b x y dx dy opp False cx cy 1] assms(1)
  obtain l where "1 \<le> l" "landing j = (x + dx * l, y + dy * l)"
    by (auto simp: dists_upto)
  with assms(2,3) show ?thesis by (auto simp: sgn_if)
qed

lemma findSingleJumps_king_set:
  assumes "isKing p"
  shows "j \<in> set (findSingleJumps b pos p) \<longleftrightarrow>
         (\<exists>dir \<in> set all_capture. kingJumpSpec b pos (opponentOf (color p)) dir j)"
proof -
  obtain x y where pos: "pos = (x, y)" by (cases pos)
  have one: "\<And>dx dy. j \<in> set (kingJumps b x y dx dy (opponentOf (color p)) False (-1) (-1) dists)
     \<longleftrightarrow> kingJumpSpec b pos (opponentOf (color p)) (dx, dy) j"
  proof -
    fix dx dy
    have "kingJumpSpec b pos (opponentOf (color p)) (dx, dy) j \<longleftrightarrow>
      (\<exists>k l. 1 \<le> k \<and> k < l \<and> l \<le> 7 \<and>
        (\<forall>d \<in> {1..<k}. emptyAt b (raySq (x, y) (dx, dy) d)) \<and>
        opponentAt b (opponentOf (color p)) (raySq (x, y) (dx, dy) k) \<and>
        (\<forall>m \<in> {k<..l}. emptyAt b (raySq (x, y) (dx, dy) m)) \<and>
        j = [x + dx * l, y + dy * l, x + dx * k, y + dy * k])"
      unfolding kingJumpSpec_def pos
      by (auto simp: raySq_def Bex_def)
    then show "j \<in> set (kingJumps b x y dx dy (opponentOf (color p)) False (-1) (-1) dists)
     \<longleftrightarrow> kingJumpSpec b pos (opponentOf (color p)) (dx, dy) j"
      using kingJumps_scan[of j b x y dx dy "opponentOf (color p)" "-1" "-1" 1]
      by (simp add: dists_upto)
  qed
  show ?thesis
    using assms by (simp add: findSingleJumps_def pos Let_def all_capture_def one[unfolded pos])
qed

lemma findSingleJumps_king_distinct:
  assumes "isKing p"
  shows "distinct (map landing (findSingleJumps b pos p))"
proof -
  obtain x y where pos: "pos = (x, y)" by (cases pos)
  let ?K = "\<lambda>dx dy. kingJumps b x y dx dy (opponentOf (color p)) False (-1) (-1) dists"
  let ?f = landing
  have d: "\<And>dx dy. dx \<noteq> 0 \<Longrightarrow> distinct (map ?f (?K dx dy))"
    using kingJumps_distinct[of _ b x y _ "opponentOf (color p)" False "-1" "-1" 1]
    by (simp add: dists_upto)
  have s: "\<And>dx dy j. j \<in> set (?K dx dy) \<Longrightarrow> dx = 1 \<or> dx = -1 \<Longrightarrow> dy = 1 \<or> dy = -1 \<Longrightarrow>
             sgn (fst (?f j) - x) = dx \<and> sgn (snd (?f j) - y) = dy"
    using kingJumps_dir by simp
  have disj: "\<And>dx dy dx' dy'. dx = 1 \<or> dx = -1 \<Longrightarrow> dy = 1 \<or> dy = -1 \<Longrightarrow>
     dx' = 1 \<or> dx' = -1 \<Longrightarrow> dy' = 1 \<or> dy' = -1 \<Longrightarrow> (dx, dy) \<noteq> (dx', dy') \<Longrightarrow>
     ?f ` set (?K dx dy) \<inter> ?f ` set (?K dx' dy') = {}"
  proof -
    fix dx dy dx' dy' :: int
    assume a: "dx = 1 \<or> dx = -1" "dy = 1 \<or> dy = -1" "dx' = 1 \<or> dx' = -1" "dy' = 1 \<or> dy' = -1"
      and ne: "(dx, dy) \<noteq> (dx', dy')"
    show "?f ` set (?K dx dy) \<inter> ?f ` set (?K dx' dy') = {}"
    proof (rule ccontr)
      assume "?f ` set (?K dx dy) \<inter> ?f ` set (?K dx' dy') \<noteq> {}"
      then obtain j j' where j: "j \<in> set (?K dx dy)" "j' \<in> set (?K dx' dy')" "?f j = ?f j'"
        by (auto simp: image_iff) metis
      from s[OF j(1) a(1,2)] s[OF j(2) a(3,4)] j(3) ne show False by simp
    qed
  qed
  have "findSingleJumps b pos p = ?K (-1) (-1) @ ?K 1 (-1) @ ?K (-1) 1 @ ?K 1 1"
    using assms by (simp add: findSingleJumps_def pos Let_def all_capture_def)
  then show ?thesis
    using d[of "-1" "-1"] d[of 1 "-1"] d[of "-1" 1] d[of 1 1]
      disj[of "-1" "-1" 1 "-1"] disj[of "-1" "-1" "-1" 1] disj[of "-1" "-1" 1 1]
      disj[of 1 "-1" "-1" 1] disj[of 1 "-1" 1 1] disj[of "-1" 1 1 1]
    by (simp add: image_Un Int_Un_distrib)
qed


text \<open>
  Claim C4, amended. For a king, a jump \<open>[lx, ly, cx, cy]\<close> is returned iff, along one of
  the four diagonals, \<open>(cx, cy)\<close> is the first occupied square, it holds an opponent
  piece, and every square after it up to and including \<open>(lx, ly)\<close> is on the board and
  empty. So a jump exists in a direction iff the first occupied square holds an
  opponent piece and the square right behind it is on the board and empty, and then
  every empty square up to the next obstruction or the edge is a landing square. No
  landing square is returned twice. In particular, for a king at (0,7) with an
  opponent piece at (3,4) and (1,6), (2,5), (4,3), (5,2), (6,1), (7,0) empty, the jumps
  landing at (4,3), (5,2), (6,1) and (7,0) are all returned.
\<close>

theorem findSingleJumps_king:
  assumes "isKing p"
  shows "(\<forall>j. j \<in> set (findSingleJumps b pos p) \<longleftrightarrow>
              (\<exists>dir \<in> set all_capture. kingJumpSpec b pos (opponentOf (color p)) dir j)) \<and>
         distinct (map landing (findSingleJumps b pos p)) \<and>
         (pos = (0, 7) \<and> emptyAt b (1, 6) \<and> emptyAt b (2, 5) \<and>
          opponentAt b (opponentOf (color p)) (3, 4) \<and>
          emptyAt b (4, 3) \<and> emptyAt b (5, 2) \<and> emptyAt b (6, 1) \<and> emptyAt b (7, 0) \<longrightarrow>
          set [[4, 3, 3, 4], [5, 2, 3, 4], [6, 1, 3, 4], [7, 0, 3, 4]]
            \<subseteq> set (findSingleJumps b pos p))"
proof (intro conjI allI impI)
  fix j
  show "j \<in> set (findSingleJumps b pos p) \<longleftrightarrow>
        (\<exists>dir \<in> set all_capture. kingJumpSpec b pos (opponentOf (color p)) dir j)"
    by (rule findSingleJumps_king_set[OF assms])
next
  show "distinct (map landing (findSingleJumps b pos p))"
    by (rule findSingleJumps_king_distinct[OF assms])
next
  assume a: "pos = (0, 7) \<and> emptyAt b (1, 6) \<and> emptyAt b (2, 5) \<and>
          opponentAt b (opponentOf (color p)) (3, 4) \<and>
          emptyAt b (4, 3) \<and> emptyAt b (5, 2) \<and> emptyAt b (6, 1) \<and> emptyAt b (7, 0)"
  let ?opp = "opponentOf (color p)"
  have r: "\<And>d. raySq (0, 7) (1, -1) d = (d, 7 - d)" by (simp add: raySq_def)
  have before: "\<forall>d \<in> {1..<3}. emptyAt b (raySq (0, 7) (1, -1) d)"
  proof
    fix d :: int assume "d \<in> {1..<3}"
    then have "d = 1 \<or> d = 2" by auto
    with a show "emptyAt b (raySq (0, 7) (1, -1) d)" by (auto simp: r)
  qed
  have after: "\<And>l. l \<in> {3<..7} \<Longrightarrow> \<forall>m \<in> {3<..l}. emptyAt b (raySq (0, 7) (1, -1) m)"
  proof
    fix l m :: int assume "l \<in> {3<..7}" "m \<in> {3<..l}"
    then have "m = 4 \<or> m = 5 \<or> m = 6 \<or> m = 7" by auto
    with a show "emptyAt b (raySq (0, 7) (1, -1) m)" by (auto simp: r)
  qed
  have spec: "\<And>l. l \<in> {3<..7} \<Longrightarrow> kingJumpSpec b (0, 7) ?opp (1, -1) [l, 7 - l, 3, 4]"
  proof -
    fix l :: int assume l: "l \<in> {3<..7}"
    have 1: "(3::int) \<in> {1..7}" by simp
    have 2: "opponentAt b ?opp (raySq (0, 7) (1, -1) 3)" using a by (simp add: r)
    have 3: "[l, 7 - l, 3, 4] = [fst (raySq (0, 7) (1, -1) l), snd (raySq (0, 7) (1, -1) l),
               fst (raySq (0, 7) (1, -1) 3), snd (raySq (0, 7) (1, -1) 3)]" by (simp add: r)
    show "kingJumpSpec b (0, 7) ?opp (1, -1) [l, 7 - l, 3, 4]"
      unfolding kingJumpSpec_def
      using 1 l before 2 after[OF l] 3 by blast
  qed
  have dir: "(1, -1) \<in> set all_capture" by (simp add: all_capture_def)
  have mem: "\<And>l. l \<in> {3<..7} \<Longrightarrow> [l, 7 - l, 3, 4] \<in> set (findSingleJumps b pos p)"
    using findSingleJumps_king_set[OF assms, of _ b pos] spec dir a by blast
  from mem[of 4] mem[of 5] mem[of 6] mem[of 7]
  show "set [[4, 3, 3, 4], [5, 2, 3, 4], [6, 1, 3, 4], [7, 0, 3, 4]]
            \<subseteq> set (findSingleJumps b pos p)" by simp
qed

theorem findSingleJumps_king_witness:
  "isKing (king Red) \<and>
   distinct (map landing (findSingleJumps (place [(0, 7, king Red), (3, 4, man Yellow)] emptyBoard) (0, 7) (king Red))) \<and>
   set [[4, 3, 3, 4], [5, 2, 3, 4], [6, 1, 3, 4], [7, 0, 3, 4]]
     \<subseteq> set (findSingleJumps (place [(0, 7, king Red), (3, 4, man Yellow)] emptyBoard) (0, 7) (king Red))"
proof -
  let ?b = "place [(0, 7, king Red), (3, 4, man Yellow)] emptyBoard"
  have k: "isKing (king Red)" by (simp add: king_def)
  have h: "emptyAt ?b (1, 6) \<and> emptyAt ?b (2, 5) \<and>
          opponentAt ?b (opponentOf (color (king Red))) (3, 4) \<and>
          emptyAt ?b (4, 3) \<and> emptyAt ?b (5, 2) \<and> emptyAt ?b (6, 1) \<and> emptyAt ?b (7, 0)"
    by code_simp
  from findSingleJumps_king[OF k, of ?b "(0, 7)"]
  have d: "distinct (map landing (findSingleJumps ?b (0, 7) (king Red)))"
    and i: "(0, 7) = ((0::int), (7::int)) \<and> emptyAt ?b (1, 6) \<and> emptyAt ?b (2, 5) \<and>
          opponentAt ?b (opponentOf (color (king Red))) (3, 4) \<and>
          emptyAt ?b (4, 3) \<and> emptyAt ?b (5, 2) \<and> emptyAt ?b (6, 1) \<and> emptyAt ?b (7, 0) \<longrightarrow>
          set [[4, 3, 3, 4], [5, 2, 3, 4], [6, 1, 3, 4], [7, 0, 3, 4]]
            \<subseteq> set (findSingleJumps ?b (0, 7) (king Red))"
    by blast+
  from i h have "set [[4, 3, 3, 4], [5, 2, 3, 4], [6, 1, 3, 4], [7, 0, 3, 4]]
            \<subseteq> set (findSingleJumps ?b (0, 7) (king Red))" by blast
  with k d show ?thesis by blast
qed
text \<open>
  Claim C4 as stated says that a jump exists in a direction iff the first occupied
  square along it holds an opponent piece. With a red king at (0,7) and yellow men at
  (1,6) and (2,5), the first occupied square of the diagonal holds an opponent piece,
  and no jump is returned: the square behind it is occupied.
\<close>

theorem king_jump_needs_landing_counterexample:
  "firstOccupiedIsOpponent
     (place [(0, 7, king Red), (1, 6, man Yellow), (2, 5, man Yellow)] emptyBoard)
     (0, 7) Yellow (1, -1) \<and>
   findSingleJumps
     (place [(0, 7, king Red), (1, 6, man Yellow), (2, 5, man Yellow)] emptyBoard)
     (0, 7) (king Red) = []"
  by code_simp

section \<open>Jump sequences and their first hops (claim C9)\<close>

text \<open>
  The words of the claim as definitions. \<open>hop\<close> is one capture simulated on a copy of
  the board: the piece leaves its square for the landing square and the captured piece
  is removed. \<open>promotes\<close> says that the hop lands a man on its promotion row. A
  maximal jump sequence (\<open>jumpSeq\<close>, first hop first) extends single jumps hop by
  hop; it ends when the piece has just promoted or has no further single jump.
  \<open>flatPath\<close> is the flat array the source keeps for a sequence, last hop first.
\<close>

definition hop :: "board \<Rightarrow> int \<times> int \<Rightarrow> move \<Rightarrow> board" where
  "hop b pos j =
     setCell (setCell (setCell (copyBoard b) (j ! 0) (j ! 1) (cellSafe b (fst pos) (snd pos)))
                (fst pos) (snd pos) None)
       (j ! 2) (j ! 3) None"

definition promotes :: "piece \<Rightarrow> move \<Rightarrow> bool" where
  "promotes p j = (\<not> isKing p \<and> shouldPromote (color p) (j ! 1))"

inductive jumpSeq :: "board \<Rightarrow> int \<times> int \<Rightarrow> piece \<Rightarrow> move list \<Rightarrow> bool" where
  promoted: "j \<in> set (findSingleJumps b pos p) \<Longrightarrow> promotes p j \<Longrightarrow> jumpSeq b pos p [j]"
| stuck: "j \<in> set (findSingleJumps b pos p) \<Longrightarrow> \<not> promotes p j \<Longrightarrow>
          findSingleJumps (hop b pos j) (landing j) p = [] \<Longrightarrow> jumpSeq b pos p [j]"
| further: "j \<in> set (findSingleJumps b pos p) \<Longrightarrow> \<not> promotes p j \<Longrightarrow>
          jumpSeq (hop b pos j) (landing j) p js \<Longrightarrow> jumpSeq b pos p (j # js)"

definition flatPath :: "move list \<Rightarrow> int list" where
  "flatPath s = concat (rev s)"

lemma collectE_all_Inr:
  assumes "\<And>x. x \<in> set xs \<Longrightarrow> f x = Inr (g x)"
  shows "collectE f xs = Inr (concat (map g xs))"
  using assms by (induction xs) auto

lemma jumpSeq_first: "jumpSeq b pos p s \<Longrightarrow> s \<noteq> [] \<and> hd s \<in> set (findSingleJumps b pos p)"
  by (induction rule: jumpSeq.induct) auto

lemma hop_facts:
  assumes j: "j \<in> set (findSingleJumps b pos p)"
    and ib: "isInBounds (fst pos) (snd pos)"
    and at: "cellSafe b (fst pos) (snd pos) = Some q"
  shows "length j = 4"
    and "isInBounds (j ! 0) (j ! 1)" and "isInBounds (j ! 2) (j ! 3)"
    and "cellAt (copyBoard b) (fst pos) (snd pos) = Inr (Some q)"
    and "cellSafe (setCell (setCell (copyBoard b) (j ! 0) (j ! 1) (Some q)) (fst pos) (snd pos) None)
            (j ! 2) (j ! 3) \<noteq> None"
    and "cellSafe (hop b pos j) (j ! 0) (j ! 1) = Some q"
    and "card (occupied (hop b pos j)) < card (occupied b)"
    and "wf8 (hop b pos j)"
proof -
  from findSingleJumps_ok[OF j] have ok: "jumpOK b pos (opponentOf (color p)) j" .
  then obtain nx ny cx cy where e: "j = [nx, ny, cx, cy]" by (auto simp: jumpOK_def)
  show "length j = 4" by (simp add: e)
  from ok show "isInBounds (j ! 0) (j ! 1)" "isInBounds (j ! 2) (j ! 3)"
    by (auto simp: jumpOK_def)
  from ib have y: "0 \<le> snd pos" "snd pos < 8" by (auto simp: isInBounds_def)
  show src: "cellAt (copyBoard b) (fst pos) (snd pos) = Inr (Some q)"
    using cellAt_wf8[OF wf8_copyBoard y, of b "fst pos"] ib at
    by (simp add: cellSafe_copyBoard)
  from ok e have ok': "jumpOK b pos (opponentOf (color p)) [nx, ny, cx, cy]" by simp
  let ?b2 = "setCell (setCell (copyBoard b) nx ny (Some q)) (fst pos) (snd pos) None"
  have c2: "cellSafe ?b2 cx cy \<noteq> None"
  proof
    assume n: "cellSafe ?b2 cx cy = None"
    from jump_shrinks(1)[OF ok' src] n
    have "occupied ?b2 = insert (nx, ny) (occupied b) - {pos, (cx, cy)}" by simp
    moreover have "(cx, cy) \<in> occupied b" "(cx, cy) \<noteq> pos" "(cx, cy) \<noteq> (nx, ny)"
      using ok' by (auto simp: jumpOK_def occupied_def)
    moreover have "occupied ?b2 = insert (nx, ny) (occupied b) - {pos}"
      using ib ok' by (cases pos)
        (auto simp: occupied_setCell wf8_setCell wf8_copyBoard occupied_copyBoard jumpOK_def)
    ultimately show False by auto
  qed
  then show "cellSafe (setCell (setCell (copyBoard b) (j ! 0) (j ! 1) (Some q)) (fst pos) (snd pos) None)
            (j ! 2) (j ! 3) \<noteq> None" by (simp add: e)
  have h: "hop b pos j = (if cellSafe ?b2 cx cy \<noteq> None then setCell ?b2 cx cy None else ?b2)"
    using c2 by (simp add: hop_def e at)
  show "cellSafe (hop b pos j) (j ! 0) (j ! 1) = Some q"
    using jump_shrinks(4)[OF ok' src] h by (simp add: e)
  show "card (occupied (hop b pos j)) < card (occupied b)"
    using jump_shrinks(2)[OF ok' src] h by simp
  show "wf8 (hop b pos j)"
    using jump_shrinks(3)[OF ok' src] h by simp
qed


lemma four_nth: "length j = 4 \<Longrightarrow> [j ! 0, j ! 1, j ! 2, j ! 3] = (j::int list)"
  by (cases j; cases "tl j"; cases "tl (tl j)"; cases "tl (tl (tl j))") auto

lemma findPaths_unfold:
  assumes ib: "isInBounds (fst pos) (snd pos)"
    and at: "cellSafe b (fst pos) (snd pos) = Some p"
    and ne: "findSingleJumps b pos p \<noteq> []"
  shows "findPaths b pos p path =
         collectE (\<lambda>j. if promotes p j then Inr [j @ path]
                        else findPaths (hop b pos j) (landing j) p (j @ path))
           (findSingleJumps b pos p)"
proof -
  have "findPaths b pos p path =
        collectE (\<lambda>jump.
        if length jump \<noteq> 4 then Inr []
        else
          let nextX = jump ! 0; nextY = jump ! 1; capX = jump ! 2; capY = jump ! 3;
              nextBoard = copyBoard b
          in case cellAt nextBoard (fst pos) (snd pos) of
               Inl e \<Rightarrow> Inl e
             | Inr None \<Rightarrow> Inr []
             | Inr (Some pieceToMove) \<Rightarrow>
                 if \<not> isInBounds capX capY then Inr []
                 else if \<not> isInBounds nextX nextY then Inr []
                 else
                   let board1 = setCell nextBoard nextX nextY (Some pieceToMove);
                       board2 = setCell board1 (fst pos) (snd pos) None;
                       board3 = (if cellSafe board2 capX capY \<noteq> None
                                 then setCell board2 capX capY None else board2)
                   in (case cellSafe board3 nextX nextY of
                         None \<Rightarrow> Inl TypeError
                       | Some pieceAfterJump \<Rightarrow>
                           let promotedThisStep =
                                 (\<not> isKing pieceAfterJump \<and> shouldPromote (color pieceAfterJump) nextY);
                               newPath = [nextX, nextY, capX, capY] @ path
                           in if promotedThisStep then Inr [newPath]
                              else findPaths board3 (nextX, nextY) pieceAfterJump newPath))
        (findSingleJumps b pos p)"
    using ne by (subst findPaths.simps) (simp add: Let_def)
  also have "\<dots> = collectE (\<lambda>j. if promotes p j then Inr [j @ path]
                        else findPaths (hop b pos j) (landing j) p (j @ path))
           (findSingleJumps b pos p)"
  proof (rule collectE_cong[OF refl])
    fix j assume j: "j \<in> set (findSingleJumps b pos p)"
    note f = hop_facts[OF j ib at]
    have h: "setCell (setCell (setCell (copyBoard b) (j ! 0) (j ! 1) (Some p)) (fst pos) (snd pos) None)
               (j ! 2) (j ! 3) None = hop b pos j"
      by (simp add: hop_def at)
    have n: "[j ! 0, j ! 1, j ! 2, j ! 3] = j" by (rule four_nth[OF f(1)])
    have n': "j ! 0 # j ! 1 # j ! 2 # j ! 3 # path = j @ path"
      using n by (metis append_Cons append_Nil)
    show "(if length j \<noteq> 4 then Inr []
        else
          let nextX = j ! 0; nextY = j ! 1; capX = j ! 2; capY = j ! 3;
              nextBoard = copyBoard b
          in case cellAt nextBoard (fst pos) (snd pos) of
               Inl e \<Rightarrow> Inl e
             | Inr None \<Rightarrow> Inr []
             | Inr (Some pieceToMove) \<Rightarrow>
                 if \<not> isInBounds capX capY then Inr []
                 else if \<not> isInBounds nextX nextY then Inr []
                 else
                   let board1 = setCell nextBoard nextX nextY (Some pieceToMove);
                       board2 = setCell board1 (fst pos) (snd pos) None;
                       board3 = (if cellSafe board2 capX capY \<noteq> None
                                 then setCell board2 capX capY None else board2)
                   in (case cellSafe board3 nextX nextY of
                         None \<Rightarrow> Inl TypeError
                       | Some pieceAfterJump \<Rightarrow>
                           let promotedThisStep =
                                 (\<not> isKing pieceAfterJump \<and> shouldPromote (color pieceAfterJump) nextY);
                               newPath = [nextX, nextY, capX, capY] @ path
                           in if promotedThisStep then Inr [newPath]
                              else findPaths board3 (nextX, nextY) pieceAfterJump newPath))
         = (if promotes p j then Inr [j @ path]
            else findPaths (hop b pos j) (landing j) p (j @ path))"
      using f(1-6) by (simp add: Let_def h n' promotes_def landing_def del: One_nat_def)
  qed
  finally show ?thesis .
qed

definition pathsOf :: "board \<Rightarrow> int \<times> int \<Rightarrow> piece \<Rightarrow> int list \<Rightarrow> int list set" where
  "pathsOf b pos p path =
     (if findSingleJumps b pos p = [] then (if path \<noteq> [] then {path} else {})
      else {flatPath s @ path | s. jumpSeq b pos p s})"

lemma findPaths_none:
  assumes "findSingleJumps b pos p = []"
  shows "findPaths b pos p path = Inr (if path \<noteq> [] then [path] else [])"
  using assms by (subst findPaths.simps) simp

lemma paths_union:
  assumes ib: "isInBounds (fst pos) (snd pos)" and at: "cellSafe b (fst pos) (snd pos) = Some p"
    and pr: "\<And>j. j \<in> set (findSingleJumps b pos p) \<Longrightarrow> promotes p j \<Longrightarrow> set (g j) = {j @ path}"
    and np: "\<And>j. j \<in> set (findSingleJumps b pos p) \<Longrightarrow> \<not> promotes p j \<Longrightarrow>
                 set (g j) = pathsOf (hop b pos j) (landing j) p (j @ path)"
  shows "(\<Union>j \<in> set (findSingleJumps b pos p). set (g j)) = {flatPath s @ path | s. jumpSeq b pos p s}"
proof (intro set_eqI iffI)
  fix x assume "x \<in> (\<Union>j \<in> set (findSingleJumps b pos p). set (g j))"
  then obtain j where j: "j \<in> set (findSingleJumps b pos p)" and x: "x \<in> set (g j)" by blast
  show "x \<in> {flatPath s @ path | s. jumpSeq b pos p s}"
  proof (cases "promotes p j")
    case True
    with x pr[OF j] have "x = flatPath [j] @ path" by (simp add: flatPath_def)
    moreover have "jumpSeq b pos p [j]" using j True by (rule jumpSeq.promoted)
    ultimately show ?thesis by blast
  next
    case n: False
    from np[OF j n] x have x': "x \<in> pathsOf (hop b pos j) (landing j) p (j @ path)" by simp
    show ?thesis
    proof (cases "findSingleJumps (hop b pos j) (landing j) p = []")
      case True
      with x' have "x = flatPath [j] @ path"
        by (simp add: pathsOf_def flatPath_def split: if_splits)
      moreover have "jumpSeq b pos p [j]" using j n True by (rule jumpSeq.stuck)
      ultimately show ?thesis by blast
    next
      case False
      with x' obtain s where s: "jumpSeq (hop b pos j) (landing j) p s"
        and "x = flatPath s @ j @ path" by (auto simp: pathsOf_def)
      then have "x = flatPath (j # s) @ path" by (simp add: flatPath_def)
      moreover have "jumpSeq b pos p (j # s)" using j n s by (rule jumpSeq.further)
      ultimately show ?thesis by blast
    qed
  qed
next
  fix x assume "x \<in> {flatPath s @ path | s. jumpSeq b pos p s}"
  then obtain s where s: "jumpSeq b pos p s" and x: "x = flatPath s @ path" by blast
  from s show "x \<in> (\<Union>j \<in> set (findSingleJumps b pos p). set (g j))"
  proof (cases rule: jumpSeq.cases)
    case (promoted j)
    with pr[of j] x have "x \<in> set (g j)" by (simp add: flatPath_def)
    with promoted show ?thesis by blast
  next
    case (stuck j)
    moreover from hop_facts(1)[OF stuck(2) ib at] have "j \<noteq> []" by auto
    ultimately have "pathsOf (hop b pos j) (landing j) p (j @ path) = {j @ path}"
      by (simp add: pathsOf_def)
    with np[of j] stuck x have "x \<in> set (g j)" by (simp add: flatPath_def)
    with stuck show ?thesis by blast
  next
    case (further j js)
    from jumpSeq_first[OF further(4)]
    have "findSingleJumps (hop b pos j) (landing j) p \<noteq> []" by auto
    with further(4) have "flatPath js @ j @ path \<in> pathsOf (hop b pos j) (landing j) p (j @ path)"
      by (auto simp: pathsOf_def)
    with np[of j] further x have "x \<in> set (g j)" by (simp add: flatPath_def)
    with further show ?thesis by blast
  qed
qed


lemma findPaths_paths:
  assumes "isInBounds (fst pos) (snd pos)" and "cellSafe b (fst pos) (snd pos) = Some p"
  shows "\<exists>ps. findPaths b pos p path = Inr ps \<and> set ps = pathsOf b pos p path"
  using assms
proof (induction "card (occupied b)" arbitrary: b pos path rule: less_induct)
  case less
  note ib = less.prems(1) and at = less.prems(2)
  show ?case
  proof (cases "findSingleJumps b pos p = []")
    case True
    then show ?thesis
      by (simp add: findPaths_none pathsOf_def)
  next
    case False
    let ?sj = "findSingleJumps b pos p"
    define step where "step j = (if promotes p j then Inr [j @ path]
                        else findPaths (hop b pos j) (landing j) p (j @ path))" for j
    define g where "g j = projr (step j)" for j
    have rec: "\<exists>ps. findPaths (hop b pos j) (landing j) p (j @ path) = Inr ps \<and>
            set ps = pathsOf (hop b pos j) (landing j) p (j @ path)" if j: "j \<in> set ?sj" for j
    proof -
      note f = hop_facts[OF j ib at]
      have "isInBounds (fst (landing j)) (snd (landing j))"
        using f(2) by (simp add: landing_def)
      moreover have "cellSafe (hop b pos j) (fst (landing j)) (snd (landing j)) = Some p"
        using f(6) by (simp add: landing_def)
      ultimately show ?thesis
        by (rule less.hyps[OF f(7)])
    qed
    have sg: "step j = Inr (g j)" if j: "j \<in> set ?sj" for j
    proof (cases "promotes p j")
      case True
      then show ?thesis by (simp add: g_def step_def)
    next
      case False
      from rec[OF j] obtain ps where "findPaths (hop b pos j) (landing j) p (j @ path) = Inr ps"
        by blast
      with False show ?thesis by (simp add: g_def step_def)
    qed
    have pr: "set (g j) = {j @ path}" if "j \<in> set ?sj" "promotes p j" for j
      using that by (simp add: g_def step_def)
    have np: "set (g j) = pathsOf (hop b pos j) (landing j) p (j @ path)"
      if j: "j \<in> set ?sj" and n: "\<not> promotes p j" for j
    proof -
      from rec[OF j] obtain ps where "findPaths (hop b pos j) (landing j) p (j @ path) = Inr ps"
        and "set ps = pathsOf (hop b pos j) (landing j) p (j @ path)"
        by blast
      with n show ?thesis by (simp add: g_def step_def)
    qed
    have "findPaths b pos p path = collectE step ?sj"
      unfolding step_def by (rule findPaths_unfold[OF ib at False])
    also have "\<dots> = Inr (concat (map g ?sj))"
      using sg by (rule collectE_all_Inr)
    finally have fp: "findPaths b pos p path = Inr (concat (map g ?sj))" .
    have "set (concat (map g ?sj)) = (\<Union>j \<in> set ?sj. set (g j))" by simp
    also have "\<dots> = {flatPath s @ path | s. jumpSeq b pos p s}"
      using ib at pr np by (rule paths_union)
    finally show ?thesis using fp False by (simp add: pathsOf_def)
  qed
qed

lemma jumpSeq_hops: "jumpSeq b pos p s \<Longrightarrow> \<forall>j \<in> set s. length j = 4"
proof (induction rule: jumpSeq.induct)
  case (promoted j b pos p)
  from findSingleJumps_ok[OF promoted(1)] show ?case by (auto simp: jumpOK_def)
next
  case (stuck j b pos p)
  from findSingleJumps_ok[OF stuck(1)] show ?case by (auto simp: jumpOK_def)
next
  case (further j b pos p js)
  from findSingleJumps_ok[OF further(1)] further(4) show ?case by (auto simp: jumpOK_def)
qed

definition firstHop :: "int list \<Rightarrow> move" where
  "firstHop path = [path ! (length path - 4), path ! (length path - 3),
                    path ! (length path - 2), path ! (length path - 1)]"

lemma flatPath_length: "\<forall>j \<in> set s. length j = 4 \<Longrightarrow> length (flatPath s) = 4 * length s"
  by (induction s) (auto simp: flatPath_def)

lemma firstHop_flatPath:
  assumes "\<forall>j \<in> set s. length j = 4" and "s \<noteq> []"
  shows "firstHop (flatPath s) = hd s"
proof -
  from assms obtain j js where s: "s = j # js" by (cases s) auto
  with assms have l: "length j = 4" by simp
  have f: "flatPath s = flatPath js @ j" by (simp add: s flatPath_def)
  have "firstHop (flatPath js @ j) = [j ! 0, j ! 1, j ! 2, j ! 3]"
    using l by (simp add: firstHop_def nth_append)
  with four_nth[OF l] f s show ?thesis by simp
qed

lemma same_four:
  assumes "length m = 4" and "length f = 4"
  shows "(m ! 0 = f ! 0 \<and> m ! 1 = f ! 1 \<and> m ! 2 = f ! 2 \<and> m ! 3 = f ! 3) \<longleftrightarrow> m = (f::int list)"
proof
  assume "m ! 0 = f ! 0 \<and> m ! 1 = f ! 1 \<and> m ! 2 = f ! 2 \<and> m ! 3 = f ! 3"
  then have "[m ! 0, m ! 1, m ! 2, m ! 3] = [f ! 0, f ! 1, f ! 2, f ! 3]" by simp
  with four_nth[OF assms(1)] four_nth[OF assms(2)] show "m = f" by simp
qed simp

definition validPath :: "int list \<Rightarrow> bool" where
  "validPath q = (\<not> (length q < 4 \<or> length q mod 4 \<noteq> 0))"

definition sameMove :: "move \<Rightarrow> move \<Rightarrow> bool" where
  "sameMove f m = (m ! 0 = f ! 0 \<and> m ! 1 = f ! 1 \<and> m ! 2 = f ! 2 \<and> m ! 3 = f ! 3)"

lemma firstHop_nth:
  "firstHop q ! 0 = q ! (length q - 4)" "firstHop q ! 1 = q ! (length q - 3)"
  "firstHop q ! 2 = q ! (length q - 2)" "firstHop q ! 3 = q ! (length q - 1)"
  by (simp_all add: firstHop_def)

lemma formatPaths_Cons:
  "formatPaths (q # ps) acc =
     (if \<not> validPath q then formatPaths ps acc
      else if \<not> list_ex (sameMove (firstHop q)) acc then formatPaths ps (acc @ [firstHop q])
      else formatPaths ps acc)"
proof -
  have "sameMove (firstHop q) = (\<lambda>m. m ! 0 = [q ! (length q - 4), q ! (length q - 3),
                             q ! (length q - 2), q ! (length q - 1)] ! 0 \<and> m ! 1 = [q ! (length q - 4), q ! (length q - 3),
                             q ! (length q - 2), q ! (length q - 1)] ! 1 \<and>
                              m ! 2 = [q ! (length q - 4), q ! (length q - 3),
                             q ! (length q - 2), q ! (length q - 1)] ! 2 \<and> m ! 3 = [q ! (length q - 4), q ! (length q - 3),
                             q ! (length q - 2), q ! (length q - 1)] ! 3)"
    unfolding sameMove_def firstHop_def by (rule refl)
  then show ?thesis
    unfolding validPath_def firstHop_def
    by (simp only: formatPaths.simps Let_def if_not_P not_not split: if_splits)
qed


lemma sameMove_eq:
  assumes "length m = 4" and "length f = 4"
  shows "sameMove f m \<longleftrightarrow> m = f"
  using same_four[OF assms] by (simp add: sameMove_def)

lemma list_ex_sameMove:
  assumes "\<forall>m \<in> set acc. length m = 4"
  shows "list_ex (sameMove (firstHop q)) acc \<longleftrightarrow> firstHop q \<in> set acc"
proof -
  have lf: "length (firstHop q) = 4" by (simp add: firstHop_def)
  have "\<And>m. m \<in> set acc \<Longrightarrow> sameMove (firstHop q) m \<longleftrightarrow> m = firstHop q"
    using assms sameMove_eq[OF _ lf] by blast
  then show ?thesis unfolding list_ex_iff by blast
qed

lemma formatPaths_spec:
  assumes "\<forall>m \<in> set acc. length m = 4" and "distinct acc"
  shows "set (formatPaths ps acc) = set acc \<union> firstHop ` {q \<in> set ps. validPath q} \<and>
         distinct (formatPaths ps acc) \<and> (\<forall>m \<in> set (formatPaths ps acc). length m = 4)"
  using assms
proof (induction ps arbitrary: acc)
  case Nil
  then show ?case by simp
next
  case (Cons q ps)
  note IH = Cons.IH
  show ?case
  proof (cases "validPath q")
    case False
    then have e: "formatPaths (q # ps) acc = formatPaths ps acc"
      by (subst formatPaths_Cons) simp
    from False have "{q' \<in> set (q # ps). validPath q'} = {q' \<in> set ps. validPath q'}" by auto
    with IH[OF Cons.prems] e show ?thesis by simp
  next
    case True
    then have u: "{q' \<in> set (q # ps). validPath q'} = insert q {q' \<in> set ps. validPath q'}"
      by auto
    have lf: "length (firstHop q) = 4" by (simp add: firstHop_def)
    show ?thesis
    proof (cases "firstHop q \<in> set acc")
      case inacc: True
      with True list_ex_sameMove[OF Cons.prems(1), of q]
      have e: "formatPaths (q # ps) acc = formatPaths ps acc"
        by (subst formatPaths_Cons) simp
      from IH[OF Cons.prems] have
        "set (formatPaths ps acc) = set acc \<union> firstHop ` {q \<in> set ps. validPath q}"
        "distinct (formatPaths ps acc)" "\<forall>m \<in> set (formatPaths ps acc). length m = 4"
        by simp_all
      moreover have "set acc \<union> firstHop ` insert q {q \<in> set ps. validPath q}
                   = set acc \<union> firstHop ` {q \<in> set ps. validPath q}"
        using inacc by blast
      ultimately show ?thesis unfolding e u by simp
    next
      case nin: False
      with True list_ex_sameMove[OF Cons.prems(1), of q]
      have e: "formatPaths (q # ps) acc = formatPaths ps (acc @ [firstHop q])"
        by (subst formatPaths_Cons) simp
      have a: "\<forall>m \<in> set (acc @ [firstHop q]). length m = 4" using Cons.prems(1) lf by simp
      have d: "distinct (acc @ [firstHop q])" using Cons.prems(2) nin by simp
      from IH[OF a d] have
        "set (formatPaths ps (acc @ [firstHop q])) =
           set (acc @ [firstHop q]) \<union> firstHop ` {q \<in> set ps. validPath q}"
        "distinct (formatPaths ps (acc @ [firstHop q]))"
        "\<forall>m \<in> set (formatPaths ps (acc @ [firstHop q])). length m = 4"
        by simp_all
      moreover have "set (acc @ [firstHop q]) \<union> firstHop ` {q \<in> set ps. validPath q}
                   = set acc \<union> firstHop ` insert q {q \<in> set ps. validPath q}"
        by auto
      ultimately show ?thesis unfolding e u by simp
    qed
  qed
qed

lemma validPath_flatPath:
  assumes "\<forall>j \<in> set s. length j = 4" and "s \<noteq> []"
  shows "validPath (flatPath s)"
proof -
  from assms(2) have "0 < length s" by simp
  with flatPath_length[OF assms(1)] show ?thesis by (simp add: validPath_def)
qed

text \<open>
  Claim C9, amended. For the piece that stands on \<open>position\<close>, \<open>getJumpMoves\<close> returns
  without an error, and the moves returned are exactly the first hops of the maximal
  jump sequences from \<open>position\<close>, each a four-entry array, each only once, and each a
  single jump that is available from \<open>position\<close> on the given board.
\<close>

theorem getJumpMoves_first_hops:
  assumes "isInBounds (fst pos) (snd pos)" and "cellSafe b (fst pos) (snd pos) = Some p"
  shows "\<exists>ms. getJumpMoves b pos p = Inr ms \<and>
              set ms = {hd s | s. jumpSeq b pos p s} \<and>
              distinct ms \<and>
              (\<forall>m \<in> set ms. length m = 4) \<and>
              set ms \<subseteq> set (findSingleJumps b pos p)"
proof -
  from findPaths_paths[OF assms, of "[]"] obtain ps where
    ps: "findPaths b pos p [] = Inr ps" and sp: "set ps = pathsOf b pos p []" by blast
  let ?ms = "formatPaths ps []"
  have g: "getJumpMoves b pos p = Inr ?ms" by (simp add: getJumpMoves_def ps)
  from formatPaths_spec[of "[]" ps]
  have s1: "set ?ms = firstHop ` {q \<in> set ps. validPath q}"
    and d: "distinct ?ms" and l: "\<forall>m \<in> set ?ms. length m = 4" by simp_all
  have sp': "set ps = {flatPath s | s. jumpSeq b pos p s}"
  proof (cases "findSingleJumps b pos p = []")
    case True
    have "\<not> jumpSeq b pos p s" for s
    proof
      assume "jumpSeq b pos p s"
      from jumpSeq_first[OF this] True show False by simp
    qed
    with True sp show ?thesis by (simp add: pathsOf_def)
  next
    case False
    with sp show ?thesis by (simp add: pathsOf_def)
  qed
  have s2: "set ?ms = {hd s | s. jumpSeq b pos p s}"
  proof (intro set_eqI iffI)
    fix m assume "m \<in> set ?ms"
    with s1 obtain q where q: "q \<in> set ps" and m: "m = firstHop q" by blast
    from q sp' obtain s where s: "jumpSeq b pos p s" and qs: "q = flatPath s" by blast
    from jumpSeq_first[OF s] have ne: "s \<noteq> []" by simp
    from firstHop_flatPath[OF jumpSeq_hops[OF s] ne] m qs have "m = hd s" by simp
    with s show "m \<in> {hd s | s. jumpSeq b pos p s}" by blast
  next
    fix m assume "m \<in> {hd s | s. jumpSeq b pos p s}"
    then obtain s where s: "jumpSeq b pos p s" and m: "m = hd s" by blast
    from jumpSeq_first[OF s] have ne: "s \<noteq> []" by simp
    from firstHop_flatPath[OF jumpSeq_hops[OF s] ne] m have m': "m = firstHop (flatPath s)" by simp
    have v: "validPath (flatPath s)" by (rule validPath_flatPath[OF jumpSeq_hops[OF s] ne])
    from s sp' have "flatPath s \<in> set ps" by blast
    with v have "flatPath s \<in> {q \<in> set ps. validPath q}" by simp
    then have "firstHop (flatPath s) \<in> firstHop ` {q \<in> set ps. validPath q}" by (rule imageI)
    with s1 m' show "m \<in> set ?ms" by simp
  qed
  have s3: "set ?ms \<subseteq> set (findSingleJumps b pos p)"
  proof
    fix m assume "m \<in> set ?ms"
    with s2 obtain s where s: "jumpSeq b pos p s" and m: "m = hd s" by blast
    from jumpSeq_first[OF s] m show "m \<in> set (findSingleJumps b pos p)" by simp
  qed
  from g s2 d l s3 show ?thesis by blast
qed

theorem getJumpMoves_first_hops_witness:
  "isInBounds (fst (3, 4)) (snd (3, 4)) \<and>
   cellSafe (place [(3, 4, king Red), (4, 3, man Yellow), (2, 5, man Yellow)] emptyBoard)
     (fst (3, 4)) (snd (3, 4)) = Some (king Red) \<and>
   (\<exists>ms. getJumpMoves (place [(3, 4, king Red), (4, 3, man Yellow), (2, 5, man Yellow)] emptyBoard)
           (3, 4) (king Red) = Inr ms \<and>
         set ms = {hd s | s. jumpSeq
           (place [(3, 4, king Red), (4, 3, man Yellow), (2, 5, man Yellow)] emptyBoard)
           (3, 4) (king Red) s} \<and>
         distinct ms \<and> (\<forall>m \<in> set ms. length m = 4) \<and>
         set ms \<subseteq> set (findSingleJumps
           (place [(3, 4, king Red), (4, 3, man Yellow), (2, 5, man Yellow)] emptyBoard)
           (3, 4) (king Red)))"
proof -
  let ?b = "place [(3, 4, king Red), (4, 3, man Yellow), (2, 5, man Yellow)] emptyBoard"
  have h1: "isInBounds (fst (3, 4)) (snd (3, 4))" by code_simp
  have h2: "cellSafe ?b (fst (3, 4)) (snd (3, 4)) = Some (king Red)" by code_simp
  from getJumpMoves_first_hops[OF h1 h2] h1 h2 show ?thesis by blast
qed

text \<open>
  Claim C9 as stated says that later hops of a sequence are never among the returned
  moves. A red king at (3,4) between yellow men at (4,3) and (2,5) can capture
  (4,3) landing on (5,2) and then, back along the same diagonal, capture (2,5)
  landing on (1,6). The second hop of that maximal sequence is also the first hop of
  another one, and it is among the moves returned.
\<close>

theorem later_hop_returned_counterexample:
  "jumpSeq (place [(3, 4, king Red), (4, 3, man Yellow), (2, 5, man Yellow)] emptyBoard)
     (3, 4) (king Red) [[5, 2, 4, 3], [1, 6, 2, 5]] \<and>
   getJumpMoves (place [(3, 4, king Red), (4, 3, man Yellow), (2, 5, man Yellow)] emptyBoard)
     (3, 4) (king Red)
     = Inr [[5, 2, 4, 3], [6, 1, 4, 3], [7, 0, 4, 3], [1, 6, 2, 5], [0, 7, 2, 5]] \<and>
   [1, 6, 2, 5] \<in> set [[5, 2, 4, 3], [6, 1, 4, 3], [7, 0, 4, 3], [1, 6, 2, 5], [0, 7, 2, 5 :: int]]"
proof -
  let ?b = "place [(3, 4, king Red), (4, 3, man Yellow), (2, 5, man Yellow)] emptyBoard"
  let ?k = "king Red"
  have a1: "[5, 2, 4, 3] \<in> set (findSingleJumps ?b (3, 4) ?k)" by code_simp
  have a2: "\<not> promotes ?k [5, 2, 4, 3]" by code_simp
  have b1: "[1, 6, 2, 5] \<in> set (findSingleJumps (hop ?b (3, 4) [5, 2, 4, 3]) (landing [5, 2, 4, 3]) ?k)"
    by code_simp
  have b2: "\<not> promotes ?k [1, 6, 2, 5]" by code_simp
  have b3: "findSingleJumps (hop (hop ?b (3, 4) [5, 2, 4, 3]) (landing [5, 2, 4, 3]) [1, 6, 2, 5])
              (landing [1, 6, 2, 5]) ?k = []" by code_simp
  have "jumpSeq (hop ?b (3, 4) [5, 2, 4, 3]) (landing [5, 2, 4, 3]) ?k [[1, 6, 2, 5]]"
    using b1 b2 b3 by (rule jumpSeq.stuck)
  with a1 a2 have s: "jumpSeq ?b (3, 4) ?k [[5, 2, 4, 3], [1, 6, 2, 5]]"
    by (rule jumpSeq.further)
  have g: "getJumpMoves ?b (3, 4) ?k
     = Inr [[5, 2, 4, 3], [6, 1, 4, 3], [7, 0, 4, 3], [1, 6, 2, 5], [0, 7, 2, 5]]"
    by code_simp
  have m: "[1, 6, 2, 5] \<in> set [[5, 2, 4, 3], [6, 1, 4, 3], [7, 0, 4, 3], [1, 6, 2, 5], [0, 7, 2, 5 :: int]]"
    by simp
  from s g m show ?thesis by blast
qed

section \<open>Legal moves under the mandatory jump rule (claim C1)\<close>

lemma cellAt_inBounds: "wf8 b \<Longrightarrow> isInBounds x y \<Longrightarrow> cellAt b x y = Inr (cellSafe b x y)"
  using cellAt_wf8[of b y x] by (simp add: isInBounds_def)

lemma kingSteps_Inr:
  assumes "wf8 b"
  shows "\<exists>ms. kingSteps b x y dx dy ds = Inr ms \<and> (\<forall>m \<in> set ms. length m = 2)"
proof (induction ds)
  case Nil
  show ?case by simp
next
  case (Cons d ds)
  then obtain ms where ms: "kingSteps b x y dx dy ds = Inr ms" "\<forall>m \<in> set ms. length m = 2"
    by blast
  show ?case
  proof (cases "isInBounds (x + dx * d) (y + dy * d)")
    case False
    then show ?thesis by (simp add: Let_def)
  next
    case True
    note c = cellAt_inBounds[OF assms True]
    show ?thesis
    proof (cases "cellSafe b (x + dx * d) (y + dy * d)")
      case None
      with True c ms show ?thesis by (simp add: Let_def)
    next
      case (Some q)
      with True c show ?thesis by (simp add: Let_def)
    qed
  qed
qed

lemma manStep_Inr:
  assumes "wf8 b"
  shows "\<exists>ms. manStep b x y dx dy = Inr ms \<and> (\<forall>m \<in> set ms. length m = 2)"
proof (cases "isInBounds (x + dx) (y + dy)")
  case False
  then show ?thesis by (simp add: manStep_def Let_def)
next
  case True
  from cellAt_inBounds[OF assms True] True show ?thesis
    by (simp add: manStep_def Let_def)
qed

lemma collectE_Inr_len:
  assumes "\<And>x. x \<in> set xs \<Longrightarrow> \<exists>ms. f x = Inr ms \<and> (\<forall>m \<in> set ms. length m = n)"
  shows "\<exists>ms. collectE f xs = Inr ms \<and> (\<forall>m \<in> set ms. length m = n)"
  using assms
proof (induction xs)
  case Nil
  show ?case by simp
next
  case (Cons x xs)
  from Cons.prems[of x] obtain a where a: "f x = Inr a" "\<forall>m \<in> set a. length m = n" by auto
  from Cons.IH Cons.prems obtain r where r: "collectE f xs = Inr r" "\<forall>m \<in> set r. length m = n"
    by (meson list.set_intros(2))
  from a r show ?case by auto
qed

lemma getRegularMoves_Inr:
  assumes "wf8 b"
  shows "\<exists>rs. getRegularMoves b pos p = Inr rs \<and> (\<forall>m \<in> set rs. length m = 2)"
proof (cases "isKing p")
  case True
  have "\<exists>ms. collectE (\<lambda>(dx, dy). kingSteps b (fst pos) (snd pos) dx dy dists) king_move = Inr ms
          \<and> (\<forall>m \<in> set ms. length m = 2)"
  proof (rule collectE_Inr_len)
    fix d :: "int \<times> int"
    obtain dx dy where "d = (dx, dy)" by (cases d)
    with kingSteps_Inr[OF assms, of "fst pos" "snd pos" dx dy dists]
    show "\<exists>ms. (case d of (dx, dy) \<Rightarrow> kingSteps b (fst pos) (snd pos) dx dy dists) = Inr ms \<and>
               (\<forall>m \<in> set ms. length m = 2)" by simp
  qed
  with True show ?thesis by (simp add: getRegularMoves_def Let_def)
next
  case False
  have "\<exists>ms. collectE (\<lambda>(dx, dy). manStep b (fst pos) (snd pos) dx dy)
             (if color p = Red then red_move else yellow_move) = Inr ms
          \<and> (\<forall>m \<in> set ms. length m = 2)"
  proof (rule collectE_Inr_len)
    fix d :: "int \<times> int"
    obtain dx dy where "d = (dx, dy)" by (cases d)
    with manStep_Inr[OF assms, of "fst pos" "snd pos" dx dy]
    show "\<exists>ms. (case d of (dx, dy) \<Rightarrow> manStep b (fst pos) (snd pos) dx dy) = Inr ms \<and>
               (\<forall>m \<in> set ms. length m = 2)" by simp
  qed
  with False show ?thesis by (simp add: getRegularMoves_def Let_def)
qed

lemma hasMandatoryJumps_iff:
  "hasMandatoryJumps b c \<longleftrightarrow>
   (\<exists>x y q. isInBounds x y \<and> cellSafe b x y = Some q \<and> color q = c \<and>
            findSingleJumps b (x, y) q \<noteq> [])"
proof
  assume "hasMandatoryJumps b c"
  then obtain y row x q where y: "y \<in> set idx8" and r: "rowAt b y = Some row"
    and x: "x \<in> set idx8" and q: "cellOf row x = Some q" "color q = c"
      "findSingleJumps b (x, y) q \<noteq> []"
    unfolding hasMandatoryJumps_def list_ex_iff
    by (auto split: option.splits)
  from x y have "isInBounds x y" by (simp add: isInBounds_iff)
  moreover from r q have "cellSafe b x y = Some q" by (simp add: cellSafe_def)
  ultimately show "\<exists>x y q. isInBounds x y \<and> cellSafe b x y = Some q \<and> color q = c \<and>
            findSingleJumps b (x, y) q \<noteq> []" using q by blast
next
  assume "\<exists>x y q. isInBounds x y \<and> cellSafe b x y = Some q \<and> color q = c \<and>
            findSingleJumps b (x, y) q \<noteq> []"
  then obtain x y q where ib: "isInBounds x y" and q: "cellSafe b x y = Some q" "color q = c"
      "findSingleJumps b (x, y) q \<noteq> []" by blast
  from ib have xy: "x \<in> set idx8" "y \<in> set idx8" by (simp_all add: isInBounds_iff)
  from q(1) obtain row where r: "rowAt b y = Some row" "cellOf row x = Some q"
    by (auto simp: cellSafe_def split: option.splits)
  have "list_ex (\<lambda>x. case cellOf row x of None \<Rightarrow> False
          | Some piece \<Rightarrow> color piece = c \<and> findSingleJumps b (x, y) piece \<noteq> []) idx8"
    unfolding list_ex_iff using xy(1) r(2) q by (intro bexI[of _ x]) simp_all
  then show "hasMandatoryJumps b c"
    unfolding hasMandatoryJumps_def list_ex_iff[of _ idx8]
    using xy(2) r(1) by (intro bexI[of _ y]) (simp_all add: list_ex_iff)
qed


lemma collectE_total:
  assumes "\<And>x. x \<in> set xs \<Longrightarrow> \<exists>r. f x = Inr r"
  shows "\<exists>r. collectE f xs = Inr r"
  using assms
proof (induction xs)
  case Nil
  show ?case by simp
next
  case (Cons x xs)
  from Cons.prems[of x] obtain a where a: "f x = Inr a" by auto
  from Cons.IH Cons.prems obtain r where r: "collectE f xs = Inr r"
    by (meson list.set_intros(2))
  from a r show ?case by auto
qed

text \<open>
  \<^verbatim>\<open>findPaths\<close> moves the piece that stands on the square, which need not be the
  piece it was called with; when the square is empty every round of its loop is
  skipped.
\<close>

lemma findPaths_step_any:
  assumes j: "j \<in> set (findSingleJumps b pos p)"
    and ib: "isInBounds (fst pos) (snd pos)"
  shows "(if length j \<noteq> 4 then Inr []
        else
          let nextX = j ! 0; nextY = j ! 1; capX = j ! 2; capY = j ! 3;
              nextBoard = copyBoard b
          in case cellAt nextBoard (fst pos) (snd pos) of
               Inl e \<Rightarrow> Inl e
             | Inr None \<Rightarrow> Inr []
             | Inr (Some pieceToMove) \<Rightarrow>
                 if \<not> isInBounds capX capY then Inr []
                 else if \<not> isInBounds nextX nextY then Inr []
                 else
                   let board1 = setCell nextBoard nextX nextY (Some pieceToMove);
                       board2 = setCell board1 (fst pos) (snd pos) None;
                       board3 = (if cellSafe board2 capX capY \<noteq> None
                                 then setCell board2 capX capY None else board2)
                   in (case cellSafe board3 nextX nextY of
                         None \<Rightarrow> Inl TypeError
                       | Some pieceAfterJump \<Rightarrow>
                           let promotedThisStep =
                                 (\<not> isKing pieceAfterJump \<and> shouldPromote (color pieceAfterJump) nextY);
                               newPath = [nextX, nextY, capX, capY] @ path
                           in if promotedThisStep then Inr [newPath]
                              else findPaths board3 (nextX, nextY) pieceAfterJump newPath))
         = (case cellSafe b (fst pos) (snd pos) of
              None \<Rightarrow> Inr []
            | Some q \<Rightarrow> if promotes q j then Inr [j @ path]
                        else findPaths (hop b pos j) (landing j) q (j @ path))"
proof (cases "cellSafe b (fst pos) (snd pos)")
  case None
  from ib have y: "0 \<le> snd pos" "snd pos < 8" by (auto simp: isInBounds_def)
  have "cellAt (copyBoard b) (fst pos) (snd pos) = Inr None"
    using cellAt_wf8[OF wf8_copyBoard y, of b "fst pos"] ib None
    by (simp add: cellSafe_copyBoard)
  with None show ?thesis by (simp add: Let_def)
next
  case (Some q)
  note f = hop_facts[OF j ib Some]
  have h: "setCell (setCell (setCell (copyBoard b) (j ! 0) (j ! 1) (Some q)) (fst pos) (snd pos) None)
               (j ! 2) (j ! 3) None = hop b pos j"
    by (simp add: hop_def Some)
  have n: "[j ! 0, j ! 1, j ! 2, j ! 3] = j" by (rule four_nth[OF f(1)])
  have n': "j ! 0 # j ! 1 # j ! 2 # j ! 3 # path = j @ path"
    using n by (metis append_Cons append_Nil)
  show ?thesis
    using f(1-6) by (simp add: Some Let_def h n' promotes_def landing_def del: One_nat_def)
qed

lemma findPaths_total:
  assumes ib: "isInBounds (fst pos) (snd pos)"
  shows "\<exists>ps. findPaths b pos p path = Inr ps"
proof (cases "findSingleJumps b pos p = []")
  case True
  then show ?thesis by (simp add: findPaths_none)
next
  case False
  let ?step = "\<lambda>j. case cellSafe b (fst pos) (snd pos) of
              None \<Rightarrow> Inr []
            | Some q \<Rightarrow> if promotes q j then Inr [j @ path]
                        else findPaths (hop b pos j) (landing j) q (j @ path)"
  have "findPaths b pos p path =
        collectE (\<lambda>jump.
        if length jump \<noteq> 4 then Inr []
        else
          let nextX = jump ! 0; nextY = jump ! 1; capX = jump ! 2; capY = jump ! 3;
              nextBoard = copyBoard b
          in case cellAt nextBoard (fst pos) (snd pos) of
               Inl e \<Rightarrow> Inl e
             | Inr None \<Rightarrow> Inr []
             | Inr (Some pieceToMove) \<Rightarrow>
                 if \<not> isInBounds capX capY then Inr []
                 else if \<not> isInBounds nextX nextY then Inr []
                 else
                   let board1 = setCell nextBoard nextX nextY (Some pieceToMove);
                       board2 = setCell board1 (fst pos) (snd pos) None;
                       board3 = (if cellSafe board2 capX capY \<noteq> None
                                 then setCell board2 capX capY None else board2)
                   in (case cellSafe board3 nextX nextY of
                         None \<Rightarrow> Inl TypeError
                       | Some pieceAfterJump \<Rightarrow>
                           let promotedThisStep =
                                 (\<not> isKing pieceAfterJump \<and> shouldPromote (color pieceAfterJump) nextY);
                               newPath = [nextX, nextY, capX, capY] @ path
                           in if promotedThisStep then Inr [newPath]
                              else findPaths board3 (nextX, nextY) pieceAfterJump newPath))
        (findSingleJumps b pos p)"
    using False by (subst findPaths.simps) (simp add: Let_def)
  also have "\<dots> = collectE ?step (findSingleJumps b pos p)"
    by (rule collectE_cong[OF refl]) (rule findPaths_step_any[OF _ ib])
  finally have u: "findPaths b pos p path = collectE ?step (findSingleJumps b pos p)" .
  have "\<exists>r. collectE ?step (findSingleJumps b pos p) = Inr r"
  proof (rule collectE_total)
    fix j assume j: "j \<in> set (findSingleJumps b pos p)"
    show "\<exists>r. ?step j = Inr r"
    proof (cases "cellSafe b (fst pos) (snd pos)")
      case None
      then show ?thesis by simp
    next
      case (Some q)
      note f = hop_facts[OF j ib Some]
      have "isInBounds (fst (landing j)) (snd (landing j))"
        using f(2) by (simp add: landing_def)
      moreover have "cellSafe (hop b pos j) (fst (landing j)) (snd (landing j)) = Some q"
        using f(6) by (simp add: landing_def)
      ultimately obtain ps where "findPaths (hop b pos j) (landing j) q (j @ path) = Inr ps"
        using findPaths_paths by blast
      with Some show ?thesis by simp
    qed
  qed
  with u show ?thesis by simp
qed

lemma getJumpMoves_total:
  assumes "isInBounds (fst pos) (snd pos)"
  shows "\<exists>js. getJumpMoves b pos p = Inr js \<and> (\<forall>m \<in> set js. length m = 4)"
proof -
  from findPaths_total[OF assms, of b p "[]"] obtain ps where
    ps: "findPaths b pos p [] = Inr ps" by blast
  from formatPaths_spec[of "[]" ps] have "\<forall>m \<in> set (formatPaths ps []). length m = 4" by simp
  with ps show ?thesis by (simp add: getJumpMoves_def)
qed

lemma own_jump_is_mandatory:
  assumes ib: "isInBounds (fst pos) (snd pos)" and at: "cellSafe b (fst pos) (snd pos) = Some p"
    and fp: "findPaths b pos p [] = Inr ps" and ne: "formatPaths ps [] \<noteq> []"
  shows "hasMandatoryJumps b (color p)"
proof -
  have "findSingleJumps b pos p \<noteq> []"
  proof
    assume "findSingleJumps b pos p = []"
    with fp have "ps = []" by (simp add: findPaths_none)
    with ne show False by simp
  qed
  then have "findSingleJumps b (fst pos, snd pos) p \<noteq> []" by simp
  with ib at show ?thesis unfolding hasMandatoryJumps_iff by blast
qed

text \<open>
  Claim C1. On an 8x8 board and for a square of the board, both move generators
  return without an error, jump moves have four entries and regular moves two, and
  \<open>getValidMoves\<close> returns the jump moves of the piece when \<open>hasMandatoryJumps\<close>
  holds for its colour (the empty list when this piece has no jump), and otherwise
  its jump moves if it has any, else its regular moves: never a mix. The fallback is
  taken only for a piece that is not the one standing on the square: when the piece
  on the square has a jump, \<open>hasMandatoryJumps\<close> holds.
\<close>

theorem getValidMoves_spec:
  assumes "wf8 b" and "isInBounds (fst pos) (snd pos)"
  shows "\<exists>js rs. getJumpMoves b pos p = Inr js \<and> getRegularMoves b pos p = Inr rs \<and>
           (\<forall>m \<in> set js. length m = 4) \<and> (\<forall>m \<in> set rs. length m = 2) \<and>
           getValidMoves b pos p =
             Inr (if hasMandatoryJumps b (color p) then js else if js \<noteq> [] then js else rs) \<and>
           (cellSafe b (fst pos) (snd pos) = Some p \<and> js \<noteq> [] \<longrightarrow>
              hasMandatoryJumps b (color p))"
proof -
  from getJumpMoves_total[OF assms(2), of b p] obtain js where
    js: "getJumpMoves b pos p = Inr js" "\<forall>m \<in> set js. length m = 4" by blast
  from getRegularMoves_Inr[OF assms(1), of pos p] obtain rs where
    rs: "getRegularMoves b pos p = Inr rs" "\<forall>m \<in> set rs. length m = 2" by blast
  have v: "getValidMoves b pos p =
             Inr (if hasMandatoryJumps b (color p) then js else if js \<noteq> [] then js else rs)"
    by (simp add: getValidMoves_def Let_def js(1) rs(1))
  have m: "cellSafe b (fst pos) (snd pos) = Some p \<and> js \<noteq> [] \<longrightarrow> hasMandatoryJumps b (color p)"
  proof
    assume a: "cellSafe b (fst pos) (snd pos) = Some p \<and> js \<noteq> []"
    from js(1) obtain ps where ps: "findPaths b pos p [] = Inr ps" "js = formatPaths ps []"
      by (auto simp: getJumpMoves_def split: sum.splits)
    with a own_jump_is_mandatory[OF assms(2) _ ps(1)] show "hasMandatoryJumps b (color p)"
      by simp
  qed
  from js rs v m show ?thesis by blast
qed

text \<open>
  Two instances. The opening scenario: the red man on (2,5) must jump the yellow man
  on (3,4). The fallback: no red piece of the board has a jump, but asked for a king
  on (2,5), where a red man stands, \<open>getValidMoves\<close> returns the jumps a king would
  have over the yellow man on (4,3) and none of its regular moves.
\<close>

definition fallbackBoard :: board where
  "fallbackBoard = place [(2, 5, man Red), (4, 3, man Yellow)] emptyBoard"

theorem getValidMoves_spec_witness:
  "wf8 (place [(2, 5, man Red), (3, 4, man Yellow)] emptyBoard) \<and>
   hasMandatoryJumps (place [(2, 5, man Red), (3, 4, man Yellow)] emptyBoard) Red \<and>
   getValidMoves (place [(2, 5, man Red), (3, 4, man Yellow)] emptyBoard) (2, 5) (man Red)
     = Inr [[4, 3, 3, 4]] \<and>
   wf8 fallbackBoard \<and>
   \<not> hasMandatoryJumps fallbackBoard Red \<and>
   getJumpMoves fallbackBoard (2, 5) (king Red) = Inr [[5, 2, 4, 3], [6, 1, 4, 3], [7, 0, 4, 3]] \<and>
   getRegularMoves fallbackBoard (2, 5) (king Red) \<noteq> Inr [] \<and>
   getValidMoves fallbackBoard (2, 5) (king Red) = Inr [[5, 2, 4, 3], [6, 1, 4, 3], [7, 0, 4, 3]] \<and>
   (\<exists>js rs. getJumpMoves fallbackBoard (2, 5) (king Red) = Inr js \<and>
      getRegularMoves fallbackBoard (2, 5) (king Red) = Inr rs \<and>
      getValidMoves fallbackBoard (2, 5) (king Red) =
        Inr (if hasMandatoryJumps fallbackBoard (color (king Red))
             then js else if js \<noteq> [] then js else rs))"
proof -
  let ?b = "place [(2, 5, man Red), (3, 4, man Yellow)] emptyBoard"
  have h1: "wf8 ?b" by code_simp
  have h2: "isInBounds (fst (2, 5)) (snd (2, 5))" by code_simp
  have h4: "hasMandatoryJumps ?b Red" by code_simp
  have h5: "getValidMoves ?b (2, 5) (man Red) = Inr [[4, 3, 3, 4]]" by code_simp
  have k1: "wf8 fallbackBoard" by code_simp
  have k2: "\<not> hasMandatoryJumps fallbackBoard Red" by code_simp
  have k3: "getJumpMoves fallbackBoard (2, 5) (king Red)
              = Inr [[5, 2, 4, 3], [6, 1, 4, 3], [7, 0, 4, 3]]" by code_simp
  have k4: "getRegularMoves fallbackBoard (2, 5) (king Red) \<noteq> Inr []" by code_simp
  have k5: "getValidMoves fallbackBoard (2, 5) (king Red)
              = Inr [[5, 2, 4, 3], [6, 1, 4, 3], [7, 0, 4, 3]]" by code_simp
  from getValidMoves_spec[OF k1 h2, of "king Red"] h1 h4 h5 k1 k2 k3 k4 k5
  show ?thesis by blast
qed

section \<open>The outcome of a position (claim C5)\<close>

text \<open>
  The words of the claim as definitions: a side has pieces when some square of the
  board holds a piece of its colour; it has moves when one of its pieces has a single
  jump or a regular move. \<open>outcomeSpec\<close> is the outcome the claim describes.
  \<open>tallyInv\<close> is the invariant of the two loops of \<open>checkWinner\<close> over the squares
  visited so far.
\<close>

definition pieceOf :: "board \<Rightarrow> color \<Rightarrow> int \<times> int \<Rightarrow> bool" where
  "pieceOf b c s = (case cellSafe b (fst s) (snd s) of None \<Rightarrow> False | Some q \<Rightarrow> color q = c)"

definition movableAt :: "board \<Rightarrow> color \<Rightarrow> int \<times> int \<Rightarrow> bool" where
  "movableAt b c s =
     (case cellSafe b (fst s) (snd s) of
        None \<Rightarrow> False
      | Some q \<Rightarrow> color q = c \<and>
          (findSingleJumps b s q \<noteq> [] \<or>
           (case getRegularMoves b s q of Inl e \<Rightarrow> False | Inr ms \<Rightarrow> ms \<noteq> [])))"

definition squares :: "(int \<times> int) list" where
  "squares = concat (map (\<lambda>y. map (\<lambda>x. (x, y)) idx8) idx8)"

definition hasPieces :: "board \<Rightarrow> color \<Rightarrow> bool" where
  "hasPieces b c = list_ex (pieceOf b c) squares"

definition hasMoves :: "board \<Rightarrow> color \<Rightarrow> bool" where
  "hasMoves b c = list_ex (movableAt b c) squares"

definition outcomeSpec :: "board \<Rightarrow> outcome option" where
  "outcomeSpec b =
     (if \<not> hasPieces b Red \<and> \<not> hasPieces b Yellow then Some Draw
      else if \<not> hasPieces b Red then Some (Wins Yellow)
      else if \<not> hasPieces b Yellow then Some (Wins Red)
      else if \<not> hasMoves b Red \<and> \<not> hasMoves b Yellow then Some Draw
      else if \<not> hasMoves b Red then Some (Wins Yellow)
      else if \<not> hasMoves b Yellow then Some (Wins Red)
      else None)"

definition tallyInv :: "board \<Rightarrow> (int \<times> int) set \<Rightarrow> tally \<Rightarrow> bool" where
  "tallyInv b P t =
     ((0 < redPieces t \<longleftrightarrow> (\<exists>s \<in> P. pieceOf b Red s)) \<and>
      (0 < yellowPieces t \<longleftrightarrow> (\<exists>s \<in> P. pieceOf b Yellow s)) \<and>
      (redMovesAvailable t \<longleftrightarrow> (\<exists>s \<in> P. movableAt b Red s)) \<and>
      (yellowMovesAvailable t \<longleftrightarrow> (\<exists>s \<in> P. movableAt b Yellow s)))"

lemma foldE_inv:
  assumes step: "\<And>x s P. x \<in> set xs \<Longrightarrow> I P s \<Longrightarrow> \<exists>s'. f x s = Inr s' \<and> I (P \<union> K x) s'"
    and init: "I P s"
  shows "\<exists>s'. foldE f xs s = Inr s' \<and> I (P \<union> (\<Union>x \<in> set xs. K x)) s'"
  using assms
proof (induction xs arbitrary: P s)
  case Nil
  then show ?case by simp
next
  case (Cons x xs)
  from Cons.prems(1)[of x P s] Cons.prems(2) obtain s1 where
    s1: "f x s = Inr s1" "I (P \<union> K x) s1" by auto
  have "\<exists>s'. foldE f xs s1 = Inr s' \<and> I ((P \<union> K x) \<union> (\<Union>x \<in> set xs. K x)) s'"
  proof (rule Cons.IH)
    show "I (P \<union> K x) s1" by (rule s1(2))
  next
    fix x' s' P' assume "x' \<in> set xs" "I P' s'"
    then show "\<exists>s''. f x' s' = Inr s'' \<and> I (P' \<union> K x') s''"
      using Cons.prems(1)[of x' P' s'] by simp
  qed
  then obtain s' where s': "foldE f xs s1 = Inr s'"
    "I ((P \<union> K x) \<union> (\<Union>x \<in> set xs. K x)) s'" by blast
  have "(P \<union> K x) \<union> (\<Union>x \<in> set xs. K x) = P \<union> (\<Union>x \<in> set (x # xs). K x)" by auto
  with s' s1(1) show ?case by simp
qed

lemma pieceCanMove_wf8:
  assumes "wf8 b" and "cellSafe b x y = Some q"
  shows "\<exists>can. pieceCanMove b (x, y) q = Inr can \<and>
           (can \<longleftrightarrow> movableAt b (color q) (x, y))"
proof -
  from getRegularMoves_Inr[OF assms(1), of "(x, y)" q] obtain rs where
    rs: "getRegularMoves b (x, y) q = Inr rs" by blast
  show ?thesis
  proof (cases "findSingleJumps b (x, y) q = []")
    case True
    with rs assms(2) show ?thesis by (simp add: pieceCanMove_def movableAt_def)
  next
    case False
    with rs assms(2) have "pieceCanMove b (x, y) q = Inr True" "movableAt b (color q) (x, y)"
      by (simp_all add: pieceCanMove_def movableAt_def)
    then show ?thesis by (intro exI[of _ True]) simp
  qed
qed

lemma not_movable_other:
  "cellSafe b x y = Some q \<Longrightarrow> c \<noteq> color q \<Longrightarrow> \<not> movableAt b c (x, y) \<and> \<not> pieceOf b c (x, y)"
  by (auto simp: movableAt_def pieceOf_def)


lemma tallySquare_inv:
  assumes wf: "wf8 b" and row: "rowAt b y = Some row" and inv: "tallyInv b P t"
  shows "\<exists>t'. tallySquare b row y x t = Inr t' \<and> tallyInv b (P \<union> {(x, y)}) t'"
proof (cases "cellOf row x")
  case None
  with row have n: "cellSafe b x y = None" by (simp add: cellSafe_def)
  then have "\<not> pieceOf b c (x, y)" "\<not> movableAt b c (x, y)" for c
    by (simp_all add: pieceOf_def movableAt_def)
  with inv have "tallyInv b (P \<union> {(x, y)}) t" by (simp add: tallyInv_def)
  with None show ?thesis by (simp add: tallySquare_def)
next
  case (Some q)
  with row have c: "cellSafe b x y = Some q" by (simp add: cellSafe_def)
  from pieceCanMove_wf8[OF wf c] obtain can where
    can: "pieceCanMove b (x, y) q = Inr can" "can \<longleftrightarrow> movableAt b (color q) (x, y)" by blast
  have p: "pieceOf b (color q) (x, y)" using c by (simp add: pieceOf_def)
  show ?thesis
  proof (cases "color q")
    case Red
    then have o: "\<not> movableAt b Yellow (x, y)" "\<not> pieceOf b Yellow (x, y)"
      using not_movable_other[OF c, of Yellow] by simp_all
    define t1 where "t1 = t\<lparr>redPieces := redPieces t + 1\<rparr>"
    define t' where "t' = (if \<not> redMovesAvailable t1 \<and> can then t1\<lparr>redMovesAvailable := True\<rparr> else t1)"
    have e: "tallySquare b row y x t = Inr t'"
      using Some Red can(1) by (simp add: tallySquare_def Let_def t'_def t1_def)
    have "tallyInv b (P \<union> {(x, y)}) t'"
      using inv o p can(2) Red
      by (auto simp: tallyInv_def t'_def t1_def)
    with e show ?thesis by blast
  next
    case Yellow
    then have o: "\<not> movableAt b Red (x, y)" "\<not> pieceOf b Red (x, y)"
      using not_movable_other[OF c, of Red] by simp_all
    define t1 where "t1 = t\<lparr>yellowPieces := yellowPieces t + 1\<rparr>"
    define t' where "t' = (if \<not> yellowMovesAvailable t1 \<and> can then t1\<lparr>yellowMovesAvailable := True\<rparr> else t1)"
    have e: "tallySquare b row y x t = Inr t'"
      using Some Yellow can(1) by (simp add: tallySquare_def Let_def t'_def t1_def)
    have "tallyInv b (P \<union> {(x, y)}) t'"
      using inv o p can(2) Yellow
      by (auto simp: tallyInv_def t'_def t1_def)
    with e show ?thesis by blast
  qed
qed

lemma tallyRow_inv:
  assumes wf: "wf8 b" and y: "y \<in> set idx8" and inv: "tallyInv b P t"
  shows "\<exists>t'. tallyRow b y t = Inr t' \<and> tallyInv b (P \<union> (\<lambda>x. (x, y)) ` set idx8) t'"
proof -
  from y have "0 \<le> y" "y < 8" by (auto simp: idx8_def)
  from rowAt_wf8[OF wf this] obtain row where row: "rowAt b y = Some row" "length row = 8"
    by blast
  have "\<exists>t'. foldE (tallySquare b row y) idx8 t = Inr t' \<and>
          tallyInv b (P \<union> (\<Union>x \<in> set idx8. {(x, y)})) t'"
  proof (rule foldE_inv[where I = "tallyInv b"])
    show "tallyInv b P t" by (rule inv)
  next
    fix x s P' assume "tallyInv b P' s"
    then show "\<exists>s'. tallySquare b row y x s = Inr s' \<and> tallyInv b (P' \<union> {(x, y)}) s'"
      by (rule tallySquare_inv[OF wf row(1)])
  qed
  moreover have "(\<Union>x \<in> set idx8. {(x, y)}) = (\<lambda>x. (x, y)) ` set idx8" by auto
  ultimately show ?thesis using row by (simp add: tallyRow_def)
qed

lemma squares_set: "set squares = (\<Union>y \<in> set idx8. (\<lambda>x. (x, y)) ` set idx8)"
  by (simp add: squares_def)

lemma checkWinner_tally:
  assumes wf: "wf8 b"
  shows "\<exists>t. checkWinner b = Inr (verdict t) \<and> tallyInv b (set squares) t"
proof -
  let ?t0 = "\<lparr>redPieces = 0, yellowPieces = 0,
              redMovesAvailable = False, yellowMovesAvailable = False\<rparr>"
  have "\<exists>t'. foldE (tallyRow b) idx8 ?t0 = Inr t' \<and>
          tallyInv b ({} \<union> (\<Union>y \<in> set idx8. (\<lambda>x. (x, y)) ` set idx8)) t'"
  proof (rule foldE_inv[where I = "tallyInv b"])
    show "tallyInv b {} ?t0" by (simp add: tallyInv_def)
  next
    fix y s P' assume "y \<in> set idx8" "tallyInv b P' s"
    then show "\<exists>s'. tallyRow b y s = Inr s' \<and> tallyInv b (P' \<union> (\<lambda>x. (x, y)) ` set idx8) s'"
      by (rule tallyRow_inv[OF wf])
  qed
  then obtain t where t: "foldE (tallyRow b) idx8 ?t0 = Inr t" "tallyInv b (set squares) t"
    by (auto simp: squares_set)
  from wf have "length b = 8" by (simp add: wf8_def)
  with t show ?thesis by (auto simp: checkWinner_def)
qed

text \<open>
  Claim C5. On an 8x8 board \<open>checkWinner\<close> returns without an error. A side without
  pieces loses (a draw when neither side has pieces); when both sides have pieces, a
  side without a single jump and without a regular move loses (a draw when neither
  side can move); otherwise the result is null. So the result is decided iff one side
  has no pieces or no moves.
\<close>

theorem checkWinner_outcome:
  assumes "wf8 b"
  shows "checkWinner b = Inr (outcomeSpec b) \<and>
         (outcomeSpec b \<noteq> None \<longleftrightarrow>
            \<not> hasPieces b Red \<or> \<not> hasPieces b Yellow \<or> \<not> hasMoves b Red \<or> \<not> hasMoves b Yellow)"
proof -
  from checkWinner_tally[OF assms] obtain t where
    c: "checkWinner b = Inr (verdict t)" and i: "tallyInv b (set squares) t" by blast
  from i have r: "0 < redPieces t \<longleftrightarrow> hasPieces b Red"
    and y: "0 < yellowPieces t \<longleftrightarrow> hasPieces b Yellow"
    and rm: "redMovesAvailable t \<longleftrightarrow> hasMoves b Red"
    and ym: "yellowMovesAvailable t \<longleftrightarrow> hasMoves b Yellow"
    by (simp_all add: tallyInv_def hasPieces_def hasMoves_def list_ex_iff)
  have "verdict t = outcomeSpec b"
    unfolding verdict_def outcomeSpec_def using r y rm ym by auto
  with c have 1: "checkWinner b = Inr (outcomeSpec b)" by simp
  have 2: "outcomeSpec b \<noteq> None \<longleftrightarrow>
            \<not> hasPieces b Red \<or> \<not> hasPieces b Yellow \<or> \<not> hasMoves b Red \<or> \<not> hasMoves b Yellow"
    unfolding outcomeSpec_def by auto
  from 1 2 show ?thesis by blast
qed


theorem checkWinner_outcome_witness:
  "wf8 (place [(7, 0, man Red), (0, 7, man Yellow)] emptyBoard) \<and>
   checkWinner (place [(7, 0, man Red), (0, 7, man Yellow)] emptyBoard) = Inr (Some Draw) \<and>
   checkWinner (place [(7, 0, man Red), (0, 7, man Yellow)] emptyBoard)
     = Inr (outcomeSpec (place [(7, 0, man Red), (0, 7, man Yellow)] emptyBoard)) \<and>
   hasPieces (place [(7, 0, man Red), (0, 7, man Yellow)] emptyBoard) Red \<and>
   hasPieces (place [(7, 0, man Red), (0, 7, man Yellow)] emptyBoard) Yellow \<and>
   \<not> hasMoves (place [(7, 0, man Red), (0, 7, man Yellow)] emptyBoard) Red \<and>
   \<not> hasMoves (place [(7, 0, man Red), (0, 7, man Yellow)] emptyBoard) Yellow"
proof -
  let ?b = "place [(7, 0, man Red), (0, 7, man Yellow)] emptyBoard"
  have h: "wf8 ?b" by code_simp
  have c: "checkWinner ?b = Inr (Some Draw)" by code_simp
  have p: "hasPieces ?b Red" "hasPieces ?b Yellow" "\<not> hasMoves ?b Red" "\<not> hasMoves ?b Yellow"
    by code_simp+
  from checkWinner_outcome[OF h] h c p show ?thesis by blast
qed

section \<open>The game controller (chess.js, class ChessGame)\<close>

text \<open>
  The fields of \<^verbatim>\<open>ChessGame\<close> are the record \<open>game\<close>. A selection
  \<^verbatim>\<open>{ x, y, piece }\<close> is a triple; \<^verbatim>\<open>capturedPieces\<close> maps a colour to the pieces
  captured from it. The object on the board and the object in the selection are the
  same in the source; here both hold the same value.
\<close>

datatype gameState = Active | RedWin | YellowWin | DrawnGame

record moveInfo =
  miFrom :: "int \<times> int"
  miTo :: "int \<times> int"
  miPiece :: piece
  miIsJump :: bool
  miPromoted :: bool
  miCaptured :: "(piece \<times> int \<times> int) list"

record historyEntry =
  boardBefore :: board
  playerBefore :: color
  capturedBefore :: "color \<Rightarrow> piece list"
  multiJumpBefore :: "(int \<times> int \<times> piece) option"
  moveInfo :: moveInfo

record game =
  board :: board
  currentPlayer :: color
  capturedPieces :: "color \<Rightarrow> piece list"
  gameState :: gameState
  moveHistory :: "historyEntry list"
  selectedPiece :: "(int \<times> int \<times> piece) option"
  validMoves :: "move list"
  multiJumpPiece :: "(int \<times> int \<times> piece) option"
  mustJump :: bool
  canOnlySelectJumpingPieces :: bool

text \<open>
  The write \<^verbatim>\<open>b[y][x] = v\<close> with no check before it. A missing row throws. A column
  past the end of the row makes the array longer, with holes that read as undefined.
  A negative column would create a property that is not an element of the array;
  arrays here have no such properties, so the model stops with \<open>NonIndexWrite\<close>.
\<close>

definition writeCell :: "board \<Rightarrow> int \<Rightarrow> int \<Rightarrow> square \<Rightarrow> error + board" where
  "writeCell b x y v =
     (case rowAt b y of
        None \<Rightarrow> Inl TypeError
      | Some row \<Rightarrow>
          if x < 0 then Inl NonIndexWrite
          else if nat x < length row then Inr (b[nat y := row[nat x := v]])
          else Inr (b[nat y := row @ replicate (nat x - length row) None @ [v]]))"

definition checkMandatoryJumps :: "game \<Rightarrow> game" where
  "checkMandatoryJumps g =
     (let g1 = g\<lparr>mustJump := hasMandatoryJumps (board g) (currentPlayer g)\<rparr>;
          g2 = g1\<lparr>canOnlySelectJumpingPieces := mustJump g1\<rparr>
      in if \<not> mustJump g2 then g2\<lparr>multiJumpPiece := None\<rparr> else g2)"

definition updateGameState :: "game \<Rightarrow> error + game" where
  "updateGameState g =
     (case checkWinner (board g) of
        Inl e \<Rightarrow> Inl e
      | Inr winner \<Rightarrow>
          let g1 = g\<lparr>gameState :=
                      (case winner of
                         Some (Wins Red) \<Rightarrow> RedWin
                       | Some (Wins Yellow) \<Rightarrow> YellowWin
                       | Some Draw \<Rightarrow> DrawnGame
                       | None \<Rightarrow> Active)\<rparr>
          in Inr (if gameState g1 = Active then checkMandatoryJumps g1 else g1))"

text \<open>
  The capture square of the chosen move: entries 2 and 3 of a four-entry move;
  for another length the midpoint of the move when both halves are integers.
\<close>

definition captureSquare :: "move \<Rightarrow> int \<Rightarrow> int \<Rightarrow> int \<Rightarrow> int \<Rightarrow> (int \<times> int) option" where
  "captureSquare chosenMove fromX fromY toX toY =
     (if length chosenMove = 4 then Some (chosenMove ! 2, chosenMove ! 3)
      else if even (toX - fromX) \<and> even (toY - fromY)
           then Some (fromX + (toX - fromX) div 2, fromY + (toY - fromY) div 2)
           else None)"

text \<open>
  "Handle Capture(s)" of \<^verbatim>\<open>movePiece\<close>: the board, \<^verbatim>\<open>capturedPieces\<close> and
  \<^verbatim>\<open>capturedPieceInfo\<close> after it.
\<close>

definition handleCapture ::
  "board \<Rightarrow> (color \<Rightarrow> piece list) \<Rightarrow> move \<Rightarrow> int \<Rightarrow> int \<Rightarrow> int \<Rightarrow> int \<Rightarrow>
   error + (board \<times> (color \<Rightarrow> piece list) \<times> (piece \<times> int \<times> int) list)" where
  "handleCapture b captures chosenMove fromX fromY toX toY =
     (case captureSquare chosenMove fromX fromY toX toY of
        None \<Rightarrow> Inr (b, captures, [])
      | Some (capX, capY) \<Rightarrow>
          if isInBounds capX capY
          then (case cellAt b capX capY of
                  Inl e \<Rightarrow> Inl e
                | Inr None \<Rightarrow> Inr (b, captures, [])
                | Inr (Some captured) \<Rightarrow>
                    Inr (setCell b capX capY None,
                         captures(color captured := captures (color captured) @ [captured]),
                         [(captured, capX, capY)]))
          else Inr (b, captures, []))"

text \<open>
  The part of \<^verbatim>\<open>movePiece\<close> from "Execute the Move" to the push to the history:
  the state after it, with the locals \<^verbatim>\<open>isJump\<close>, \<^verbatim>\<open>promoted\<close> and
  \<^verbatim>\<open>pieceAtDestination\<close> that the rest of the function reads.
\<close>

definition executeMove ::
  "game \<Rightarrow> int \<times> int \<times> piece \<Rightarrow> move \<Rightarrow> int \<Rightarrow> int \<Rightarrow> error + (game \<times> bool \<times> bool \<times> square)" where
  "executeMove g sel chosenMove toX toY =
     (let fromX = fst sel; fromY = fst (snd sel); piece = snd (snd sel);
          isJump = (length chosenMove > 2);
          originalPiece = piece
      in case writeCell (board g) toX toY (Some piece) of
           Inl e \<Rightarrow> Inl e
         | Inr board1 \<Rightarrow>
         (case writeCell board1 fromX fromY None of
           Inl e \<Rightarrow> Inl e
         | Inr board2 \<Rightarrow>
         (case (if isJump
                then handleCapture board2 (capturedPieces g) chosenMove fromX fromY toX toY
                else Inr (board2, capturedPieces g, [])) of
           Inl e \<Rightarrow> Inl e
         | Inr (board3, captured3, capturedPieceInfo) \<Rightarrow>
         (case cellAt board3 toX toY of
           Inl e \<Rightarrow> Inl e
         | Inr pieceAtDestination0 \<Rightarrow>
             let promoted =
                   (\<not> isKing originalPiece \<and>
                    (case pieceAtDestination0 of
                       None \<Rightarrow> False
                     | Some pd \<Rightarrow> shouldPromote (color pd) toY));
                 pieceAtDestination =
                   (if promoted then map_option (\<lambda>pd. pd\<lparr>isKing := True\<rparr>) pieceAtDestination0
                    else pieceAtDestination0);
                 board4 = (if promoted then setCell board3 toX toY pieceAtDestination else board3);
                 entry = \<lparr>boardBefore = board g, playerBefore = currentPlayer g,
                          capturedBefore = capturedPieces g,
                          multiJumpBefore = multiJumpPiece g,
                          moveInfo = \<lparr>miFrom = (fromX, fromY), miTo = (toX, toY),
                                       miPiece = originalPiece, miIsJump = isJump,
                                       miPromoted = promoted,
                                       miCaptured = capturedPieceInfo\<rparr>\<rparr>;
                 g1 = g\<lparr>board := board4, capturedPieces := captured3,
                        multiJumpPiece := (if promoted then None else multiJumpPiece g),
                        moveHistory := moveHistory g @ [entry]\<rparr>
             in Inr (g1, isJump, promoted, pieceAtDestination)))))"

text \<open>
  The rest of \<^verbatim>\<open>movePiece\<close>: "Check for Multi-Jump Continuation" and "End Turn or
  Continue Multi-Jump".
\<close>

definition endTurn :: "game \<Rightarrow> error + game" where
  "endTurn g =
     updateGameState
       (checkMandatoryJumps
          (g\<lparr>currentPlayer := (if currentPlayer g = Red then Yellow else Red),
              selectedPiece := None,
              validMoves := [],
              multiJumpPiece := None\<rparr>))"

definition finishTurn :: "game \<Rightarrow> int \<Rightarrow> int \<Rightarrow> bool \<Rightarrow> bool \<Rightarrow> square \<Rightarrow> error + game" where
  "finishTurn g toX toY isJump promoted pieceAtDestination =
     (case (if isJump \<and> \<not> promoted then pieceAtDestination else None) of
        None \<Rightarrow> endTurn g
      | Some pd \<Rightarrow>
          let furtherJumps = findSingleJumps (board g) (toX, toY) pd in
          if length furtherJumps > 0
          then Inr (g\<lparr>selectedPiece := Some (toX, toY, pd),
                       validMoves := furtherJumps,
                       multiJumpPiece := Some (toX, toY, pd),
                       mustJump := True,
                       canOnlySelectJumpingPieces := True\<rparr>)
          else endTurn g)"

definition movePiece :: "game \<Rightarrow> int \<Rightarrow> int \<Rightarrow> error + (bool \<times> game)" where
  "movePiece g toX toY =
     (case selectedPiece g of
        None \<Rightarrow> Inr (False, g)
      | Some sel \<Rightarrow>
          if gameState g \<noteq> Active then Inr (False, g)
          else (case find (\<lambda>m. length m \<ge> 2 \<and> m ! 0 = toX \<and> m ! 1 = toY) (validMoves g) of
                  None \<Rightarrow> Inr (False, g)
                | Some chosenMove \<Rightarrow>
                    (case executeMove g sel chosenMove toX toY of
                       Inl e \<Rightarrow> Inl e
                     | Inr (g1, isJump, promoted, pieceAtDestination) \<Rightarrow>
                         (case finishTurn g1 toX toY isJump promoted pieceAtDestination of
                            Inl e \<Rightarrow> Inl e
                          | Inr g2 \<Rightarrow> Inr (True, g2)))))"


section \<open>The search engine (chess-ai.js, class ChessAI)\<close>

text \<open>
  The two random tables of the constructor are parameters: \<open>zobristTable z i sq\<close> is
  \<^verbatim>\<open>zobristTable[i][sq]\<close> for \<open>i < 4\<close> and \<open>sq < 64\<close>, and \<open>zobristTurn z\<close> the turn
  key. A hash is the 32-bit integer that \<^verbatim>\<open>^\<close> produces. Reading the table outside
  its 64 squares gives undefined, which \<^verbatim>\<open>^\<close> treats as 0.
\<close>

record zobrist =
  zobristTable :: "nat \<Rightarrow> nat \<Rightarrow> 32 word"
  zobristTurn :: "32 word"

definition tableAt :: "zobrist \<Rightarrow> nat \<Rightarrow> int \<Rightarrow> 32 word" where
  "tableAt z pieceIndex squareIndex =
     (if 0 \<le> squareIndex \<and> squareIndex < 64 then zobristTable z pieceIndex (nat squareIndex)
      else 0)"

definition getPieceZobristIndex :: "piece \<Rightarrow> nat" where
  "getPieceZobristIndex p =
     (if color p = Red then (if isKing p then 1 else 0) else (if isKing p then 3 else 2))"

definition hashSquare :: "zobrist \<Rightarrow> board \<Rightarrow> int \<Rightarrow> int \<Rightarrow> 32 word \<Rightarrow> error + 32 word" where
  "hashSquare z b y x hash =
     (case cellAt b x y of
        Inl e \<Rightarrow> Inl e
      | Inr None \<Rightarrow> Inr hash
      | Inr (Some p) \<Rightarrow> Inr (hash XOR tableAt z (getPieceZobristIndex p) (y * 8 + x)))"

definition computeZobristHash :: "zobrist \<Rightarrow> board \<Rightarrow> color \<Rightarrow> error + 32 word" where
  "computeZobristHash z b colorToMove =
     (case foldE (\<lambda>y. foldE (hashSquare z b y) idx8) idx8 0 of
        Inl e \<Rightarrow> Inl e
      | Inr hash \<Rightarrow> Inr (if colorToMove = Yellow then hash XOR zobristTurn z else hash))"

text \<open>
  \<^verbatim>\<open>copyBoard\<close> of the search engine reads \<^verbatim>\<open>row[x]\<close> of \<^verbatim>\<open>row = board[y]\<close> with no
  check: a missing row throws.
\<close>

definition copyBoardAI :: "board \<Rightarrow> error + board" where
  "copyBoardAI b =
     (if list_all (\<lambda>y. rowAt b y \<noteq> None) idx8
      then Inr (map (\<lambda>y. map (\<lambda>x. cellSafe b x y) idx8) idx8)
      else Inl TypeError)"

text \<open>
  A move object of the search: \<^verbatim>\<open>{ fromX, fromY, toX, toY, isJump, captureX,
  captureY, score }\<close>; a regular move has no capture fields. The heuristic
  \<^verbatim>\<open>score\<close> is read by \<^verbatim>\<open>sortMoves\<close> only and is left out.
\<close>

record aimove =
  fromX :: int
  fromY :: int
  toX :: int
  toY :: int
  isJump :: bool
  captureX :: "int option"
  captureY :: "int option"

text \<open>
  \<^verbatim>\<open>simulateMove\<close> changes the board it is given and returns the new hash: the
  result is that board and the hash. The piece object that is promoted is the one
  just stored on the destination square (unless the source square is the
  destination, which the second assignment has cleared).
\<close>

definition simulateMove :: "zobrist \<Rightarrow> board \<Rightarrow> aimove \<Rightarrow> 32 word \<Rightarrow> error + (board \<times> 32 word)" where
  "simulateMove z b move currentHash =
     (case cellSafe b (fromX move) (fromY move) of
        None \<Rightarrow> Inr (b, currentHash)
      | Some p \<Rightarrow>
          let pieceIndex = getPieceZobristIndex p;
              fromSqIndex = fromY move * 8 + fromX move;
              toSqIndex = toY move * 8 + toX move;
              hash1 = currentHash XOR tableAt z pieceIndex fromSqIndex;
              captured =
                (if isJump move
                 then (case (captureX move, captureY move) of
                         (Some capX, Some capY) \<Rightarrow>
                           if isInBounds capX capY
                           then (case cellSafe b capX capY of
                                   Some capturedPiece \<Rightarrow> Some (capX, capY, capturedPiece)
                                 | None \<Rightarrow> None)
                           else None
                       | _ \<Rightarrow> None)
                 else None);
              hash2 = (case captured of
                         Some (capX, capY, capturedPiece) \<Rightarrow>
                           hash1 XOR tableAt z (getPieceZobristIndex capturedPiece) (capY * 8 + capX)
                       | None \<Rightarrow> hash1);
              board1 = (case captured of
                          Some (capX, capY, capturedPiece) \<Rightarrow> setCell b capX capY None
                        | None \<Rightarrow> b)
          in (case writeCell board1 (toX move) (toY move) (Some p) of
                Inl e \<Rightarrow> Inl e
              | Inr board2 \<Rightarrow>
                  let board3 = setCell board2 (fromX move) (fromY move) None;
                      promoted = (\<not> isKing p \<and> shouldPromote (color p) (toY move));
                      pieceAfter = (if promoted then p\<lparr>isKing := True\<rparr> else p);
                      board4 = (if promoted \<and> (toX move, toY move) \<noteq> (fromX move, fromY move)
                                then setCell board3 (toX move) (toY move) (Some pieceAfter)
                                else board3);
                      pieceIndexAfterMove = getPieceZobristIndex pieceAfter
                  in Inr (board4, hash2 XOR tableAt z pieceIndexAfterMove toSqIndex)))"

text \<open>
  A score is a number or one of the two infinities. \<^verbatim>\<open>searchMove\<close> calls
  \<^verbatim>\<open>minimax\<close> at its end; \<open>minimax\<close> is a parameter here, so the arguments of that
  call are what the function returns.
\<close>

datatype score = MinusInfinity | Finite real | PlusInfinity

definition searchMove ::
  "zobrist \<Rightarrow> (board \<Rightarrow> int \<Rightarrow> score \<Rightarrow> score \<Rightarrow> bool \<Rightarrow> color \<Rightarrow> bool \<Rightarrow> 32 word \<Rightarrow> error + score) \<Rightarrow>
   board \<Rightarrow> aimove \<Rightarrow> int \<Rightarrow> score \<Rightarrow> score \<Rightarrow> bool \<Rightarrow> color \<Rightarrow> bool \<Rightarrow> 32 word \<Rightarrow> error + score" where
  "searchMove z minimax b move depth alpha beta isMaximizing colr isContinuation currentHash =
     (case copyBoardAI b of
        Inl e \<Rightarrow> Inl e
      | Inr boardCopy0 \<Rightarrow>
     (case cellAt b (fromX move) (fromY move) of
        Inl e \<Rightarrow> Inl e
      | Inr None \<Rightarrow> Inr (if isMaximizing then MinusInfinity else PlusInfinity)
      | Inr (Some pieceBeforeMove) \<Rightarrow>
     (case simulateMove z boardCopy0 move currentHash of
        Inl e \<Rightarrow> Inl e
      | Inr (boardCopy, nextHash) \<Rightarrow>
     (case cellAt boardCopy (toX move) (toY move) of
        Inl e \<Rightarrow> Inl e
      | Inr pieceAfterMove \<Rightarrow>
          let nextColor = (if colr = Red then Yellow else Red);
              promoted = (case pieceAfterMove of
                            None \<Rightarrow> False
                          | Some pa \<Rightarrow> \<not> isKing pieceBeforeMove \<and>
                                        shouldPromote (color pa) (toY move));
              furtherJumps = (case pieceAfterMove of
                                None \<Rightarrow> []
                              | Some pa \<Rightarrow>
                                  if isJump move \<and> \<not> promoted
                                  then findSingleJumps boardCopy (toX move, toY move) pa
                                  else [])
          in if isJump move \<and> length furtherJumps > 0 \<and> \<not> promoted
             then minimax boardCopy depth alpha beta isMaximizing colr True nextHash
             else minimax boardCopy (depth - 1) alpha beta (\<not> isMaximizing) nextColor False
                    nextHash))))"

section \<open>What movePiece and searchMove do after the move is applied\<close>

definition jumpContinues :: "board \<Rightarrow> bool \<Rightarrow> bool \<Rightarrow> int \<Rightarrow> int \<Rightarrow> square \<Rightarrow> bool" where
  "jumpContinues boardAfter wasJump promoted x y landed =
     (wasJump \<and> \<not> promoted \<and>
      (case landed of None \<Rightarrow> False
       | Some q \<Rightarrow> findSingleJumps boardAfter (x, y) q \<noteq> []))"

lemma searchMove_next:
  assumes "copyBoardAI b = Inr c0"
    and "cellAt b (fromX m) (fromY m) = Inr (Some pb)"
    and "simulateMove z c0 m h = Inr (c, nh)"
    and "cellAt c (toX m) (toY m) = Inr pa"
  shows "searchMove z mm b m depth al be isMax colr ic h =
     (if jumpContinues c (isJump m)
           (case pa of None \<Rightarrow> False
            | Some q \<Rightarrow> \<not> isKing pb \<and> shouldPromote (color q) (toY m))
           (toX m) (toY m) pa
      then mm c depth al be isMax colr True nh
      else mm c (depth - 1) al be (\<not> isMax) (opponentOf colr) False nh)"
proof (cases pa)
  case None
  with assms show ?thesis
    by (simp add: searchMove_def jumpContinues_def Let_def opponentOf_def)
next
  case (Some q)
  with assms show ?thesis
    by (auto simp: searchMove_def jumpContinues_def Let_def opponentOf_def)
qed

lemma checkMandatoryJumps_fields:
  "board (checkMandatoryJumps g) = board g"
  "currentPlayer (checkMandatoryJumps g) = currentPlayer g"
  "selectedPiece (checkMandatoryJumps g) = selectedPiece g"
  "validMoves (checkMandatoryJumps g) = validMoves g"
  "gameState (checkMandatoryJumps g) = gameState g"
  "multiJumpPiece g = None \<Longrightarrow> multiJumpPiece (checkMandatoryJumps g) = None"
  by (simp_all add: checkMandatoryJumps_def Let_def)

lemma updateGameState_fields:
  assumes "updateGameState g = Inr g'"
  shows "board g' = board g" "currentPlayer g' = currentPlayer g"
    "selectedPiece g' = selectedPiece g" "validMoves g' = validMoves g"
    "multiJumpPiece g = None \<Longrightarrow> multiJumpPiece g' = None"
proof -
  from assms obtain w where w: "checkWinner (board g) = Inr w"
    by (cases "checkWinner (board g)") (simp_all add: updateGameState_def)
  define g1 where "g1 = g\<lparr>gameState :=
                      (case w of
                         Some (Wins Red) \<Rightarrow> RedWin
                       | Some (Wins Yellow) \<Rightarrow> YellowWin
                       | Some Draw \<Rightarrow> DrawnGame
                       | None \<Rightarrow> Active)\<rparr>"
  from assms w have "(if gameState g1 = Active then checkMandatoryJumps g1 else g1) = g'"
    unfolding updateGameState_def Let_def g1_def by simp
  then have e: "g' = (if gameState g1 = Active then checkMandatoryJumps g1 else g1)"
    by (rule sym)
  show "board g' = board g" "currentPlayer g' = currentPlayer g"
    "selectedPiece g' = selectedPiece g" "validMoves g' = validMoves g"
    by (simp_all add: e checkMandatoryJumps_fields g1_def)
  show "multiJumpPiece g = None \<Longrightarrow> multiJumpPiece g' = None"
    by (simp add: e checkMandatoryJumps_fields g1_def)
qed

lemma endTurn_fields:
  assumes "endTurn g = Inr g'"
  shows "board g' = board g" "currentPlayer g' = opponentOf (currentPlayer g)"
    "selectedPiece g' = None" "validMoves g' = []" "multiJumpPiece g' = None"
proof -
  let ?g0 = "g\<lparr>currentPlayer := (if currentPlayer g = Red then Yellow else Red),
              selectedPiece := None, validMoves := [], multiJumpPiece := None\<rparr>"
  from assms have u: "updateGameState (checkMandatoryJumps ?g0) = Inr g'"
    by (simp add: endTurn_def)
  note f = updateGameState_fields[OF u]
  show "board g' = board g" using f(1) by (simp add: checkMandatoryJumps_fields)
  show "currentPlayer g' = opponentOf (currentPlayer g)"
    using f(2) by (simp add: checkMandatoryJumps_fields opponentOf_def)
  show "selectedPiece g' = None" using f(3) by (simp add: checkMandatoryJumps_fields)
  show "validMoves g' = []" using f(4) by (simp add: checkMandatoryJumps_fields)
  show "multiJumpPiece g' = None" using f(5) by (simp add: checkMandatoryJumps_fields)
qed

lemma finishTurn_spec:
  assumes "finishTurn g1 tx ty j pr pd = Inr g'"
  shows "board g' = board g1 \<and>
     (if jumpContinues (board g1) j pr tx ty pd
      then currentPlayer g' = currentPlayer g1 \<and>
           (\<exists>q. pd = Some q \<and> validMoves g' = findSingleJumps (board g1) (tx, ty) q \<and>
                multiJumpPiece g' = Some (tx, ty, q) \<and> selectedPiece g' = Some (tx, ty, q))
      else currentPlayer g' = opponentOf (currentPlayer g1) \<and> validMoves g' = [] \<and>
           multiJumpPiece g' = None \<and> selectedPiece g' = None)"
proof (cases "jumpContinues (board g1) j pr tx ty pd")
  case True
  then obtain q where q: "pd = Some q" "j" "\<not> pr" "findSingleJumps (board g1) (tx, ty) q \<noteq> []"
    by (cases pd) (simp_all add: jumpContinues_def)
  with assms have "g' = g1\<lparr>selectedPiece := Some (tx, ty, q),
                       validMoves := findSingleJumps (board g1) (tx, ty) q,
                       multiJumpPiece := Some (tx, ty, q),
                       mustJump := True,
                       canOnlySelectJumpingPieces := True\<rparr>"
    by (simp add: finishTurn_def Let_def)
  with True q show ?thesis by simp
next
  case False
  have "finishTurn g1 tx ty j pr pd = endTurn g1"
  proof (cases "j \<and> \<not> pr")
    case True
    show ?thesis
    proof (cases pd)
      case None
      with True show ?thesis by (simp add: finishTurn_def)
    next
      case (Some q)
      with True False have "findSingleJumps (board g1) (tx, ty) q = []"
        by (simp add: jumpContinues_def)
      with True Some show ?thesis by (simp add: finishTurn_def Let_def)
    qed
  next
    case False
    then show ?thesis by (auto simp: finishTurn_def)
  qed
  with assms have "endTurn g1 = Inr g'" by simp
  from endTurn_fields[OF this] False show ?thesis by simp
qed

lemma executeMove_player:
  assumes "executeMove g sel cm tx ty = Inr (g1, j, pr, pd)"
  shows "currentPlayer g1 = currentPlayer g \<and> j = (length cm > 2)"
  using assms
  by (auto simp: executeMove_def Let_def split: sum.splits option.splits if_splits prod.splits)

lemma movePiece_applied:
  assumes "movePiece g tx ty = Inr (True, g')"
  shows "\<exists>sel cm g1 j pr pd.
           selectedPiece g = Some sel \<and>
           find (\<lambda>m. length m \<ge> 2 \<and> m ! 0 = tx \<and> m ! 1 = ty) (validMoves g) = Some cm \<and>
           executeMove g sel cm tx ty = Inr (g1, j, pr, pd) \<and>
           finishTurn g1 tx ty j pr pd = Inr g'"
  using assms
  by (auto simp: movePiece_def split: option.splits if_splits sum.splits prod.splits)


definition inRange :: "board \<Rightarrow> int \<Rightarrow> int \<Rightarrow> bool" where
  "inRange b x y = (0 \<le> y \<and> nat y < length b \<and> 0 \<le> x \<and> nat x < length (b ! nat y))"

lemma cellSafe_Some_inRange: "cellSafe b x y = Some q \<Longrightarrow> inRange b x y"
  by (auto simp: cellSafe_def rowAt_def cellOf_def inRange_def split: if_splits option.splits)

lemma cellAt_Some: "cellAt b x y = Inr (Some q) \<Longrightarrow> cellSafe b x y = Some q"
  by (auto simp: cellSafe_def cellAt_def split: option.splits)

lemma cellAt_Inr: "cellAt b x y = Inr v \<Longrightarrow> cellSafe b x y = v"
  by (auto simp: cellSafe_def cellAt_def split: option.splits)

lemma cellSafe_setCell_inRange:
  assumes "inRange b x y"
  shows "cellSafe (setCell b x y v) x' y' = (if x' = x \<and> y' = y then v else cellSafe b x' y')"
proof -
  from assms have r: "0 \<le> y" "nat y < length b" "0 \<le> x" "nat x < length (b ! nat y)"
    by (simp_all add: inRange_def)
  show ?thesis
  proof (cases "y' = y")
    case True
    show ?thesis
    proof (cases "x' = x")
      case True
      with \<open>y' = y\<close> r show ?thesis
        by (simp add: cellSafe_def rowAt_def cellOf_def setCell_def)
    next
      case False
      show ?thesis
      proof (cases "0 \<le> x'")
        case True
        with False r have "nat x' \<noteq> nat x" by simp
        with \<open>y' = y\<close> False r show ?thesis
          by (simp add: cellSafe_def rowAt_def cellOf_def setCell_def)
      next
        case False
        with \<open>y' = y\<close> r show ?thesis
          by (simp add: cellSafe_def rowAt_def cellOf_def setCell_def)
      qed
    qed
  next
    case False
    show ?thesis
    proof (cases "0 \<le> y'")
      case True
      with False r have "nat y' \<noteq> nat y" by simp
      with False r show ?thesis
        by (simp add: cellSafe_def rowAt_def setCell_def)
    next
      case n: False
      with False show ?thesis
        by (simp add: cellSafe_def rowAt_def setCell_def)
    qed
  qed
qed

lemma cellSafe_writeCell:
  assumes "writeCell b x y v = Inr b'"
  shows "cellSafe b' x' y' = (if x' = x \<and> y' = y then v else cellSafe b x' y')"
proof -
  from assms have y: "0 \<le> y" "nat y < length b"
    by (auto simp: writeCell_def rowAt_def split: option.splits if_splits)
  then have row: "rowAt b y = Some (b ! nat y)" by (simp add: rowAt_def)
  from assms row have x: "0 \<le> x" by (auto simp: writeCell_def split: if_splits)
  let ?row = "b ! nat y"
  define row' where "row' = (if nat x < length ?row then ?row[nat x := v]
                             else ?row @ replicate (nat x - length ?row) None @ [v])"
  from assms row x have b': "b' = b[nat y := row']"
    by (auto simp: writeCell_def row'_def split: if_splits)
  have c: "cellOf row' x' = (if x' = x then v else cellOf ?row x')"
  proof (cases "x' = x")
    case True
    with x show ?thesis by (auto simp: row'_def cellOf_def nth_append)
  next
    case False
    show ?thesis
    proof (cases "0 \<le> x'")
      case True
      with False x have ne: "nat x' \<noteq> nat x" by simp
      show ?thesis
      proof (cases "nat x < length ?row")
        case True
        with ne False \<open>0 \<le> x'\<close> show ?thesis by (simp add: row'_def cellOf_def)
      next
        case ext: False
        define k where "k = nat x - length ?row"
        from ext have len: "length ?row + k = nat x" by (simp add: k_def)
        from ext have r': "row' = ?row @ replicate k None @ [v]" by (simp add: row'_def k_def)
        have lr: "length row' = Suc (nat x)" using len by (simp add: r')
        consider (old) "nat x' < length ?row"
          | (hole) "length ?row \<le> nat x'" "nat x' < nat x"
          | (past) "nat x < nat x'"
          using ne by linarith
        then have "cellOf row' x' = cellOf ?row x'"
        proof cases
          case old
          with \<open>0 \<le> x'\<close> lr len show ?thesis
            by (simp add: cellOf_def r' nth_append)
        next
          case hole
          then have "nat x' - length ?row < k" using len by linarith
          with hole \<open>0 \<le> x'\<close> lr show ?thesis
            by (simp add: cellOf_def r' nth_append)
        next
          case past
          then have "\<not> nat x' < length row'" "\<not> nat x' < length ?row"
            using lr len by linarith+
          then show ?thesis by (simp add: cellOf_def)
        qed
        with \<open>x' \<noteq> x\<close> show ?thesis by simp
      qed
    next
      case False
      then show ?thesis using \<open>x' \<noteq> x\<close> by (simp add: cellOf_def)
    qed
  qed
  show ?thesis
  proof (cases "y' = y")
    case True
    with y c show ?thesis by (simp add: cellSafe_def rowAt_def b')
  next
    case False
    show ?thesis
    proof (cases "0 \<le> y'")
      case True
      with False y have "nat y' \<noteq> nat y" by simp
      with False show ?thesis by (simp add: cellSafe_def rowAt_def b')
    next
      case n: False
      with False show ?thesis by (simp add: cellSafe_def rowAt_def b')
    qed
  qed
qed

lemma handleCapture_cells:
  assumes "handleCapture b caps cm fx fy tx ty = Inr (b3, caps3, info)"
  shows "cellSafe b3 x' y' = None \<or> cellSafe b3 x' y' = cellSafe b x' y'"
proof (cases "captureSquare cm fx fy tx ty")
  case None
  with assms show ?thesis by (simp add: handleCapture_def)
next
  case (Some cs)
  obtain cx cy where cs: "cs = (cx, cy)" by (cases cs)
  show ?thesis
  proof (cases "isInBounds cx cy")
    case False
    with assms Some cs show ?thesis by (simp add: handleCapture_def)
  next
    case True
    from assms Some cs True obtain v where v: "cellAt b cx cy = Inr v"
      by (cases "cellAt b cx cy") (simp_all add: handleCapture_def)
    show ?thesis
    proof (cases v)
      case None
      with assms Some cs True v show ?thesis by (simp add: handleCapture_def)
    next
      case (Some q)
      with assms \<open>captureSquare cm fx fy tx ty = Some cs\<close> cs True v
      have b3: "b3 = setCell b cx cy None" by (simp add: handleCapture_def)
      from v Some have "inRange b cx cy"
        using cellSafe_Some_inRange[OF cellAt_Some] by simp
      from cellSafe_setCell_inRange[OF this, of None x' y'] b3 show ?thesis by simp
    qed
  qed
qed

lemma handleCapture_other:
  assumes "handleCapture b caps cm fx fy tx ty = Inr (b3, caps3, info)"
    and "captureSquare cm fx fy tx ty \<noteq> Some (x', y')"
  shows "cellSafe b3 x' y' = cellSafe b x' y'"
proof (cases "captureSquare cm fx fy tx ty")
  case None
  with assms show ?thesis by (simp add: handleCapture_def)
next
  case (Some cs)
  obtain cx cy where cs: "cs = (cx, cy)" by (cases cs)
  show ?thesis
  proof (cases "isInBounds cx cy")
    case False
    with assms Some cs show ?thesis by (simp add: handleCapture_def)
  next
    case True
    from assms Some cs True obtain v where v: "cellAt b cx cy = Inr v"
      by (cases "cellAt b cx cy") (simp_all add: handleCapture_def)
    show ?thesis
    proof (cases v)
      case None
      with assms Some cs True v show ?thesis by (simp add: handleCapture_def)
    next
      case (Some q)
      with assms \<open>captureSquare cm fx fy tx ty = Some cs\<close> cs True v
      have b3: "b3 = setCell b cx cy None" by (simp add: handleCapture_def)
      from v Some have "inRange b cx cy"
        using cellSafe_Some_inRange[OF cellAt_Some] by simp
      from cellSafe_setCell_inRange[OF this, of None x' y'] b3 assms(2)
        \<open>captureSquare cm fx fy tx ty = Some cs\<close> cs
      show ?thesis by auto
    qed
  qed
qed

lemma executeMove_dest:
  assumes "executeMove g (fx, fy, p) cm tx ty = Inr (g1, j, pr, pd)"
  shows "cellSafe (board g1) tx ty = pd"
    and "pd = None \<or> pd = Some (if pr then p\<lparr>isKing := True\<rparr> else p)"
    and "pr \<longleftrightarrow> (\<not> isKing p \<and> pd \<noteq> None \<and> shouldPromote (color p) ty)"
    and "multiJumpPiece g1 = (if pr then None else multiJumpPiece g)"
    and "currentPlayer g1 = currentPlayer g"
    and "(fx, fy) \<noteq> (tx, ty) \<Longrightarrow>
         (length cm > 2 \<Longrightarrow> captureSquare cm fx fy tx ty \<noteq> Some (tx, ty)) \<Longrightarrow> pd \<noteq> None"
proof -
  from assms obtain b1 where b1: "writeCell (board g) tx ty (Some p) = Inr b1"
    by (cases "writeCell (board g) tx ty (Some p)") (simp_all add: executeMove_def Let_def)
  from assms b1 obtain b2 where b2: "writeCell b1 fx fy None = Inr b2"
    by (cases "writeCell b1 fx fy None") (simp_all add: executeMove_def Let_def)
  define cap where "cap = (if length cm > 2
                then handleCapture b2 (capturedPieces g) cm fx fy tx ty
                else Inr (b2, capturedPieces g, []))"
  from assms b1 b2 obtain b3 caps3 info where c3: "cap = Inr (b3, caps3, info)"
    by (cases cap) (auto simp: executeMove_def Let_def cap_def)
  from assms b1 b2 c3 obtain pd0 where pd0: "cellAt b3 tx ty = Inr pd0"
    by (cases "cellAt b3 tx ty") (simp_all add: executeMove_def Let_def cap_def)
  define prom where "prom = (\<not> isKing p \<and> (case pd0 of None \<Rightarrow> False
                                | Some q \<Rightarrow> shouldPromote (color q) ty))"
  define pdf where "pdf = (if prom then map_option (\<lambda>q. q\<lparr>isKing := True\<rparr>) pd0 else pd0)"
  define b4 where "b4 = (if prom then setCell b3 tx ty pdf else b3)"
  from assms b1 b2 c3 pd0 have r: "pr = prom" "pd = pdf" "board g1 = b4"
    "multiJumpPiece g1 = (if prom then None else multiJumpPiece g)"
    "currentPlayer g1 = currentPlayer g"
    by (auto simp: executeMove_def Let_def cap_def prom_def pdf_def b4_def)
  have c2: "cellSafe b2 tx ty = (if tx = fx \<and> ty = fy then None else Some p)"
    using cellSafe_writeCell[OF b2, of tx ty] cellSafe_writeCell[OF b1, of tx ty] by simp
  have "cellSafe b3 tx ty = None \<or> cellSafe b3 tx ty = cellSafe b2 tx ty"
  proof (cases "length cm > 2")
    case True
    with c3 have "handleCapture b2 (capturedPieces g) cm fx fy tx ty = Inr (b3, caps3, info)"
      by (simp add: cap_def)
    from handleCapture_cells[OF this] show ?thesis .
  next
    case False
    with c3 show ?thesis by (simp add: cap_def)
  qed
  with c2 cellAt_Inr[OF pd0] have d0: "pd0 = None \<or> pd0 = Some p" by (auto split: if_splits)
  show "pd = None \<or> pd = Some (if pr then p\<lparr>isKing := True\<rparr> else p)"
    using d0 by (auto simp: r pdf_def)
  show "pr \<longleftrightarrow> (\<not> isKing p \<and> pd \<noteq> None \<and> shouldPromote (color p) ty)"
    using d0 by (auto simp: r pdf_def prom_def)
  show "multiJumpPiece g1 = (if pr then None else multiJumpPiece g)" by (simp add: r)
  show "currentPlayer g1 = currentPlayer g" by (simp add: r)
  show "pd \<noteq> None"
    if ne: "(fx, fy) \<noteq> (tx, ty)"
      and cs: "length cm > 2 \<Longrightarrow> captureSquare cm fx fy tx ty \<noteq> Some (tx, ty)"
  proof -
    from c2 ne have s2: "cellSafe b2 tx ty = Some p" by auto
    have "cellSafe b3 tx ty = cellSafe b2 tx ty"
    proof (cases "length cm > 2")
      case True
      with c3 have "handleCapture b2 (capturedPieces g) cm fx fy tx ty = Inr (b3, caps3, info)"
        by (simp add: cap_def)
      from handleCapture_other[OF this cs[OF True]] show ?thesis .
    next
      case False
      with c3 show ?thesis by (simp add: cap_def)
    qed
    with s2 cellAt_Inr[OF pd0] have "pd0 = Some p" by simp
    then show ?thesis by (simp add: r pdf_def)
  qed
  show "cellSafe (board g1) tx ty = pd"
  proof (cases prom)
    case False
    with cellAt_Inr[OF pd0] show ?thesis by (simp add: r b4_def pdf_def)
  next
    case True
    then obtain q where "pd0 = Some q" by (cases pd0) (simp_all add: prom_def)
    with pd0 have "inRange b3 tx ty" using cellSafe_Some_inRange[OF cellAt_Some] by simp
    from cellSafe_setCell_inRange[OF this, of pdf tx ty] True show ?thesis
      by (simp add: r b4_def)
  qed
qed

section \<open>Multi-jump continuation (claim C2)\<close>

text \<open>
  Claim C2. In the search: when the board copies, the moved piece is found and the
  move is simulated, \<open>searchMove\<close> returns what \<open>minimax\<close> returns on the simulated
  board with the new hash; if the move is a jump, the piece on the landing square did
  not promote and has a further single jump, the call keeps the depth, the colour and
  the maximizing flag (and flags a continuation), and in every other case the depth
  is one less, the maximizing flag is negated and the colour is the opponent's. In
  the controller: when \<open>movePiece\<close> applies a move, the move applied is the first
  entry of \<open>validMoves\<close> that ends on the destination, and it was a jump iff that
  entry has more than two numbers; the piece found on the destination afterwards has
  promoted iff the moved piece was a man and the destination is its promotion row.
  If the move was a jump, the piece did not promote and it has a further single jump
  on the new board, \<open>currentPlayer\<close> is unchanged and \<open>validMoves\<close> are the single
  jumps of the landed piece, which stays selected as the multi-jump piece; in every
  other case the turn passes to the opponent and the selection is cleared.
\<close>

theorem multi_jump_continuation:
  "(copyBoardAI b = Inr c0 \<and> cellAt b (fromX m) (fromY m) = Inr (Some pb) \<and>
    simulateMove z c0 m h = Inr (c, nh) \<and> cellAt c (toX m) (toY m) = Inr pa \<longrightarrow>
    searchMove z mm b m depth al be isMax colr ic h =
      (if jumpContinues c (isJump m)
            (case pa of None \<Rightarrow> False
             | Some q \<Rightarrow> \<not> isKing pb \<and> shouldPromote (color q) (toY m))
            (toX m) (toY m) pa
       then mm c depth al be isMax colr True nh
       else mm c (depth - 1) al be (\<not> isMax) (opponentOf colr) False nh)) \<and>
   (movePiece g tx ty = Inr (True, g') \<longrightarrow>
    (\<exists>sel cm g1 pr pd.
        selectedPiece g = Some sel \<and>
        find (\<lambda>m. length m \<ge> 2 \<and> m ! 0 = tx \<and> m ! 1 = ty) (validMoves g) = Some cm \<and>
        executeMove g sel cm tx ty = Inr (g1, length cm > 2, pr, pd) \<and>
        pd = cellSafe (board g') tx ty \<and>
        (pr \<longleftrightarrow> \<not> isKing (snd (snd sel)) \<and> pd \<noteq> None \<and>
                shouldPromote (color (snd (snd sel))) ty) \<and>
        currentPlayer g1 = currentPlayer g \<and> board g' = board g1 \<and>
        (if jumpContinues (board g1) (length cm > 2) pr tx ty pd
         then currentPlayer g' = currentPlayer g \<and>
              (\<exists>q. pd = Some q \<and> validMoves g' = findSingleJumps (board g') (tx, ty) q \<and>
                   multiJumpPiece g' = Some (tx, ty, q) \<and> selectedPiece g' = Some (tx, ty, q))
         else currentPlayer g' = opponentOf (currentPlayer g) \<and> validMoves g' = [] \<and>
              multiJumpPiece g' = None \<and> selectedPiece g' = None)))"
proof (intro conjI impI)
  assume "copyBoardAI b = Inr c0 \<and> cellAt b (fromX m) (fromY m) = Inr (Some pb) \<and>
    simulateMove z c0 m h = Inr (c, nh) \<and> cellAt c (toX m) (toY m) = Inr pa"
  then show "searchMove z mm b m depth al be isMax colr ic h =
      (if jumpContinues c (isJump m)
            (case pa of None \<Rightarrow> False
             | Some q \<Rightarrow> \<not> isKing pb \<and> shouldPromote (color q) (toY m))
            (toX m) (toY m) pa
       then mm c depth al be isMax colr True nh
       else mm c (depth - 1) al be (\<not> isMax) (opponentOf colr) False nh)"
    using searchMove_next[of b c0 m pb z h c nh pa] by blast
next
  assume "movePiece g tx ty = Inr (True, g')"
  from movePiece_applied[OF this] obtain sel cm g1 j pr pd where
    s: "selectedPiece g = Some sel"
    and fd: "find (\<lambda>m. length m \<ge> 2 \<and> m ! 0 = tx \<and> m ! 1 = ty) (validMoves g) = Some cm"
    and e: "executeMove g sel cm tx ty = Inr (g1, j, pr, pd)"
    and f: "finishTurn g1 tx ty j pr pd = Inr g'" by blast
  obtain fx fy p where sel: "sel = (fx, fy, p)" by (cases sel)
  note d = executeMove_dest[OF e[unfolded sel]]
  from executeMove_player[OF e] have p: "currentPlayer g1 = currentPlayer g" and j: "j = (length cm > 2)"
    by simp_all
  from finishTurn_spec[OF f] have b: "board g' = board g1"
    and t: "if jumpContinues (board g1) j pr tx ty pd
      then currentPlayer g' = currentPlayer g1 \<and>
           (\<exists>q. pd = Some q \<and> validMoves g' = findSingleJumps (board g1) (tx, ty) q \<and>
                multiJumpPiece g' = Some (tx, ty, q) \<and> selectedPiece g' = Some (tx, ty, q))
      else currentPlayer g' = opponentOf (currentPlayer g1) \<and> validMoves g' = [] \<and>
           multiJumpPiece g' = None \<and> selectedPiece g' = None" by simp_all
  have pdv: "pd = cellSafe (board g') tx ty" using d(1) b by simp
  have prv: "pr \<longleftrightarrow> \<not> isKing (snd (snd sel)) \<and> pd \<noteq> None \<and>
                shouldPromote (color (snd (snd sel))) ty"
    using d(3) by (simp add: sel)
  have "if jumpContinues (board g1) (length cm > 2) pr tx ty pd
         then currentPlayer g' = currentPlayer g \<and>
              (\<exists>q. pd = Some q \<and> validMoves g' = findSingleJumps (board g') (tx, ty) q \<and>
                   multiJumpPiece g' = Some (tx, ty, q) \<and> selectedPiece g' = Some (tx, ty, q))
         else currentPlayer g' = opponentOf (currentPlayer g) \<and> validMoves g' = [] \<and>
              multiJumpPiece g' = None \<and> selectedPiece g' = None"
    using t unfolding j p b by simp
  with s fd e p b j pdv prv show "\<exists>sel cm g1 pr pd.
        selectedPiece g = Some sel \<and>
        find (\<lambda>m. length m \<ge> 2 \<and> m ! 0 = tx \<and> m ! 1 = ty) (validMoves g) = Some cm \<and>
        executeMove g sel cm tx ty = Inr (g1, length cm > 2, pr, pd) \<and>
        pd = cellSafe (board g') tx ty \<and>
        (pr \<longleftrightarrow> \<not> isKing (snd (snd sel)) \<and> pd \<noteq> None \<and>
                shouldPromote (color (snd (snd sel))) ty) \<and>
        currentPlayer g1 = currentPlayer g \<and> board g' = board g1 \<and>
        (if jumpContinues (board g1) (length cm > 2) pr tx ty pd
         then currentPlayer g' = currentPlayer g \<and>
              (\<exists>q. pd = Some q \<and> validMoves g' = findSingleJumps (board g') (tx, ty) q \<and>
                   multiJumpPiece g' = Some (tx, ty, q) \<and> selectedPiece g' = Some (tx, ty, q))
         else currentPlayer g' = opponentOf (currentPlayer g) \<and> validMoves g' = [] \<and>
              multiJumpPiece g' = None \<and> selectedPiece g' = None)" by blast
qed

text \<open>
  An instance: a red man on (2,5) jumps the yellow man on (3,4), lands on (4,3) and
  can go on over (5,2) to (6,1).
\<close>

definition jumpBoard :: board where
  "jumpBoard = place [(2, 5, man Red), (3, 4, man Yellow), (5, 2, man Yellow)] emptyBoard"

definition jumpGame :: game where
  "jumpGame = \<lparr>board = jumpBoard, currentPlayer = Red, capturedPieces = (\<lambda>c. []),
                gameState = Active, moveHistory = [],
                selectedPiece = Some (2, 5, man Red), validMoves = [[4, 3, 3, 4]],
                multiJumpPiece = None, mustJump = True, canOnlySelectJumpingPieces = True\<rparr>"

definition exampleKeys :: zobrist where
  "exampleKeys = \<lparr>zobristTable = (\<lambda>i sq. word_of_nat (i * 64 + sq + 1)), zobristTurn = 2147483648\<rparr>"

definition firstJump :: aimove where
  "firstJump = \<lparr>fromX = 2, fromY = 5, toX = 4, toY = 3, isJump = True,
                 captureX = Some 3, captureY = Some 4\<rparr>"

definition probe :: "board \<Rightarrow> int \<Rightarrow> score \<Rightarrow> score \<Rightarrow> bool \<Rightarrow> color \<Rightarrow> bool \<Rightarrow> 32 word \<Rightarrow> error + score" where
  "probe bd d al be mx c ct hh =
     Inr (if ct \<and> mx \<and> c = Red \<and> d = 3 then PlusInfinity else MinusInfinity)"

lemma Inr_projr: "(case s of Inl e \<Rightarrow> False | Inr v \<Rightarrow> True) \<Longrightarrow> s = Inr (projr s)"
  by (cases s) simp_all

text \<open>
  A second instance, where the turn passes although the landed piece has a jump: the
  red man steps from (2,5) to (3,4) beside the yellow man on (4,3). The move was not
  a jump, so Yellow is to move.
\<close>

definition stepBoard :: board where
  "stepBoard = place [(2, 5, man Red), (4, 3, man Yellow)] emptyBoard"

definition stepGame :: game where
  "stepGame = \<lparr>board = stepBoard, currentPlayer = Red, capturedPieces = (\<lambda>c. []),
                gameState = Active, moveHistory = [],
                selectedPiece = Some (2, 5, man Red), validMoves = [[1, 4], [3, 4]],
                multiJumpPiece = None, mustJump = False, canOnlySelectJumpingPieces = False\<rparr>"

theorem multi_jump_continuation_witness:
  "searchMove exampleKeys probe jumpBoard firstJump 3 MinusInfinity PlusInfinity True Red False 0
     = Inr PlusInfinity \<and>
   (\<exists>g'. movePiece jumpGame 4 3 = Inr (True, g') \<and>
         find (\<lambda>m. length m \<ge> 2 \<and> m ! 0 = 4 \<and> m ! 1 = 3) (validMoves jumpGame) = Some [4, 3, 3, 4] \<and>
         cellSafe (board g') 4 3 = Some (man Red) \<and>
         jumpContinues (board g') True False 4 3 (Some (man Red)) \<and>
         currentPlayer g' = currentPlayer jumpGame \<and>
         validMoves g' = [[6, 1, 5, 2]] \<and>
         multiJumpPiece g' = Some (4, 3, man Red) \<and>
         selectedPiece g' = Some (4, 3, man Red)) \<and>
   (\<exists>g'. movePiece stepGame 3 4 = Inr (True, g') \<and>
         find (\<lambda>m. length m \<ge> 2 \<and> m ! 0 = 3 \<and> m ! 1 = 4) (validMoves stepGame) = Some [3, 4] \<and>
         cellSafe (board g') 3 4 = Some (man Red) \<and>
         findSingleJumps (board g') (3, 4) (man Red) = [[5, 2, 4, 3]] \<and>
         currentPlayer g' = opponentOf (currentPlayer stepGame) \<and>
         validMoves g' = [] \<and> multiJumpPiece g' = None \<and> selectedPiece g' = None)"
proof -
  let ?c0 = "projr (copyBoardAI jumpBoard)"
  let ?r = "projr (simulateMove exampleKeys ?c0 firstJump 0)"
  have h1: "copyBoardAI jumpBoard = Inr ?c0" by (rule Inr_projr) code_simp
  have h2: "cellAt jumpBoard (fromX firstJump) (fromY firstJump) = Inr (Some (man Red))"
    by code_simp
  have "simulateMove exampleKeys ?c0 firstJump 0 = Inr ?r" by (rule Inr_projr) code_simp
  then have h3: "simulateMove exampleKeys ?c0 firstJump 0 = Inr (fst ?r, snd ?r)" by simp
  have h4: "cellAt (fst ?r) (toX firstJump) (toY firstJump) = Inr (Some (man Red))"
    by code_simp
  have k: "jumpContinues (fst ?r) (isJump firstJump)
            (case Some (man Red) of None \<Rightarrow> False
             | Some q \<Rightarrow> \<not> isKing (man Red) \<and> shouldPromote (color q) (toY firstJump))
            (toX firstJump) (toY firstJump) (Some (man Red))"
    by code_simp
  from multi_jump_continuation[THEN conjunct1, rule_format, OF conjI[OF h1 conjI[OF h2 conjI[OF h3 h4]]],
      of probe 3 MinusInfinity PlusInfinity True Red False] k
  have a: "searchMove exampleKeys probe jumpBoard firstJump 3 MinusInfinity PlusInfinity True Red False 0
     = Inr PlusInfinity"
    by (simp add: probe_def)
  have "map_sum id (\<lambda>(ok, g'). (ok, cellSafe (board g') 4 3,
                                 findSingleJumps (board g') (4, 3) (man Red)))
          (movePiece jumpGame 4 3)
        = Inr (True, Some (man Red), [[6, 1, 5, 2]])"
    by code_simp
  then obtain g' where m: "movePiece jumpGame 4 3 = Inr (True, g')"
    and c: "cellSafe (board g') 4 3 = Some (man Red)"
    and fj: "findSingleJumps (board g') (4, 3) (man Red) = [[6, 1, 5, 2]]"
    by (cases "movePiece jumpGame 4 3") auto
  have fd: "find (\<lambda>m. length m \<ge> 2 \<and> m ! 0 = 4 \<and> m ! 1 = 3) (validMoves jumpGame) = Some [4, 3, 3, 4]"
    by (simp add: jumpGame_def)
  have sl: "selectedPiece jumpGame = Some (2, 5, man Red)" by (simp add: jumpGame_def)
  have np: "\<not> shouldPromote (color (man Red)) 3" by code_simp
  have jc: "jumpContinues (board g') True False 4 3 (Some (man Red))"
    by (simp add: jumpContinues_def fj)
  have r1: "currentPlayer g' = currentPlayer jumpGame \<and> validMoves g' = [[6, 1, 5, 2]] \<and>
            multiJumpPiece g' = Some (4, 3, man Red) \<and> selectedPiece g' = Some (4, 3, man Red)"
    using multi_jump_continuation[THEN conjunct2, rule_format, OF m] sl fd c np fj
    by (elim exE conjE) (clarsimp simp: jumpContinues_def)
  have "map_sum id (\<lambda>(ok, g'). (ok, cellSafe (board g') 3 4,
                                 findSingleJumps (board g') (3, 4) (man Red)))
          (movePiece stepGame 3 4)
        = Inr (True, Some (man Red), [[5, 2, 4, 3]])"
    by code_simp
  then obtain g2 where m2: "movePiece stepGame 3 4 = Inr (True, g2)"
    and c2: "cellSafe (board g2) 3 4 = Some (man Red)"
    and fj2: "findSingleJumps (board g2) (3, 4) (man Red) = [[5, 2, 4, 3]]"
    by (cases "movePiece stepGame 3 4") auto
  have fd2: "find (\<lambda>m. length m \<ge> 2 \<and> m ! 0 = 3 \<and> m ! 1 = 4) (validMoves stepGame) = Some [3, 4]"
    by (simp add: stepGame_def)
  have r2: "currentPlayer g2 = opponentOf (currentPlayer stepGame) \<and> validMoves g2 = [] \<and>
              multiJumpPiece g2 = None \<and> selectedPiece g2 = None"
    using multi_jump_continuation[THEN conjunct2, rule_format, OF m2] fd2
    by (elim exE conjE) (clarsimp simp: jumpContinues_def)
  have e1: "\<exists>g'. movePiece jumpGame 4 3 = Inr (True, g') \<and>
         find (\<lambda>m. length m \<ge> 2 \<and> m ! 0 = 4 \<and> m ! 1 = 3) (validMoves jumpGame) = Some [4, 3, 3, 4] \<and>
         cellSafe (board g') 4 3 = Some (man Red) \<and>
         jumpContinues (board g') True False 4 3 (Some (man Red)) \<and>
         currentPlayer g' = currentPlayer jumpGame \<and>
         validMoves g' = [[6, 1, 5, 2]] \<and>
         multiJumpPiece g' = Some (4, 3, man Red) \<and>
         selectedPiece g' = Some (4, 3, man Red)"
    using m fd c jc r1 by (intro exI[of _ g']) simp
  have e2: "\<exists>g'. movePiece stepGame 3 4 = Inr (True, g') \<and>
         find (\<lambda>m. length m \<ge> 2 \<and> m ! 0 = 3 \<and> m ! 1 = 4) (validMoves stepGame) = Some [3, 4] \<and>
         cellSafe (board g') 3 4 = Some (man Red) \<and>
         findSingleJumps (board g') (3, 4) (man Red) = [[5, 2, 4, 3]] \<and>
         currentPlayer g' = opponentOf (currentPlayer stepGame) \<and>
         validMoves g' = [] \<and> multiJumpPiece g' = None \<and> selectedPiece g' = None"
    using m2 fd2 c2 fj2 r2 by (intro exI[of _ g2]) simp
  from a e1 e2 show ?thesis by (intro conjI)

qed

section \<open>Promotion ends a jump chain (claim C3)\<close>

lemma jumpSeq_promotes_last:
  "jumpSeq b pos p s \<Longrightarrow> Suc i < length s \<Longrightarrow> \<not> promotes p (s ! i)"
proof (induction arbitrary: i rule: jumpSeq.induct)
  case (promoted j b pos p)
  then show ?case by simp
next
  case (stuck j b pos p)
  then show ?case by simp
next
  case (further j b pos p js)
  show ?case
  proof (cases i)
    case 0
    with further(2) show ?thesis by simp
  next
    case (Suc k)
    with further.prems have "Suc k < length js" by simp
    from further.IH[OF this] Suc show ?thesis by simp
  qed
qed

text \<open>
  Claim C3. In \<open>getJumpMoves\<close>, for the piece that stands on the square: the paths
  found are collected hop by hop, and a hop that lands a man on its promotion row
  contributes the path ending with that hop and nothing else (\<open>findPaths\<close> is not
  called from the landing square); so every single jump that promotes is itself a
  complete path, whatever jumps exist from its landing square, and in every path
  found no hop before the last one promotes. In \<open>movePiece\<close>: when a man is moved
  to its promotion row the turn passes to the opponent and the multi-jump piece, the
  selection and the valid moves are cleared, whatever jumps exist from the
  destination; and when the move leaves its square and does not capture on its own
  destination, the piece on the destination afterwards is the moved piece, as a king
  iff it was one or the destination is the promotion row of its colour.
\<close>

theorem promotion_ends_chain:
  "(isInBounds (fst pos) (snd pos) \<and> cellSafe b (fst pos) (snd pos) = Some p \<and>
    findSingleJumps b pos p \<noteq> [] \<longrightarrow>
    findPaths b pos p path =
      collectE (\<lambda>j. if promotes p j then Inr [j @ path]
                     else findPaths (hop b pos j) (landing j) p (j @ path))
        (findSingleJumps b pos p)) \<and>
   (isInBounds (fst pos) (snd pos) \<and> cellSafe b (fst pos) (snd pos) = Some p \<longrightarrow>
    (\<exists>ps. findPaths b pos p [] = Inr ps \<and>
       (\<forall>j \<in> set (findSingleJumps b pos p). promotes p j \<longrightarrow> j \<in> set ps) \<and>
       (\<forall>found \<in> set ps. \<exists>s. found = flatPath s \<and> jumpSeq b pos p s \<and>
           (\<forall>j \<in> set s. length j = 4) \<and>
           (\<forall>i. Suc i < length s \<longrightarrow> \<not> promotes p (s ! i))))) \<and>
   (movePiece g tx ty = Inr (True, g') \<and> selectedPiece g = Some (fx, fy, p') \<longrightarrow>
    (\<not> isKing p' \<and> shouldPromote (color p') ty \<longrightarrow>
       currentPlayer g' = opponentOf (currentPlayer g) \<and> multiJumpPiece g' = None \<and>
       selectedPiece g' = None \<and> validMoves g' = []) \<and>
    ((fx, fy) \<noteq> (tx, ty) \<and>
     (\<forall>cm. find (\<lambda>m. length m \<ge> 2 \<and> m ! 0 = tx \<and> m ! 1 = ty) (validMoves g) = Some cm \<and>
           length cm > 2 \<longrightarrow> captureSquare cm fx fy tx ty \<noteq> Some (tx, ty)) \<longrightarrow>
       cellSafe (board g') tx ty =
         Some (if \<not> isKing p' \<and> shouldPromote (color p') ty
               then p'\<lparr>isKing := True\<rparr> else p')))"
proof (intro conjI)
  show "isInBounds (fst pos) (snd pos) \<and> cellSafe b (fst pos) (snd pos) = Some p \<and>
    findSingleJumps b pos p \<noteq> [] \<longrightarrow>
    findPaths b pos p path =
      collectE (\<lambda>j. if promotes p j then Inr [j @ path]
                     else findPaths (hop b pos j) (landing j) p (j @ path))
        (findSingleJumps b pos p)"
    using findPaths_unfold[of pos b p path] by blast
next
  show "isInBounds (fst pos) (snd pos) \<and> cellSafe b (fst pos) (snd pos) = Some p \<longrightarrow>
    (\<exists>ps. findPaths b pos p [] = Inr ps \<and>
       (\<forall>j \<in> set (findSingleJumps b pos p). promotes p j \<longrightarrow> j \<in> set ps) \<and>
       (\<forall>found \<in> set ps. \<exists>s. found = flatPath s \<and> jumpSeq b pos p s \<and>
           (\<forall>j \<in> set s. length j = 4) \<and>
           (\<forall>i. Suc i < length s \<longrightarrow> \<not> promotes p (s ! i))))"
  proof
    assume a: "isInBounds (fst pos) (snd pos) \<and> cellSafe b (fst pos) (snd pos) = Some p"
    then have ib: "isInBounds (fst pos) (snd pos)" and at: "cellSafe b (fst pos) (snd pos) = Some p"
      by simp_all
    from findPaths_paths[OF ib at, of "[]"] obtain ps where
      ps: "findPaths b pos p [] = Inr ps" and sp: "set ps = pathsOf b pos p []" by blast
    have one: "j \<in> set ps" if j: "j \<in> set (findSingleJumps b pos p)" and pr: "promotes p j" for j
    proof -
      from j pr have "jumpSeq b pos p [j]" by (rule jumpSeq.promoted)
      moreover from j have "findSingleJumps b pos p \<noteq> []" by auto
      ultimately have "flatPath [j] @ [] \<in> pathsOf b pos p []"
        unfolding pathsOf_def by auto
      then show ?thesis by (simp add: sp flatPath_def)
    qed
    have two: "\<exists>s. found = flatPath s \<and> jumpSeq b pos p s \<and>
           (\<forall>j \<in> set s. length j = 4) \<and>
           (\<forall>i. Suc i < length s \<longrightarrow> \<not> promotes p (s ! i))" if f: "found \<in> set ps" for found
    proof -
      from f sp have "found \<in> pathsOf b pos p []" by simp
      then obtain s where s: "jumpSeq b pos p s" and e: "found = flatPath s"
        by (auto simp: pathsOf_def split: if_splits)
      from jumpSeq_hops[OF s] jumpSeq_promotes_last[OF s] s e show ?thesis by blast
    qed
    from ps one two show "\<exists>ps. findPaths b pos p [] = Inr ps \<and>
       (\<forall>j \<in> set (findSingleJumps b pos p). promotes p j \<longrightarrow> j \<in> set ps) \<and>
       (\<forall>found \<in> set ps. \<exists>s. found = flatPath s \<and> jumpSeq b pos p s \<and>
           (\<forall>j \<in> set s. length j = 4) \<and>
           (\<forall>i. Suc i < length s \<longrightarrow> \<not> promotes p (s ! i)))" by blast
  qed
next
  show "movePiece g tx ty = Inr (True, g') \<and> selectedPiece g = Some (fx, fy, p') \<longrightarrow>
    (\<not> isKing p' \<and> shouldPromote (color p') ty \<longrightarrow>
       currentPlayer g' = opponentOf (currentPlayer g) \<and> multiJumpPiece g' = None \<and>
       selectedPiece g' = None \<and> validMoves g' = []) \<and>
    ((fx, fy) \<noteq> (tx, ty) \<and>
     (\<forall>cm. find (\<lambda>m. length m \<ge> 2 \<and> m ! 0 = tx \<and> m ! 1 = ty) (validMoves g) = Some cm \<and>
           length cm > 2 \<longrightarrow> captureSquare cm fx fy tx ty \<noteq> Some (tx, ty)) \<longrightarrow>
       cellSafe (board g') tx ty =
         Some (if \<not> isKing p' \<and> shouldPromote (color p') ty
               then p'\<lparr>isKing := True\<rparr> else p'))"
  proof
    assume a: "movePiece g tx ty = Inr (True, g') \<and> selectedPiece g = Some (fx, fy, p')"
    from movePiece_applied[of g tx ty g'] a obtain cm g1 j pr pd where
      fd: "find (\<lambda>m. length m \<ge> 2 \<and> m ! 0 = tx \<and> m ! 1 = ty) (validMoves g) = Some cm"
      and e: "executeMove g (fx, fy, p') cm tx ty = Inr (g1, j, pr, pd)"
      and f: "finishTurn g1 tx ty j pr pd = Inr g'" by auto
    note d = executeMove_dest[OF e]
    note t = finishTurn_spec[OF f]
    from t have bg: "board g' = board g1" by simp
    have en: "currentPlayer g' = opponentOf (currentPlayer g) \<and> multiJumpPiece g' = None \<and>
         selectedPiece g' = None \<and> validMoves g' = []"
      if m: "\<not> isKing p' \<and> shouldPromote (color p') ty"
    proof -
      have "\<not> jumpContinues (board g1) j pr tx ty pd"
      proof (cases pd)
        case None
        then show ?thesis by (simp add: jumpContinues_def)
      next
        case (Some q)
        with d(3) m have "pr" by simp
        then show ?thesis by (simp add: jumpContinues_def)
      qed
      with t d(5) show ?thesis by simp
    qed
    have st: "cellSafe (board g') tx ty =
         Some (if \<not> isKing p' \<and> shouldPromote (color p') ty
               then p'\<lparr>isKing := True\<rparr> else p')"
      if h: "(fx, fy) \<noteq> (tx, ty) \<and>
     (\<forall>cm. find (\<lambda>m. length m \<ge> 2 \<and> m ! 0 = tx \<and> m ! 1 = ty) (validMoves g) = Some cm \<and>
           length cm > 2 \<longrightarrow> captureSquare cm fx fy tx ty \<noteq> Some (tx, ty))"
    proof -
      from h fd have c: "length cm > 2 \<Longrightarrow> captureSquare cm fx fy tx ty \<noteq> Some (tx, ty)"
        by blast
      from h have ne: "(fx, fy) \<noteq> (tx, ty)" by simp
      from d(6)[OF ne c] have nn: "pd \<noteq> None" by simp
      with d(3) have pr: "pr \<longleftrightarrow> \<not> isKing p' \<and> shouldPromote (color p') ty" by simp
      from nn d(2) have "pd = Some (if pr then p'\<lparr>isKing := True\<rparr> else p')" by auto
      with d(1) bg pr show ?thesis by simp
    qed
    from en st show "(\<not> isKing p' \<and> shouldPromote (color p') ty \<longrightarrow>
       currentPlayer g' = opponentOf (currentPlayer g) \<and> multiJumpPiece g' = None \<and>
       selectedPiece g' = None \<and> validMoves g' = []) \<and>
    ((fx, fy) \<noteq> (tx, ty) \<and>
     (\<forall>cm. find (\<lambda>m. length m \<ge> 2 \<and> m ! 0 = tx \<and> m ! 1 = ty) (validMoves g) = Some cm \<and>
           length cm > 2 \<longrightarrow> captureSquare cm fx fy tx ty \<noteq> Some (tx, ty)) \<longrightarrow>
       cellSafe (board g') tx ty =
         Some (if \<not> isKing p' \<and> shouldPromote (color p') ty
               then p'\<lparr>isKing := True\<rparr> else p'))" by blast
  qed
qed


text \<open>
  An instance: a red man on (1,2) jumps the yellow man on (2,1) and lands on (3,0),
  its promotion row; from there the yellow man on (4,1) could be jumped, yet the path
  ends and the turn passes.
\<close>

definition promotionBoard :: board where
  "promotionBoard = place [(1, 2, man Red), (2, 1, man Yellow), (4, 1, man Yellow)] emptyBoard"

definition promotionGame :: game where
  "promotionGame = \<lparr>board = promotionBoard, currentPlayer = Red, capturedPieces = (\<lambda>c. []),
                gameState = Active, moveHistory = [],
                selectedPiece = Some (1, 2, man Red), validMoves = [[3, 0, 2, 1]],
                multiJumpPiece = None, mustJump = True, canOnlySelectJumpingPieces = True\<rparr>"

theorem promotion_ends_chain_witness:
  "findSingleJumps promotionBoard (1, 2) (man Red) = [[3, 0, 2, 1]] \<and>
   promotes (man Red) [3, 0, 2, 1] \<and>
   findSingleJumps (hop promotionBoard (1, 2) [3, 0, 2, 1]) (3, 0) (man Red) \<noteq> [] \<and>
   findSingleJumps (hop promotionBoard (1, 2) [3, 0, 2, 1]) (3, 0) (king Red) \<noteq> [] \<and>
   findPaths promotionBoard (1, 2) (man Red) [] = Inr [[3, 0, 2, 1]] \<and>
   (\<exists>ps. findPaths promotionBoard (1, 2) (man Red) [] = Inr ps \<and> [3, 0, 2, 1] \<in> set ps) \<and>
   (\<exists>g'. movePiece promotionGame 3 0 = Inr (True, g') \<and>
         cellSafe (board g') 3 0 = Some (king Red) \<and>
         findSingleJumps (board g') (3, 0) (king Red) \<noteq> [] \<and>
         currentPlayer g' = opponentOf (currentPlayer promotionGame) \<and>
         multiJumpPiece g' = None \<and> selectedPiece g' = None \<and> validMoves g' = [])"
proof -
  have h1: "isInBounds (fst (1, 2)) (snd (1, 2))" by code_simp
  have h2: "cellSafe promotionBoard (fst (1, 2)) (snd (1, 2)) = Some (man Red)" by code_simp
  have h3: "findSingleJumps promotionBoard (1, 2) (man Red) = [[3, 0, 2, 1]]" by code_simp
  have h4: "promotes (man Red) [3, 0, 2, 1]" by code_simp
  have h5: "findSingleJumps (hop promotionBoard (1, 2) [3, 0, 2, 1]) (3, 0) (man Red) \<noteq> []"
    "findSingleJumps (hop promotionBoard (1, 2) [3, 0, 2, 1]) (3, 0) (king Red) \<noteq> []"
    by code_simp+
  from h3 have ne: "findSingleJumps promotionBoard (1, 2) (man Red) \<noteq> []" by simp
  from promotion_ends_chain[THEN conjunct1, rule_format, OF conjI[OF h1 conjI[OF h2 ne]], of "[]"]
  have p: "findPaths promotionBoard (1, 2) (man Red) [] = Inr [[3, 0, 2, 1]]"
    by (simp add: h3 h4)
  have p2: "\<exists>ps. findPaths promotionBoard (1, 2) (man Red) [] = Inr ps \<and> [3, 0, 2, 1] \<in> set ps"
    using promotion_ends_chain[THEN conjunct2, THEN conjunct1, rule_format, OF conjI[OF h1 h2]]
      h3 h4
    by (elim exE conjE) (rule exI, simp)
  have "map_sum id (\<lambda>(ok, g'). (ok, findSingleJumps (board g') (3, 0) (king Red) \<noteq> []))
          (movePiece promotionGame 3 0)
        = Inr (True, True)"
    by code_simp
  then obtain g' where m: "movePiece promotionGame 3 0 = Inr (True, g')"
    and f: "findSingleJumps (board g') (3, 0) (king Red) \<noteq> []"
    by (cases "movePiece promotionGame 3 0") auto
  have s: "selectedPiece promotionGame = Some (1, 2, man Red)" by (simp add: promotionGame_def)
  have n: "\<not> isKing (man Red) \<and> shouldPromote (color (man Red)) 0" by code_simp
  have ne2: "((1::int), (2::int)) \<noteq> (3, 0)" by simp
  have cs: "\<forall>cm. find (\<lambda>m. length m \<ge> 2 \<and> m ! 0 = 3 \<and> m ! 1 = 0) (validMoves promotionGame) = Some cm \<and>
           length cm > 2 \<longrightarrow> captureSquare cm 1 2 3 0 \<noteq> Some (3, 0)"
    by (simp add: promotionGame_def captureSquare_def)
  note th = promotion_ends_chain[THEN conjunct2, THEN conjunct2, rule_format, OF conjI[OF m s]]
  from th n have t: "currentPlayer g' = opponentOf (currentPlayer promotionGame) \<and>
       multiJumpPiece g' = None \<and> selectedPiece g' = None \<and> validMoves g' = []"
    by (elim conjE) simp
  from th ne2 cs n have c: "cellSafe (board g') 3 0 = Some (king Red)"
    by (elim conjE) (simp add: king_def man_def)
  have "\<exists>g'. movePiece promotionGame 3 0 = Inr (True, g') \<and>
         cellSafe (board g') 3 0 = Some (king Red) \<and>
         findSingleJumps (board g') (3, 0) (king Red) \<noteq> [] \<and>
         currentPlayer g' = opponentOf (currentPlayer promotionGame) \<and>
         multiJumpPiece g' = None \<and> selectedPiece g' = None \<and> validMoves g' = []"
    using m c f t by (intro exI[of _ g']) simp
  with h3 h4 h5 p p2 show ?thesis by (intro conjI)
qed

section \<open>The position hash in the search (claim C6)\<close>

text \<open>
  The key of what stands on a square, and the hash of the placement alone: the XOR of
  the keys of all 64 squares.
\<close>

definition keyOf :: "zobrist \<Rightarrow> square \<Rightarrow> int \<Rightarrow> int \<Rightarrow> 32 word" where
  "keyOf z s x y =
     (case s of None \<Rightarrow> 0 | Some p \<Rightarrow> tableAt z (getPieceZobristIndex p) (y * 8 + x))"

definition xorAll :: "32 word list \<Rightarrow> 32 word" where
  "xorAll ws = foldr (XOR) ws 0"

definition placementHash :: "zobrist \<Rightarrow> board \<Rightarrow> 32 word" where
  "placementHash z b = xorAll (map (\<lambda>(x, y). keyOf z (cellSafe b x y) x y) squares)"

lemma xorAll_Nil: "xorAll [] = 0"
  by (simp add: xorAll_def)

lemma xorAll_Cons: "xorAll (w # ws) = w XOR xorAll ws"
  by (simp add: xorAll_def)

lemma xorAll_append: "xorAll (us @ vs) = xorAll us XOR xorAll vs"
  by (induction us) (simp_all add: xorAll_Nil xorAll_Cons xor.assoc)

lemma hashSquare_row:
  assumes "rowAt b y \<noteq> None"
  shows "hashSquare z b y x h = Inr (h XOR keyOf z (cellSafe b x y) x y)"
proof -
  from assms obtain r where r: "rowAt b y = Some r" by blast
  then have "cellAt b x y = Inr (cellSafe b x y)" by (simp add: cellAt_def cellSafe_def)
  then show ?thesis
    by (cases "cellSafe b x y") (simp_all add: hashSquare_def keyOf_def)
qed

lemma hashRow:
  assumes "rowAt b y \<noteq> None"
  shows "foldE (hashSquare z b y) xs h =
         Inr (h XOR xorAll (map (\<lambda>x. keyOf z (cellSafe b x y) x y) xs))"
proof (induction xs arbitrary: h)
  case Nil
  show ?case by (simp add: xorAll_Nil)
next
  case (Cons x xs)
  have "foldE (hashSquare z b y) (x # xs) h =
        foldE (hashSquare z b y) xs (h XOR keyOf z (cellSafe b x y) x y)"
    by (simp only: foldE.simps hashSquare_row[OF assms] sum.case)
  then show ?case
    by (simp only: Cons.IH list.map xorAll_Cons xor.assoc)
qed

lemma hashRows:
  assumes "\<forall>y \<in> set ys. rowAt b y \<noteq> None"
  shows "foldE (\<lambda>y. foldE (hashSquare z b y) xs) ys h =
         Inr (h XOR xorAll (concat (map (\<lambda>y. map (\<lambda>x. keyOf z (cellSafe b x y) x y) xs) ys)))"
  using assms
proof (induction ys arbitrary: h)
  case Nil
  show ?case by (simp add: xorAll_Nil)
next
  case (Cons y ys)
  from Cons.prems have y: "rowAt b y \<noteq> None" and ys: "\<forall>y \<in> set ys. rowAt b y \<noteq> None"
    by simp_all
  have "foldE (\<lambda>y. foldE (hashSquare z b y) xs) (y # ys) h =
        foldE (\<lambda>y. foldE (hashSquare z b y) xs) ys
          (h XOR xorAll (map (\<lambda>x. keyOf z (cellSafe b x y) x y) xs))"
    by (simp only: foldE.simps hashRow[OF y] sum.case)
  then show ?case
    by (simp only: Cons.IH[OF ys] list.map concat.simps xorAll_append xor.assoc)
qed

lemma placementHash_rows:
  "placementHash z b =
   xorAll (concat (map (\<lambda>y. map (\<lambda>x. keyOf z (cellSafe b x y) x y) idx8) idx8))"
  by (simp add: placementHash_def squares_def map_concat comp_def)

lemma computeZobristHash_placement:
  assumes "list_all (\<lambda>y. rowAt b y \<noteq> None) idx8"
  shows "computeZobristHash z b c =
         Inr (if c = Yellow then placementHash z b XOR zobristTurn z else placementHash z b)"
proof -
  from assms have "\<forall>y \<in> set idx8. rowAt b y \<noteq> None" by (simp add: list_all_iff)
  from hashRows[OF this, of z idx8 0] show ?thesis
    by (simp add: computeZobristHash_def placementHash_rows)
qed

lemma xorAll_same:
  assumes "\<forall>s \<in> set sq. g s = f s"
  shows "xorAll (map g sq) = xorAll (map f sq)"
  using assms by (induction sq) (simp_all add: xorAll_Nil xorAll_Cons)

lemma xorAll_update:
  assumes "distinct sq" and "a \<in> set sq" and "\<forall>s \<in> set sq. s \<noteq> a \<longrightarrow> g s = f s"
  shows "xorAll (map g sq) = xorAll (map f sq) XOR f a XOR g a"
  using assms
proof (induction sq)
  case Nil
  then show ?case by simp
next
  case (Cons s sq)
  show ?case
  proof (cases "s = a")
    case True
    with Cons.prems have "\<forall>s \<in> set sq. g s = f s" by auto
    from xorAll_same[OF this] True show ?thesis
      by (simp add: xorAll_Cons xor.assoc xor.commute xor.left_commute)
  next
    case False
    with Cons.prems have "distinct sq" "a \<in> set sq" "\<forall>s \<in> set sq. s \<noteq> a \<longrightarrow> g s = f s"
      and gs: "g s = f s" by auto
    from Cons.IH[OF this(1,2,3)] gs show ?thesis
      by (simp add: xorAll_Cons xor.assoc xor.commute xor.left_commute)
  qed
qed

lemma distinct_squares: "distinct squares"
  by (simp add: squares_def idx8_def)

lemma in_squares: "(x, y) \<in> set squares \<longleftrightarrow> isInBounds x y"
  by (auto simp: squares_set isInBounds_iff)

lemma placementHash_update:
  assumes "isInBounds x0 y0"
    and "\<And>x y. isInBounds x y \<Longrightarrow>
           cellSafe b' x y = (if x = x0 \<and> y = y0 then v else cellSafe b x y)"
  shows "placementHash z b' =
         placementHash z b XOR keyOf z (cellSafe b x0 y0) x0 y0 XOR keyOf z v x0 y0"
proof -
  let ?f = "\<lambda>(x, y). keyOf z (cellSafe b x y) x y"
  let ?g = "\<lambda>(x, y). keyOf z (cellSafe b' x y) x y"
  have a: "(x0, y0) \<in> set squares" using assms(1) by (simp add: in_squares)
  have "\<forall>s \<in> set squares. s \<noteq> (x0, y0) \<longrightarrow> ?g s = ?f s"
    using assms(2) by (auto simp: in_squares split: if_splits)
  from xorAll_update[OF distinct_squares a this] assms(2)[OF assms(1)]
  show ?thesis by (simp add: placementHash_def)
qed


lemma inRange_wf8:
  assumes "wf8 b" and "isInBounds x y"
  shows "inRange b x y"
proof -
  from assms(2) have y: "0 \<le> y" "nat y < 8" and x: "0 \<le> x" "nat x < 8"
    unfolding isInBounds_def by linarith+
  from assms(1) y have "b ! nat y \<in> set b" by (simp add: wf8_def)
  with assms(1) have "length (b ! nat y) = 8" by (simp add: wf8_def)
  with assms(1) x y show ?thesis by (simp add: inRange_def wf8_def)
qed

lemma writeCell_inRange: "inRange b x y \<Longrightarrow> writeCell b x y v = Inr (setCell b x y v)"
  by (simp add: writeCell_def inRange_def rowAt_def setCell_def)

lemma placementHash_setCell:
  assumes "wf8 b" and "isInBounds x0 y0"
  shows "placementHash z (setCell b x0 y0 v) =
         placementHash z b XOR keyOf z (cellSafe b x0 y0) x0 y0 XOR keyOf z v x0 y0"
  by (rule placementHash_update[OF assms(2)]) (simp add: cellSafe_setCell[OF assms])

lemma xor_chain:
  fixes h :: "32 word"
  assumes "h2 XOR p1 = h XOR kf XOR p0"
    and "p2 = p1 XOR kt" and "p3 = p2 XOR kf" and "p4 = p3 XOR kt XOR kpa"
  shows "(h2 XOR kpa) XOR p4 = h XOR p0"
proof -
  have "(h2 XOR kpa) XOR p4 = (h2 XOR p1) XOR kf"
    unfolding assms(2,3,4) by (rule bit_eqI) (auto simp: bit_xor_iff)
  also have "\<dots> = h XOR p0"
    unfolding assms(1) by (rule bit_eqI) (auto simp: bit_xor_iff)
  finally show ?thesis .
qed

lemma simulateMove_placement:
  assumes wf: "wf8 b"
    and fr: "isInBounds (fromX m) (fromY m)" "cellSafe b (fromX m) (fromY m) = Some p"
    and to: "isInBounds (toX m) (toY m)" "cellSafe b (toX m) (toY m) = None"
    and cap: "\<forall>cx cy. isJump m \<and> captureX m = Some cx \<and> captureY m = Some cy \<longrightarrow>
                (cx, cy) \<noteq> (fromX m, fromY m)"
  shows "\<exists>c nh. simulateMove z b m h = Inr (c, nh) \<and> wf8 c \<and>
                nh XOR placementHash z c = h XOR placementHash z b"
proof -
  define captured where "captured =
                (if isJump m
                 then (case (captureX m, captureY m) of
                         (Some capX, Some capY) \<Rightarrow>
                           if isInBounds capX capY
                           then (case cellSafe b capX capY of
                                   Some capturedPiece \<Rightarrow> Some (capX, capY, capturedPiece)
                                 | None \<Rightarrow> None)
                           else None
                       | _ \<Rightarrow> None)
                 else None)"
  define kf where "kf = tableAt z (getPieceZobristIndex p) (fromY m * 8 + fromX m)"
  define h2 where "h2 = (case captured of
                         Some (capX, capY, capturedPiece) \<Rightarrow>
                           (h XOR kf) XOR tableAt z (getPieceZobristIndex capturedPiece) (capY * 8 + capX)
                       | None \<Rightarrow> h XOR kf)"
  define b1 where "b1 = (case captured of
                          Some (capX, capY, capturedPiece) \<Rightarrow> setCell b capX capY None
                        | None \<Rightarrow> b)"
  define promoted where "promoted = (\<not> isKing p \<and> shouldPromote (color p) (toY m))"
  define pa where "pa = (if promoted then p\<lparr>isKing := True\<rparr> else p)"
  define kt where "kt = keyOf z (Some p) (toX m) (toY m)"
  define kpa where "kpa = tableAt z (getPieceZobristIndex pa) (toY m * 8 + toX m)"
  define b2 where "b2 = setCell b1 (toX m) (toY m) (Some p)"
  define b3 where "b3 = setCell b2 (fromX m) (fromY m) None"
  define b4 where "b4 = (if promoted \<and> (toX m, toY m) \<noteq> (fromX m, fromY m)
                         then setCell b3 (toX m) (toY m) (Some pa) else b3)"
  have ne: "(toX m, toY m) \<noteq> (fromX m, fromY m)" using fr(2) to(2) by auto
  have kfk: "keyOf z (Some p) (fromX m) (fromY m) = kf" by (simp add: keyOf_def kf_def)
  have kpk: "keyOf z (Some pa) (toX m) (toY m) = kpa" by (simp add: keyOf_def kpa_def)
  have k0: "keyOf z None x y = 0" for x y by (simp add: keyOf_def)
  have capfacts: "isInBounds cx cy \<and> cellSafe b cx cy = Some cp \<and> (cx, cy) \<noteq> (fromX m, fromY m)"
    if "captured = Some (cx, cy, cp)" for cx cy cp
    using that cap by (auto simp: captured_def split: if_splits option.splits)
  have s1: "wf8 b1 \<and> cellSafe b1 (fromX m) (fromY m) = Some p \<and>
            cellSafe b1 (toX m) (toY m) = None \<and>
            h2 XOR placementHash z b1 = h XOR kf XOR placementHash z b"
  proof (cases captured)
    case None
    then show ?thesis using wf fr to by (simp add: b1_def h2_def xor.assoc)
  next
    case (Some t)
    obtain cx cy cp where t: "t = (cx, cy, cp)" by (cases t)
    from capfacts[of cx cy cp] Some t have c: "isInBounds cx cy" "cellSafe b cx cy = Some cp"
      "(cx, cy) \<noteq> (fromX m, fromY m)" by simp_all
    from c(2) to(2) have ct: "(cx, cy) \<noteq> (toX m, toY m)" by auto
    have b1e: "b1 = setCell b cx cy None" by (simp add: b1_def Some t)
    have h2e: "h2 = (h XOR kf) XOR keyOf z (Some cp) cx cy" by (simp add: h2_def Some t keyOf_def)
    have p1: "placementHash z b1 = placementHash z b XOR keyOf z (Some cp) cx cy"
      unfolding b1e using placementHash_setCell[OF wf c(1), of z None] by (simp add: c(2) k0)
    have "h2 XOR placementHash z b1 = h XOR kf XOR placementHash z b"
      unfolding h2e p1 by (rule bit_eqI) (auto simp: bit_xor_iff)
    moreover have "wf8 b1" unfolding b1e by (rule wf8_setCell[OF wf])
    moreover have "cellSafe b1 (fromX m) (fromY m) = Some p"
      unfolding b1e using cellSafe_setCell[OF wf c(1) fr(1), of None] c(3) fr(2) by auto
    moreover have "cellSafe b1 (toX m) (toY m) = None"
      unfolding b1e using cellSafe_setCell[OF wf c(1) to(1), of None] ct to(2) by auto
    ultimately show ?thesis by simp
  qed
  then have wf1: "wf8 b1" and f1: "cellSafe b1 (fromX m) (fromY m) = Some p"
    and t1: "cellSafe b1 (toX m) (toY m) = None"
    and e1: "h2 XOR placementHash z b1 = h XOR kf XOR placementHash z b" by simp_all
  have w: "writeCell b1 (toX m) (toY m) (Some p) = Inr b2"
    unfolding b2_def by (rule writeCell_inRange[OF inRange_wf8[OF wf1 to(1)]])
  have wf2: "wf8 b2" unfolding b2_def by (rule wf8_setCell[OF wf1])
  have e2: "placementHash z b2 = placementHash z b1 XOR kt"
    unfolding b2_def using placementHash_setCell[OF wf1 to(1), of z "Some p"]
    by (simp add: t1 k0 kt_def)
  have f2: "cellSafe b2 (fromX m) (fromY m) = Some p"
    unfolding b2_def using cellSafe_setCell[OF wf1 to(1) fr(1), of "Some p"] ne f1 by auto
  have t2: "cellSafe b2 (toX m) (toY m) = Some p"
    unfolding b2_def using cellSafe_setCell[OF wf1 to(1) to(1), of "Some p"] by simp
  have wf3: "wf8 b3" unfolding b3_def by (rule wf8_setCell[OF wf2])
  have e3: "placementHash z b3 = placementHash z b2 XOR kf"
    unfolding b3_def using placementHash_setCell[OF wf2 fr(1), of z None]
    by (simp add: f2 k0 kfk)
  have t3: "cellSafe b3 (toX m) (toY m) = Some p"
    unfolding b3_def using cellSafe_setCell[OF wf2 fr(1) to(1), of None] ne t2 by auto
  have wf4: "wf8 b4" unfolding b4_def using wf3 by (simp add: wf8_setCell)
  have e4: "placementHash z b4 = placementHash z b3 XOR kt XOR kpa"
  proof (cases promoted)
    case True
    then have "b4 = setCell b3 (toX m) (toY m) (Some pa)" using ne by (simp add: b4_def)
    then show ?thesis
      using placementHash_setCell[OF wf3 to(1), of z "Some pa"] by (simp add: t3 kt_def kpk)
  next
    case False
    then have "b4 = b3" "kpa = kt" by (simp_all add: b4_def kpa_def kt_def pa_def keyOf_def)
    then show ?thesis by (simp add: xor.assoc)
  qed
  have "simulateMove z b m h =
        (case writeCell b1 (toX m) (toY m) (Some p) of
           Inl e \<Rightarrow> Inl e
         | Inr board2 \<Rightarrow>
             Inr (if promoted \<and> (toX m, toY m) \<noteq> (fromX m, fromY m)
                  then setCell (setCell board2 (fromX m) (fromY m) None) (toX m) (toY m) (Some pa)
                  else setCell board2 (fromX m) (fromY m) None,
                  h2 XOR kpa))"
    unfolding simulateMove_def Let_def b1_def h2_def captured_def promoted_def pa_def kpa_def kf_def
    by (simp add: fr(2))
  also have "\<dots> = Inr (b4, h2 XOR kpa)"
    by (simp only: w sum.case b4_def b3_def)
  finally have r: "simulateMove z b m h = Inr (b4, h2 XOR kpa)" .
  from xor_chain[OF e1 e2 e3 e4] have "(h2 XOR kpa) XOR placementHash z b4 = h XOR placementHash z b" .
  with r wf4 show ?thesis by blast
qed


lemma copyBoardAI_facts:
  assumes "copyBoardAI b = Inr c0"
  shows "list_all (\<lambda>y. rowAt b y \<noteq> None) idx8" and "wf8 c0"
    and "isInBounds x y \<Longrightarrow> cellSafe c0 x y = cellSafe b x y"
proof -
  from assms show r: "list_all (\<lambda>y. rowAt b y \<noteq> None) idx8"
    by (simp add: copyBoardAI_def split: if_splits)
  with assms have c0: "c0 = map (\<lambda>y. map (\<lambda>x. cellSafe b x y) idx8) idx8"
    by (simp add: copyBoardAI_def)
  then have "c0 = copyBoard b" by (simp add: copyBoard_def)
  then show "wf8 c0" and "isInBounds x y \<Longrightarrow> cellSafe c0 x y = cellSafe b x y"
    by (simp_all add: wf8_copyBoard cellSafe_copyBoard)
qed

lemma placementHash_copyBoardAI:
  assumes "copyBoardAI b = Inr c0"
  shows "placementHash z c0 = placementHash z b"
  unfolding placementHash_def
  by (rule xorAll_same) (auto simp: in_squares copyBoardAI_facts(3)[OF assms])

lemma rows_wf8: "wf8 c \<Longrightarrow> list_all (\<lambda>y. rowAt c y \<noteq> None) idx8"
  by (simp add: wf8_def rowAt_def idx8_def)

lemma cellSafe_Some_cellAt: "cellSafe b x y = Some q \<Longrightarrow> cellAt b x y = Inr (Some q)"
  by (auto simp: cellSafe_def cellAt_def split: option.splits)

lemma xor_move:
  fixes a :: "32 word"
  assumes "a XOR c = d XOR e"
  shows "a = (d XOR e) XOR c"
proof -
  have "a = (a XOR c) XOR c" by (rule bit_eqI) (auto simp: bit_xor_iff)
  with assms show ?thesis by simp
qed

lemma xor_turn:
  fixes p :: "32 word"
  shows "((p XOR t) XOR p) XOR q = q XOR t" and "(p XOR p) XOR q = q"
    and "(q XOR t) XOR t = q"
  by (rule bit_eqI, auto simp: bit_xor_iff)+

text \<open>
  Claim C6. The hash that \<open>searchMove\<close> passes on is maintained by XOR updates of
  the placement only. When the hash received is \<open>computeZobristHash\<close> of the board
  and the colour to move \<open>colr\<close>, and the move takes a piece of the board to an empty
  square (capturing on another square than its own), the hash passed to \<open>minimax\<close> is
  \<open>computeZobristHash\<close> of the simulated board and the same \<open>colr\<close>, also when the call
  is made for the opponent: the hash of the simulated board for the opponent is that
  value XOR \<open>zobristTurn\<close>, which \<open>searchMove\<close> never applies.
\<close>

theorem searchMove_hash_keeps_turn:
  "copyBoardAI b = Inr c0 \<and>
   isInBounds (fromX m) (fromY m) \<and> cellSafe b (fromX m) (fromY m) = Some pb \<and>
   isInBounds (toX m) (toY m) \<and> cellSafe b (toX m) (toY m) = None \<and>
   (\<forall>cx cy. isJump m \<and> captureX m = Some cx \<and> captureY m = Some cy \<longrightarrow>
       (cx, cy) \<noteq> (fromX m, fromY m)) \<and>
   computeZobristHash z b colr = Inr h \<longrightarrow>
   (\<exists>c nh pa.
      simulateMove z c0 m h = Inr (c, nh) \<and> cellAt c (toX m) (toY m) = Inr pa \<and>
      searchMove z mm b m depth al be isMax colr ic h =
        (if jumpContinues c (isJump m)
              (case pa of None \<Rightarrow> False
               | Some q \<Rightarrow> \<not> isKing pb \<and> shouldPromote (color q) (toY m))
              (toX m) (toY m) pa
         then mm c depth al be isMax colr True nh
         else mm c (depth - 1) al be (\<not> isMax) (opponentOf colr) False nh) \<and>
      computeZobristHash z c colr = Inr nh \<and>
      computeZobristHash z c (opponentOf colr) = Inr (nh XOR zobristTurn z))"
proof
  assume a: "copyBoardAI b = Inr c0 \<and>
   isInBounds (fromX m) (fromY m) \<and> cellSafe b (fromX m) (fromY m) = Some pb \<and>
   isInBounds (toX m) (toY m) \<and> cellSafe b (toX m) (toY m) = None \<and>
   (\<forall>cx cy. isJump m \<and> captureX m = Some cx \<and> captureY m = Some cy \<longrightarrow>
       (cx, cy) \<noteq> (fromX m, fromY m)) \<and>
   computeZobristHash z b colr = Inr h"
  then have cp: "copyBoardAI b = Inr c0"
    and fr: "isInBounds (fromX m) (fromY m)" "cellSafe b (fromX m) (fromY m) = Some pb"
    and to: "isInBounds (toX m) (toY m)" "cellSafe b (toX m) (toY m) = None"
    and cap: "\<forall>cx cy. isJump m \<and> captureX m = Some cx \<and> captureY m = Some cy \<longrightarrow>
                (cx, cy) \<noteq> (fromX m, fromY m)"
    and h: "computeZobristHash z b colr = Inr h" by simp_all
  note cf = copyBoardAI_facts[OF cp]
  have fr0: "cellSafe c0 (fromX m) (fromY m) = Some pb" using cf(3)[OF fr(1)] fr(2) by simp
  have to0: "cellSafe c0 (toX m) (toY m) = None" using cf(3)[OF to(1)] to(2) by simp
  from simulateMove_placement[OF cf(2) fr(1) fr0 to(1) to0 cap, of z h]
  obtain c nh where s: "simulateMove z c0 m h = Inr (c, nh)" and wc: "wf8 c"
    and e: "nh XOR placementHash z c = h XOR placementHash z c0" by blast
  from to(1) have "0 \<le> toY m" "toY m < 8" by (simp_all add: isInBounds_def)
  from cellAt_wf8[OF wc this] have pa: "cellAt c (toX m) (toY m) = Inr (cellSafe c (toX m) (toY m))" .
  note n = searchMove_next[OF cp cellSafe_Some_cellAt[OF fr(2)] s pa, of mm depth al be isMax colr ic]
  from h computeZobristHash_placement[OF cf(1), of z colr]
  have hv: "h = (if colr = Yellow then placementHash z b XOR zobristTurn z else placementHash z b)"
    by simp
  from xor_move[OF e] have nv: "nh = (h XOR placementHash z b) XOR placementHash z c"
    by (simp add: placementHash_copyBoardAI[OF cp])
  have k1: "computeZobristHash z c colr = Inr nh"
    unfolding computeZobristHash_placement[OF rows_wf8[OF wc]] nv hv
    by (simp add: xor_turn)
  have k2: "computeZobristHash z c (opponentOf colr) = Inr (nh XOR zobristTurn z)"
    unfolding computeZobristHash_placement[OF rows_wf8[OF wc]] nv hv
    by (cases colr) (simp_all add: xor_turn opponentOf_def)
  from s pa n k1 k2 show "\<exists>c nh pa.
      simulateMove z c0 m h = Inr (c, nh) \<and> cellAt c (toX m) (toY m) = Inr pa \<and>
      searchMove z mm b m depth al be isMax colr ic h =
        (if jumpContinues c (isJump m)
              (case pa of None \<Rightarrow> False
               | Some q \<Rightarrow> \<not> isKing pb \<and> shouldPromote (color q) (toY m))
              (toX m) (toY m) pa
         then mm c depth al be isMax colr True nh
         else mm c (depth - 1) al be (\<not> isMax) (opponentOf colr) False nh) \<and>
      computeZobristHash z c colr = Inr nh \<and>
      computeZobristHash z c (opponentOf colr) = Inr (nh XOR zobristTurn z)" by blast
qed


text \<open>
  An instance: the red man on (1,2) jumps to (3,0) and is promoted, so the next node
  is Yellow's. A \<open>minimax\<close> that only compares the hash it receives with
  \<open>computeZobristHash\<close> of its board and colour reports a mismatch.
\<close>

definition promotingJump :: aimove where
  "promotingJump = \<lparr>fromX = 1, fromY = 2, toX = 3, toY = 0, isJump = True,
                     captureX = Some 2, captureY = Some 1\<rparr>"

definition hashProbe ::
  "zobrist \<Rightarrow> board \<Rightarrow> int \<Rightarrow> score \<Rightarrow> score \<Rightarrow> bool \<Rightarrow> color \<Rightarrow> bool \<Rightarrow> 32 word \<Rightarrow> error + score" where
  "hashProbe z bd d al be mx c ct hh =
     Inr (if computeZobristHash z bd c = Inr hh then PlusInfinity else MinusInfinity)"

lemma xor_turn_differs:
  fixes nh :: "32 word"
  assumes "t \<noteq> 0"
  shows "nh XOR t \<noteq> nh"
proof
  assume "nh XOR t = nh"
  then have "(nh XOR t) XOR nh = nh XOR nh" by simp
  moreover have "(nh XOR t) XOR nh = t" by (rule bit_eqI) (auto simp: bit_xor_iff)
  ultimately show False using assms by simp
qed

theorem searchMove_hash_keeps_turn_witness:
  "\<exists>c0 h c nh.
     copyBoardAI promotionBoard = Inr c0 \<and>
     computeZobristHash exampleKeys promotionBoard Red = Inr h \<and>
     simulateMove exampleKeys c0 promotingJump h = Inr (c, nh) \<and>
     computeZobristHash exampleKeys c Red = Inr nh \<and>
     computeZobristHash exampleKeys c Yellow \<noteq> Inr nh \<and>
     searchMove exampleKeys (hashProbe exampleKeys) promotionBoard promotingJump 3
       MinusInfinity PlusInfinity True Red False h = Inr MinusInfinity"
proof -
  let ?c0 = "projr (copyBoardAI promotionBoard)"
  let ?h = "projr (computeZobristHash exampleKeys promotionBoard Red)"
  let ?r = "projr (simulateMove exampleKeys ?c0 promotingJump ?h)"
  have h1: "copyBoardAI promotionBoard = Inr ?c0" by (rule Inr_projr) code_simp
  have h2: "isInBounds (fromX promotingJump) (fromY promotingJump)" by code_simp
  have h3: "cellSafe promotionBoard (fromX promotingJump) (fromY promotingJump) = Some (man Red)"
    by code_simp
  have h4: "isInBounds (toX promotingJump) (toY promotingJump)" by code_simp
  have h5: "cellSafe promotionBoard (toX promotingJump) (toY promotingJump) = None"
    by code_simp
  have h6: "\<forall>cx cy. isJump promotingJump \<and> captureX promotingJump = Some cx \<and>
              captureY promotingJump = Some cy \<longrightarrow>
              (cx, cy) \<noteq> (fromX promotingJump, fromY promotingJump)"
    by (simp add: promotingJump_def)
  have h7: "computeZobristHash exampleKeys promotionBoard Red = Inr ?h"
    by (rule Inr_projr) code_simp
  from searchMove_hash_keeps_turn[rule_format,
      OF conjI[OF h1 conjI[OF h2 conjI[OF h3 conjI[OF h4 conjI[OF h5 conjI[OF h6 h7]]]]]],
      of "hashProbe exampleKeys" 3 MinusInfinity PlusInfinity True False]
  obtain c nh pa where s: "simulateMove exampleKeys ?c0 promotingJump ?h = Inr (c, nh)"
    and pa: "cellAt c (toX promotingJump) (toY promotingJump) = Inr pa"
    and n: "searchMove exampleKeys (hashProbe exampleKeys) promotionBoard promotingJump 3
              MinusInfinity PlusInfinity True Red False ?h =
        (if jumpContinues c (isJump promotingJump)
              (case pa of None \<Rightarrow> False
               | Some q \<Rightarrow> \<not> isKing (man Red) \<and> shouldPromote (color q) (toY promotingJump))
              (toX promotingJump) (toY promotingJump) pa
         then hashProbe exampleKeys c 3 MinusInfinity PlusInfinity True Red True nh
         else hashProbe exampleKeys c (3 - 1) MinusInfinity PlusInfinity (\<not> True) (opponentOf Red)
                False nh)"
    and k1: "computeZobristHash exampleKeys c Red = Inr nh"
    and k2: "computeZobristHash exampleKeys c (opponentOf Red) = Inr (nh XOR zobristTurn exampleKeys)"
    by blast
  from s have c: "c = fst ?r" by simp
  have "cellAt (fst ?r) (toX promotingJump) (toY promotingJump) = Inr (Some (king Red))"
    by code_simp
  with pa c have pv: "pa = Some (king Red)" by simp
  have sp: "shouldPromote (color (king Red)) (toY promotingJump)" "\<not> isKing (man Red)"
    by code_simp+
  have "zobristTurn exampleKeys \<noteq> 0" by (simp add: exampleKeys_def)
  from xor_turn_differs[OF this] k2
  have k3: "computeZobristHash exampleKeys c Yellow \<noteq> Inr nh" by (simp add: opponentOf_def)
  from n have "searchMove exampleKeys (hashProbe exampleKeys) promotionBoard promotingJump 3
              MinusInfinity PlusInfinity True Red False ?h = Inr MinusInfinity"
    by (simp add: pv sp jumpContinues_def hashProbe_def opponentOf_def k3)
  with h1 h7 s k1 k3 show ?thesis by blast
qed

section \<open>Malformed inputs (claim C10)\<close>

text \<open>
  Claim C10 says that no query function of the rule engine throws, whatever the
  input. \<open>findSingleJumps\<close> and \<open>hasMandatoryJumps\<close> test \<^verbatim>\<open>board[y]\<close> before they
  read a cell and so are total here. \<open>getRegularMoves\<close> reads \<^verbatim>\<open>board[newY][newX]\<close>
  with no such test: for a king or a red man whose upper left neighbour is a square
  of the 8x8 grid in a row that the board does not have, it raises a TypeError, and
  so does \<open>getValidMoves\<close> when it gets as far as the regular moves.
\<close>

theorem getRegularMoves_raises:
  "isInBounds (fst pos - 1) (snd pos - 1) \<and> rowAt b (snd pos - 1) = None \<and>
   (isKing p \<or> color p = Red) \<longrightarrow>
   getRegularMoves b pos p = Inl TypeError \<and>
   (getJumpMoves b pos p = Inr [] \<and> \<not> hasMandatoryJumps b (color p) \<longrightarrow>
    getValidMoves b pos p = Inl TypeError)"
proof
  assume a: "isInBounds (fst pos - 1) (snd pos - 1) \<and> rowAt b (snd pos - 1) = None \<and>
   (isKing p \<or> color p = Red)"
  then have c: "cellAt b (fst pos - 1) (snd pos - 1) = Inl TypeError"
    by (simp add: cellAt_def)
  have r: "getRegularMoves b pos p = Inl TypeError"
  proof (cases "isKing p")
    case True
    with a c show ?thesis
      by (simp add: getRegularMoves_def king_move_def dists_def)
  next
    case False
    with a c show ?thesis
      by (simp add: getRegularMoves_def red_move_def manStep_def)
  qed
  then show "getRegularMoves b pos p = Inl TypeError \<and>
   (getJumpMoves b pos p = Inr [] \<and> \<not> hasMandatoryJumps b (color p) \<longrightarrow>
    getValidMoves b pos p = Inl TypeError)"
    by (simp add: getValidMoves_def)
qed

text \<open>
  Instances: a board with no rows, and a position outside the grid next to a piece,
  from which \<open>getJumpMoves\<close> reads \<^verbatim>\<open>nextBoard[-1][-1]\<close>.
\<close>

theorem getRegularMoves_raises_witness:
  "getRegularMoves [] (1, 1) (man Red) = Inl TypeError \<and>
   getValidMoves [] (1, 1) (man Red) = Inl TypeError \<and>
   getRegularMoves [] (1, 1) (king Yellow) = Inl TypeError \<and>
   findSingleJumps [] (1, 1) (man Red) = [] \<and>
   hasMandatoryJumps [] Red = False \<and>
   getJumpMoves (place [(0, 0, man Yellow)] emptyBoard) (- 1, - 1) (man Red) = Inl TypeError \<and>
   getValidMoves (place [(0, 0, man Yellow)] emptyBoard) (- 1, - 1) (man Red) = Inl TypeError"
proof -
  have h1: "isInBounds (fst (1, 1) - 1) (snd (1, 1) - 1)" by code_simp
  have h2: "rowAt [] (snd (1, 1) - 1) = None" by code_simp
  have h3: "isKing (man Red) \<or> color (man Red) = Red" by code_simp
  have h4: "getJumpMoves [] (1, 1) (man Red) = Inr []" by code_simp
  have h5: "\<not> hasMandatoryJumps [] (color (man Red))" by code_simp
  have h6: "isKing (king Yellow) \<or> color (king Yellow) = Red" by code_simp
  have e: "findSingleJumps [] (1, 1) (man Red) = []" "hasMandatoryJumps [] Red = False"
    "getJumpMoves (place [(0, 0, man Yellow)] emptyBoard) (- 1, - 1) (man Red) = Inl TypeError"
    "getValidMoves (place [(0, 0, man Yellow)] emptyBoard) (- 1, - 1) (man Red) = Inl TypeError"
    by code_simp+
  from getRegularMoves_raises[rule_format, OF conjI[OF h1 conjI[OF h2 h3]]] h4 h5
  have a: "getRegularMoves [] (1, 1) (man Red) = Inl TypeError"
    "getValidMoves [] (1, 1) (man Red) = Inl TypeError" by blast+
  from getRegularMoves_raises[rule_format, OF conjI[OF h1 conjI[OF h2 h6]]]
  have b: "getRegularMoves [] (1, 1) (king Yellow) = Inl TypeError" by blast
  from a b e show ?thesis by blast
qed

section \<open>The search on a store (claim C8)\<close>

text \<open>
  Whether a function changes the board it is given depends on which arrays and piece
  objects are shared, so here boards live in a store. A store is the list of the
  objects allocated so far and an address is an index into it. A piece object holds
  \<^verbatim>\<open>color\<close> and \<^verbatim>\<open>isKing\<close>. A row array is kept as the list of the assignments
  \<^verbatim>\<open>row[x] = v\<close> made to it, the latest first, where \<open>v\<close> is null or the address
  of a piece object; reading \<^verbatim>\<open>row[x]\<close> finds the latest assignment to \<open>x\<close>, for
  any integer \<open>x\<close>, and gives undefined when there is none. A board array holds the
  addresses of its rows (a missing row is a board array that is too short); no
  function of the search or of the rule engine assigns to an element of a board
  array after the array is built. Addresses cannot be observed in JavaScript, so a
  new object is allocated when it is complete rather than when the constructor is
  called. A cell that refers to no piece object reads as null; no function of the
  program builds such a store.
\<close>

type_synonym addr = nat

datatype obj = PieceObj piece | RowObj "(int \<times> addr option) list" | BoardObj "addr list"

type_synonym heap = "obj list"

definition alloc :: "heap \<Rightarrow> obj \<Rightarrow> heap \<times> addr" where
  "alloc h ob = (h @ [ob], length h)"

definition pieceAt :: "heap \<Rightarrow> addr \<Rightarrow> piece option" where
  "pieceAt h a = (if a < length h then (case h ! a of PieceObj p \<Rightarrow> Some p | _ \<Rightarrow> None) else None)"

definition cellsAt :: "heap \<Rightarrow> addr \<Rightarrow> (int \<times> addr option) list option" where
  "cellsAt h a = (if a < length h then (case h ! a of RowObj cs \<Rightarrow> Some cs | _ \<Rightarrow> None) else None)"

definition rowsAt :: "heap \<Rightarrow> addr \<Rightarrow> addr list option" where
  "rowsAt h a = (if a < length h then (case h ! a of BoardObj rs \<Rightarrow> Some rs | _ \<Rightarrow> None) else None)"

text \<open>\<^verbatim>\<open>board[y]\<close>: the address of the row and its cells, or \<open>None\<close> for undefined.\<close>

definition rowOf :: "heap \<Rightarrow> addr \<Rightarrow> int \<Rightarrow> (addr \<times> (int \<times> addr option) list) option" where
  "rowOf h b y =
     (case rowsAt h b of
        None \<Rightarrow> None
      | Some rs \<Rightarrow>
          if 0 \<le> y \<and> nat y < length rs
          then (case cellsAt h (rs ! nat y) of
                  None \<Rightarrow> None
                | Some cs \<Rightarrow> Some (rs ! nat y, cs))
          else None)"

text \<open>\<^verbatim>\<open>row[x]\<close>: the address of the piece object and its fields, or \<open>None\<close>.\<close>

definition pieceOfCell :: "heap \<Rightarrow> (int \<times> addr option) list \<Rightarrow> int \<Rightarrow> (addr \<times> piece) option" where
  "pieceOfCell h cs x =
     (case map_of cs x of
        None \<Rightarrow> None
      | Some None \<Rightarrow> None
      | Some (Some a) \<Rightarrow> (case pieceAt h a of None \<Rightarrow> None | Some p \<Rightarrow> Some (a, p)))"

text \<open>
  The board of the value model that a board array of the store stands for: its rows,
  each with the eight columns of the grid.
\<close>

definition snap :: "heap \<Rightarrow> addr \<Rightarrow> board" where
  "snap h b =
     (case rowsAt h b of
        None \<Rightarrow> []
      | Some rs \<Rightarrow>
          map (\<lambda>r. case cellsAt h r of
                      None \<Rightarrow> []
                    | Some cs \<Rightarrow> map (\<lambda>x. map_option snd (pieceOfCell h cs x)) idx8)
            rs)"

text \<open>
  The write \<^verbatim>\<open>board[y][x] = v\<close> with no check before it: it throws when the row is
  missing. What is returned is the store, also when the write throws.
\<close>

definition writeCellH :: "heap \<Rightarrow> addr \<Rightarrow> int \<Rightarrow> int \<Rightarrow> addr option \<Rightarrow> heap \<times> (error + unit)" where
  "writeCellH h b x y v =
     (case rowOf h b y of
        None \<Rightarrow> (h, Inl TypeError)
      | Some (r, cs) \<Rightarrow> (h[r := RowObj ((x, v) # cs)], Inr ()))"

text \<open>
  \<^verbatim>\<open>if (board[y] && board[y][x]) board[y][x] = null\<close>, as both simulations clear the
  captured square.
\<close>

definition clearCellH :: "heap \<Rightarrow> addr \<Rightarrow> int \<Rightarrow> int \<Rightarrow> heap" where
  "clearCellH h b x y =
     (case rowOf h b y of
        None \<Rightarrow> h
      | Some (r, cs) \<Rightarrow>
          (case pieceOfCell h cs x of
             None \<Rightarrow> h
           | Some found \<Rightarrow> h[r := RowObj ((x, None) # cs)]))"

subsection \<open>copyBoard\<close>

text \<open>
  The inner loop of both \<^verbatim>\<open>copyBoard\<close> functions: a new piece object for every
  piece of the row. \<open>row\<close> is \<^verbatim>\<open>board[y]\<close>.
\<close>

fun copyCells ::
  "heap \<Rightarrow> (addr \<times> (int \<times> addr option) list) option \<Rightarrow> int list \<Rightarrow>
   heap \<times> (int \<times> addr option) list" where
  "copyCells h row [] = (h, [])"
| "copyCells h row (x # xs) =
     (case (case row of None \<Rightarrow> None | Some (r, cs) \<Rightarrow> pieceOfCell h cs x) of
        None \<Rightarrow> (case copyCells h row xs of (h', out) \<Rightarrow> (h', (x, None) # out))
      | Some (a, p) \<Rightarrow>
          (case alloc h (PieceObj p) of
             (h1, a') \<Rightarrow> (case copyCells h1 row xs of (h', out) \<Rightarrow> (h', (x, Some a') # out))))"

text \<open>\<^verbatim>\<open>copyBoard\<close> of rules.js: a missing row is copied as an empty row.\<close>

fun copyRows :: "heap \<Rightarrow> addr \<Rightarrow> int list \<Rightarrow> heap \<times> addr list" where
  "copyRows h b [] = (h, [])"
| "copyRows h b (y # ys) =
     (case copyCells h (rowOf h b y) idx8 of
        (h1, cs) \<Rightarrow>
          (case alloc h1 (RowObj cs) of
             (h2, r) \<Rightarrow> (case copyRows h2 b ys of (h', rs) \<Rightarrow> (h', r # rs))))"

definition copyBoardH :: "heap \<Rightarrow> addr \<Rightarrow> heap \<times> addr" where
  "copyBoardH h b = (case copyRows h b idx8 of (h1, rs) \<Rightarrow> alloc h1 (BoardObj rs))"

text \<open>\<^verbatim>\<open>copyBoard\<close> of chess-ai.js: reading \<^verbatim>\<open>row[x]\<close> of a missing row throws.\<close>

fun copyRowsAI :: "heap \<Rightarrow> addr \<Rightarrow> int list \<Rightarrow> heap \<times> (error + addr list)" where
  "copyRowsAI h b [] = (h, Inr [])"
| "copyRowsAI h b (y # ys) =
     (case rowOf h b y of
        None \<Rightarrow> (h, Inl TypeError)
      | Some row \<Rightarrow>
          (case copyCells h (Some row) idx8 of
             (h1, cs) \<Rightarrow>
               (case alloc h1 (RowObj cs) of
                  (h2, r) \<Rightarrow>
                    (case copyRowsAI h2 b ys of
                       (h', Inl e) \<Rightarrow> (h', Inl e)
                     | (h', Inr rs) \<Rightarrow> (h', Inr (r # rs))))))"

definition copyBoardAIH :: "heap \<Rightarrow> addr \<Rightarrow> heap \<times> (error + addr)" where
  "copyBoardAIH h b =
     (case copyRowsAI h b idx8 of
        (h1, Inl e) \<Rightarrow> (h1, Inl e)
      | (h1, Inr rs) \<Rightarrow> (case alloc h1 (BoardObj rs) of (h2, nb) \<Rightarrow> (h2, Inr nb)))"

subsection \<open>simulateMove\<close>

text \<open>
  \<^verbatim>\<open>simulateMove\<close> of chess-ai.js on the store: it writes the cells of the board it is
  given and, on promotion, the piece object that it moved. The hash it returns does
  not depend on the store beyond what \<open>simulateMove\<close> of the value model reads and is
  left out.
\<close>

definition simulateMoveH :: "heap \<Rightarrow> addr \<Rightarrow> aimove \<Rightarrow> heap \<times> (error + unit)" where
  "simulateMoveH h b move =
     (case rowOf h b (fromY move) of
        None \<Rightarrow> (h, Inr ())
      | Some (rf, cf) \<Rightarrow>
          (case pieceOfCell h cf (fromX move) of
             None \<Rightarrow> (h, Inr ())
           | Some (pa, p) \<Rightarrow>
               let h1 = (if isJump move
                         then (case (captureX move, captureY move) of
                                 (Some capX, Some capY) \<Rightarrow>
                                   if isInBounds capX capY then clearCellH h b capX capY else h
                               | _ \<Rightarrow> h)
                         else h)
               in (case writeCellH h1 b (toX move) (toY move) (Some pa) of
                     (h2, Inl e) \<Rightarrow> (h2, Inl e)
                   | (h2, Inr u) \<Rightarrow>
                       (case writeCellH h2 b (fromX move) (fromY move) None of
                          (h3, Inl e) \<Rightarrow> (h3, Inl e)
                        | (h3, Inr u') \<Rightarrow>
                            if \<not> isKing p \<and> shouldPromote (color p) (toY move)
                            then (h3[pa := PieceObj (p\<lparr>isKing := True\<rparr>)], Inr ())
                            else (h3, Inr ())))))"

subsection \<open>findPaths\<close>

text \<open>
  One round of the loop over \<^verbatim>\<open>singleJumps\<close> in \<^verbatim>\<open>findPaths\<close>, up to the point where
  the path is pushed or \<^verbatim>\<open>findPaths\<close> is called again: the result is \<open>None\<close> when the
  round ends there (\<^verbatim>\<open>continue\<close>, or a promotion), and otherwise the arguments of the
  recursive call: the new board, the landing square and the piece object on it.
\<close>

definition jumpStepH ::
  "heap \<Rightarrow> addr \<Rightarrow> int \<times> int \<Rightarrow> move \<Rightarrow> heap \<times> (error + (addr \<times> (int \<times> int) \<times> addr) option)" where
  "jumpStepH h b pos jump =
     (if length jump \<noteq> 4 then (h, Inr None)
      else
        let nextX = jump ! 0; nextY = jump ! 1; capX = jump ! 2; capY = jump ! 3 in
        (case copyBoardH h b of
           (h1, nextBoard) \<Rightarrow>
             (case rowOf h1 nextBoard (snd pos) of
                None \<Rightarrow> (h1, Inl TypeError)
              | Some (rp, cp) \<Rightarrow>
                  (case pieceOfCell h1 cp (fst pos) of
                     None \<Rightarrow> (h1, Inr None)
                   | Some (pm, pieceToMove) \<Rightarrow>
                       if \<not> isInBounds capX capY then (h1, Inr None)
                       else if \<not> isInBounds nextX nextY then (h1, Inr None)
                       else
                         (case alloc h1 (PieceObj pieceToMove) of
                            (h2, pn) \<Rightarrow>
                              (case writeCellH h2 nextBoard nextX nextY (Some pn) of
                                 (h3, Inl e) \<Rightarrow> (h3, Inl e)
                               | (h3, Inr u) \<Rightarrow>
                                   (case writeCellH h3 nextBoard (fst pos) (snd pos) None of
                                      (h4, Inl e) \<Rightarrow> (h4, Inl e)
                                    | (h4, Inr u') \<Rightarrow>
                                        let h5 = clearCellH h4 nextBoard capX capY in
                                        (case rowOf h5 nextBoard nextY of
                                           None \<Rightarrow> (h5, Inl TypeError)
                                         | Some (rn, cn) \<Rightarrow>
                                             (case pieceOfCell h5 cn nextX of
                                                None \<Rightarrow> (h5, Inl TypeError)
                                              | Some (pj, pieceAfterJump) \<Rightarrow>
                                                  if \<not> isKing pieceAfterJump \<and>
                                                     shouldPromote (color pieceAfterJump) nextY
                                                  then (h5[pj := PieceObj (pieceAfterJump\<lparr>isKing := True\<rparr>)],
                                                        Inr None)
                                                  else (h5, Inr (Some (nextBoard, (nextX, nextY), pj))))))))))))"

text \<open>A board of the value model put into the store, for examples.\<close>

fun storeCells :: "heap \<Rightarrow> int \<Rightarrow> square list \<Rightarrow> heap \<times> (int \<times> addr option) list" where
  "storeCells h x [] = (h, [])"
| "storeCells h x (None # cs) =
     (case storeCells h (x + 1) cs of (h', out) \<Rightarrow> (h', (x, None) # out))"
| "storeCells h x (Some p # cs) =
     (case alloc h (PieceObj p) of
        (h1, a) \<Rightarrow> (case storeCells h1 (x + 1) cs of (h', out) \<Rightarrow> (h', (x, Some a) # out)))"

fun storeRows :: "heap \<Rightarrow> board \<Rightarrow> heap \<times> addr list" where
  "storeRows h [] = (h, [])"
| "storeRows h (row # rows) =
     (case storeCells h 0 row of
        (h1, cs) \<Rightarrow>
          (case alloc h1 (RowObj cs) of
             (h2, r) \<Rightarrow> (case storeRows h2 rows of (h', rs) \<Rightarrow> (h', r # rs))))"

definition storeBoard :: "heap \<Rightarrow> board \<Rightarrow> heap \<times> addr" where
  "storeBoard h b = (case storeRows h b of (h1, rs) \<Rightarrow> alloc h1 (BoardObj rs))"


subsection \<open>What the store operations leave alone\<close>

text \<open>
  \<open>preserves h h'\<close>: every object of \<open>h\<close> is still there in \<open>h'\<close>, unchanged, at
  the same address. \<open>freshBoard n h b\<close>: the rows of the board \<open>b\<close> and the pieces ever
  assigned to their cells were all allocated at address \<open>n\<close> or later.
\<close>

definition preserves :: "heap \<Rightarrow> heap \<Rightarrow> bool" where
  "preserves h h' = (take (length h) h' = h)"

definition freshBoard :: "nat \<Rightarrow> heap \<Rightarrow> addr \<Rightarrow> bool" where
  "freshBoard n h b =
     (\<forall>y r cs. rowOf h b y = Some (r, cs) \<longrightarrow>
        n \<le> r \<and> (\<forall>x a. (x, Some a) \<in> set cs \<longrightarrow> n \<le> a))"

lemma preserves_refl: "preserves h h"
  by (simp add: preserves_def)

lemma preserves_length:
  assumes "preserves h h'"
  shows "length h \<le> length h'"
proof -
  from assms have "length (take (length h) h') = length h" by (simp add: preserves_def)
  then show ?thesis by simp
qed

lemma preserves_trans:
  assumes "preserves h h1" and "preserves h1 h2"
  shows "preserves h h2"
proof -
  from preserves_length[OF assms(1)] have l: "length h \<le> length h1" .
  have "take (length h) h2 = take (length h) (take (length h1) h2)"
    using l by (simp add: min_def)
  also have "\<dots> = take (length h) h1" using assms(2) by (simp add: preserves_def)
  also have "\<dots> = h" using assms(1) by (simp add: preserves_def)
  finally show ?thesis by (simp add: preserves_def)
qed

lemma preserves_append: "preserves h (h @ ext)"
  by (simp add: preserves_def)

lemma preserves_nth:
  assumes "preserves h h'" and "a < length h"
  shows "h' ! a = h ! a"
proof -
  from assms(2) have "take (length h) h' ! a = h' ! a" by simp
  with assms(1) show ?thesis by (simp add: preserves_def)
qed

lemma preserves_update:
  assumes "preserves h h1" and "length h \<le> a"
  shows "preserves h (h1[a := ob])"
  using assms by (simp add: preserves_def)

lemma rowsAt_Some: "rowsAt h b = Some rs \<longleftrightarrow> b < length h \<and> h ! b = BoardObj rs"
  by (auto simp: rowsAt_def split: obj.splits)

lemma cellsAt_Some: "cellsAt h r = Some cs \<longleftrightarrow> r < length h \<and> h ! r = RowObj cs"
  by (auto simp: cellsAt_def split: obj.splits)

lemma pieceAt_Some: "pieceAt h a = Some p \<longleftrightarrow> a < length h \<and> h ! a = PieceObj p"
  by (auto simp: pieceAt_def split: obj.splits)

lemma rowOf_Some:
  "rowOf h b y = Some (r, cs) \<longleftrightarrow>
   (\<exists>rs. rowsAt h b = Some rs \<and> 0 \<le> y \<and> nat y < length rs \<and> r = rs ! nat y \<and>
         cellsAt h r = Some cs)"
proof (cases "rowsAt h b")
  case None
  then show ?thesis by (simp add: rowOf_def)
next
  case (Some rs)
  show ?thesis
  proof (cases "0 \<le> y \<and> nat y < length rs")
    case False
    with Some show ?thesis by (auto simp: rowOf_def)
  next
    case True
    with Some show ?thesis
      by (cases "cellsAt h (rs ! nat y)") (auto simp: rowOf_def)
  qed
qed

lemma pieceOfCell_Some:
  "pieceOfCell h cs x = Some (a, p) \<Longrightarrow> (x, Some a) \<in> set cs \<and> pieceAt h a = Some p"
  by (auto simp: pieceOfCell_def split: option.splits dest: map_of_SomeD)

text \<open>Writing a row object or a piece object does not change which rows a board has.\<close>

lemma rowOf_update_row:
  assumes "cellsAt h r = Some cs"
  shows "rowOf (h[r := RowObj cs']) b y =
         (case rowOf h b y of
            None \<Rightarrow> None
          | Some (r', old) \<Rightarrow> Some (r', if r' = r then cs' else old))"
proof -
  from assms have r: "r < length h" "h ! r = RowObj cs" by (simp_all add: cellsAt_Some)
  have ra: "rowsAt (h[r := RowObj cs']) b = rowsAt h b"
    using r by (cases "b = r") (simp_all add: rowsAt_def)
  have ca: "cellsAt (h[r := RowObj cs']) r' = (if r' = r then Some cs' else cellsAt h r')" for r'
    using r by (simp add: cellsAt_def)
  show ?thesis
    using assms by (auto simp: rowOf_def ra ca split: option.splits)
qed

lemma rowOf_update_piece:
  assumes "pieceAt h a = Some p"
  shows "rowOf (h[a := PieceObj q]) b y = rowOf h b y"
proof -
  from assms have a: "a < length h" "h ! a = PieceObj p" by (simp_all add: pieceAt_Some)
  have ra: "rowsAt (h[a := PieceObj q]) b = rowsAt h b"
    using a by (cases "b = a") (simp_all add: rowsAt_def)
  have ca: "cellsAt (h[a := PieceObj q]) r = cellsAt h r" for r
    using a by (cases "r = a") (simp_all add: cellsAt_def)
  show ?thesis by (simp add: rowOf_def ra ca cong: option.case_cong if_cong)
qed

lemma rowOf_alloc_piece: "rowOf (h @ [PieceObj p]) b y = rowOf h b y"
proof -
  have ra: "rowsAt (h @ [PieceObj p]) b = rowsAt h b" for b
    by (simp add: rowsAt_def nth_append)
  have ca: "cellsAt (h @ [PieceObj p]) r = cellsAt h r" for r
    by (simp add: cellsAt_def nth_append)
  show ?thesis by (simp add: rowOf_def ra ca cong: option.case_cong if_cong)
qed

text \<open>
  A write to a cell of a fresh board touches no address below \<open>n\<close>, and the board
  stays fresh when what is written is null or a fresh piece.
\<close>

lemma setRow_fresh:
  assumes f: "freshBoard n h b" and r: "rowOf h b y = Some (r, cs)"
    and v: "\<And>x a. (x, Some a) \<in> set cs' \<Longrightarrow> (x, Some a) \<in> set cs \<or> n \<le> a"
  shows "take n (h[r := RowObj cs']) = take n h"
    and "length (h[r := RowObj cs']) = length h"
    and "freshBoard n (h[r := RowObj cs']) b"
proof -
  from f r have nr: "n \<le> r" and old: "\<And>x a. (x, Some a) \<in> set cs \<Longrightarrow> n \<le> a"
    by (auto simp: freshBoard_def)
  show "take n (h[r := RowObj cs']) = take n h" using nr by simp
  show "length (h[r := RowObj cs']) = length h" by simp
  from r have c: "cellsAt h r = Some cs" by (auto simp: rowOf_Some)
  show "freshBoard n (h[r := RowObj cs']) b"
    unfolding freshBoard_def
  proof (intro allI impI)
    fix y' r' cs''
    assume a: "rowOf (h[r := RowObj cs']) b y' = Some (r', cs'')"
    then obtain old' where o: "rowOf h b y' = Some (r', old')"
      and e: "cs'' = (if r' = r then cs' else old')"
      by (auto simp: rowOf_update_row[OF c] split: option.splits)
    from f o have n': "n \<le> r'" and oo: "\<And>x a. (x, Some a) \<in> set old' \<Longrightarrow> n \<le> a"
      by (auto simp: freshBoard_def)
    show "n \<le> r' \<and> (\<forall>x a. (x, Some a) \<in> set cs'' \<longrightarrow> n \<le> a)"
    proof (cases "r' = r")
      case True
      with e have "cs'' = cs'" by simp
      with n' v old show ?thesis by blast
    next
      case False
      with e have "cs'' = old'" by simp
      with n' oo show ?thesis by blast
    qed
  qed
qed

lemma writeCellH_fresh:
  assumes f: "freshBoard n h b" and w: "writeCellH h b x y v = (h', res)"
    and v: "\<And>a. v = Some a \<Longrightarrow> n \<le> a"
  shows "take n h' = take n h" and "length h' = length h" and "freshBoard n h' b"
proof -
  have "take n h' = take n h \<and> length h' = length h \<and> freshBoard n h' b"
  proof (cases "rowOf h b y")
    case None
    with w f show ?thesis by (simp add: writeCellH_def)
  next
    case (Some rc)
    obtain r cs where rc: "rc = (r, cs)" by (cases rc)
    from w Some rc have h': "h' = h[r := RowObj ((x, v) # cs)]"
      by (simp add: writeCellH_def)
    have k: "\<And>x' a. (x', Some a) \<in> set ((x, v) # cs) \<Longrightarrow> (x', Some a) \<in> set cs \<or> n \<le> a"
      using v by auto
    from setRow_fresh[where cs' = "(x, v) # cs", OF f Some[unfolded rc] k] h'
    show ?thesis by simp
  qed
  then show "take n h' = take n h" and "length h' = length h" and "freshBoard n h' b"
    by simp_all
qed

lemma clearCellH_fresh:
  assumes f: "freshBoard n h b"
  shows "take n (clearCellH h b x y) = take n h" and "length (clearCellH h b x y) = length h"
    and "freshBoard n (clearCellH h b x y) b"
proof -
  have "take n (clearCellH h b x y) = take n h \<and> length (clearCellH h b x y) = length h \<and>
        freshBoard n (clearCellH h b x y) b"
  proof (cases "rowOf h b y")
    case None
    with f show ?thesis by (simp add: clearCellH_def)
  next
    case (Some rc)
    obtain r cs where rc: "rc = (r, cs)" by (cases rc)
    show ?thesis
    proof (cases "pieceOfCell h cs x")
      case None
      with f Some rc show ?thesis by (simp add: clearCellH_def)
    next
      case (Some found)
      with \<open>rowOf h b y = Some rc\<close> rc
      have e: "clearCellH h b x y = h[r := RowObj ((x, None) # cs)]"
        by (simp add: clearCellH_def)
      have k: "\<And>x' a. (x', Some a) \<in> set ((x, None) # cs) \<Longrightarrow> (x', Some a) \<in> set cs \<or> n \<le> a"
        by auto
      from setRow_fresh[where cs' = "(x, None) # cs", OF f \<open>rowOf h b y = Some rc\<close>[unfolded rc] k] e
      show ?thesis by simp
    qed
  qed
  then show "take n (clearCellH h b x y) = take n h"
    and "length (clearCellH h b x y) = length h"
    and "freshBoard n (clearCellH h b x y) b" by simp_all
qed

text \<open>Both \<^verbatim>\<open>copyBoard\<close> functions only allocate, and the board they return is fresh.\<close>

lemma copyCells_ext:
  "copyCells h row xs = (h', out) \<Longrightarrow>
   (\<exists>ext. h' = h @ ext) \<and>
   (\<forall>x a. (x, Some a) \<in> set out \<longrightarrow> length h \<le> a \<and> a < length h')"
proof (induction xs arbitrary: h h' out)
  case Nil
  then show ?case by simp
next
  case (Cons x xs)
  show ?case
  proof (cases "case row of None \<Rightarrow> None | Some (r, cs) \<Rightarrow> pieceOfCell h cs x")
    case None
    obtain h2 out2 where r: "copyCells h row xs = (h2, out2)" by (cases "copyCells h row xs")
    with Cons.prems None have e: "h' = h2" "out = (x, None) # out2" by simp_all
    from Cons.IH[OF r] e show ?thesis by auto
  next
    case (Some ap)
    obtain a p where ap: "ap = (a, p)" by (cases ap)
    obtain h2 out2 where r: "copyCells (h @ [PieceObj p]) row xs = (h2, out2)"
      by (cases "copyCells (h @ [PieceObj p]) row xs")
    with Cons.prems Some ap have e: "h' = h2" "out = (x, Some (length h)) # out2"
      by (simp_all add: alloc_def)
    from Cons.IH[OF r] obtain ext where x: "h2 = (h @ [PieceObj p]) @ ext"
      and f: "\<forall>x a. (x, Some a) \<in> set out2 \<longrightarrow> length (h @ [PieceObj p]) \<le> a \<and> a < length h2"
      by blast
    from x have "h' = h @ ([PieceObj p] @ ext)" by (simp add: e)
    moreover have "\<forall>x a. (x, Some a) \<in> set out \<longrightarrow> length h \<le> a \<and> a < length h'"
      using f x by (fastforce simp: e)
    ultimately show ?thesis by blast
  qed
qed

definition freshRows :: "nat \<Rightarrow> heap \<Rightarrow> addr list \<Rightarrow> bool" where
  "freshRows n h rs =
     (\<forall>r \<in> set rs. n \<le> r \<and> r < length h \<and>
        (\<exists>cs. h ! r = RowObj cs \<and> (\<forall>x a. (x, Some a) \<in> set cs \<longrightarrow> n \<le> a)))"

lemma freshRows_append:
  assumes "freshRows n h rs"
  shows "freshRows n (h @ ext) rs"
  using assms by (auto simp: freshRows_def nth_append)

lemma freshRows_mono: "freshRows n h rs \<Longrightarrow> m \<le> n \<Longrightarrow> freshRows m h rs"
  by (fastforce simp: freshRows_def)

lemma newRow_fresh:
  assumes c: "copyCells h row xs = (h1, cs)"
  shows "freshRows (length h) (h1 @ [RowObj cs]) [length h1]"
proof -
  from copyCells_ext[OF c] obtain ext where x: "h1 = h @ ext"
    and f: "\<forall>x a. (x, Some a) \<in> set cs \<longrightarrow> length h \<le> a \<and> a < length h1" by blast
  from x have "length h \<le> length h1" by simp
  with f show ?thesis by (auto simp: freshRows_def)
qed

lemma copyRows_ext:
  "copyRows h b ys = (h', rs) \<Longrightarrow> (\<exists>ext. h' = h @ ext) \<and> freshRows (length h) h' rs"
proof (induction ys arbitrary: h h' rs)
  case Nil
  then show ?case by (simp add: freshRows_def)
next
  case (Cons y ys)
  obtain h1 cs where c: "copyCells h (rowOf h b y) idx8 = (h1, cs)"
    by (cases "copyCells h (rowOf h b y) idx8")
  obtain h2 rs2 where r: "copyRows (h1 @ [RowObj cs]) b ys = (h2, rs2)"
    by (cases "copyRows (h1 @ [RowObj cs]) b ys")
  from Cons.prems c r have e: "h' = h2" "rs = length h1 # rs2" by (simp_all add: alloc_def)
  from copyCells_ext[OF c] obtain ext1 where x1: "h1 = h @ ext1" by blast
  from Cons.IH[OF r] obtain ext2 where x2: "h2 = (h1 @ [RowObj cs]) @ ext2"
    and f2: "freshRows (length (h1 @ [RowObj cs])) h2 rs2" by blast
  have a: "h' = h @ (ext1 @ [RowObj cs] @ ext2)" using x1 x2 e by simp
  have "freshRows (length h) h2 [length h1]"
    using freshRows_append[OF newRow_fresh[OF c], of ext2] x2 by simp
  moreover have "freshRows (length h) h2 rs2"
    by (rule freshRows_mono[OF f2]) (simp add: x1)
  ultimately have "freshRows (length h) h' rs" by (simp add: freshRows_def e)
  with a show ?case by blast
qed

lemma copyRowsAI_ext:
  "copyRowsAI h b ys = (h', res) \<Longrightarrow>
   (\<exists>ext. h' = h @ ext) \<and> (\<forall>rs. res = Inr rs \<longrightarrow> freshRows (length h) h' rs)"
proof (induction ys arbitrary: h h' res)
  case Nil
  then show ?case by (auto simp: freshRows_def)
next
  case (Cons y ys)
  show ?case
  proof (cases "rowOf h b y")
    case None
    with Cons.prems show ?thesis by auto
  next
    case (Some row)
    obtain h1 cs where c: "copyCells h (Some row) idx8 = (h1, cs)"
      by (cases "copyCells h (Some row) idx8")
    obtain h2 res2 where r: "copyRowsAI (h1 @ [RowObj cs]) b ys = (h2, res2)"
      by (cases "copyRowsAI (h1 @ [RowObj cs]) b ys")
    from Cons.prems Some c r have e: "h' = h2"
      "res = (case res2 of Inl e \<Rightarrow> Inl e | Inr rs2 \<Rightarrow> Inr (length h1 # rs2))"
      by (auto simp: alloc_def split: sum.splits)
    from copyCells_ext[OF c] obtain ext1 where x1: "h1 = h @ ext1" by blast
    from Cons.IH[OF r] obtain ext2 where x2: "h2 = (h1 @ [RowObj cs]) @ ext2"
      and f2: "\<forall>rs. res2 = Inr rs \<longrightarrow> freshRows (length (h1 @ [RowObj cs])) h2 rs" by blast
    have a: "h' = h @ (ext1 @ [RowObj cs] @ ext2)" using x1 x2 e by simp
    have n: "freshRows (length h) h2 [length h1]"
      using freshRows_append[OF newRow_fresh[OF c], of ext2] x2 by simp
    have "freshRows (length h) h' rs" if "res = Inr rs" for rs
    proof -
      from that e obtain rs2 where rs2: "res2 = Inr rs2" "rs = length h1 # rs2"
        by (cases res2) auto
      from f2 rs2 have "freshRows (length (h1 @ [RowObj cs])) h2 rs2" by simp
      then have "freshRows (length h) h2 rs2" by (rule freshRows_mono) (simp add: x1)
      with n show ?thesis by (simp add: freshRows_def e rs2)
    qed
    with a show ?thesis by blast
  qed
qed

lemma newBoard_fresh:
  assumes "freshRows n h1 rs"
  shows "freshBoard n (h1 @ [BoardObj rs]) (length h1)"
  unfolding freshBoard_def
proof (intro allI impI)
  fix y r cs
  assume a: "rowOf (h1 @ [BoardObj rs]) (length h1) y = Some (r, cs)"
  then obtain rs' where rs': "rowsAt (h1 @ [BoardObj rs]) (length h1) = Some rs'"
    and y: "0 \<le> y" "nat y < length rs'" and r: "r = rs' ! nat y"
    and c: "cellsAt (h1 @ [BoardObj rs]) r = Some cs"
    by (auto simp: rowOf_Some)
  from rs' have "rs' = rs" by (simp add: rowsAt_def)
  with y r have "r \<in> set rs" by simp
  with assms obtain cs0 where r1: "n \<le> r" "r < length h1" "h1 ! r = RowObj cs0"
    and f: "\<forall>x a. (x, Some a) \<in> set cs0 \<longrightarrow> n \<le> a"
    by (auto simp: freshRows_def)
  from c r1 have "cs = cs0" by (simp add: cellsAt_def nth_append)
  with r1 f show "n \<le> r \<and> (\<forall>x a. (x, Some a) \<in> set cs \<longrightarrow> n \<le> a)" by simp
qed

lemma copyBoardH_fresh:
  assumes "copyBoardH h b = (h', nb)"
  shows "preserves h h'" and "freshBoard (length h) h' nb"
proof -
  obtain h1 rs where r: "copyRows h b idx8 = (h1, rs)" by (cases "copyRows h b idx8")
  with assms have e: "h' = h1 @ [BoardObj rs]" "nb = length h1"
    by (simp_all add: copyBoardH_def alloc_def)
  from copyRows_ext[OF r] obtain ext where x: "h1 = h @ ext"
    and f: "freshRows (length h) h1 rs" by blast
  from x e have "h' = h @ (ext @ [BoardObj rs])" by simp
  then show "preserves h h'" by (simp add: preserves_def)
  from newBoard_fresh[OF f] e show "freshBoard (length h) h' nb" by simp
qed

lemma copyBoardAIH_fresh:
  assumes "copyBoardAIH h b = (h', res)"
  shows "preserves h h'" and "res = Inr nb \<Longrightarrow> freshBoard (length h) h' nb"
proof -
  obtain h1 res1 where r: "copyRowsAI h b idx8 = (h1, res1)" by (cases "copyRowsAI h b idx8")
  from copyRowsAI_ext[OF r] obtain ext where x: "h1 = h @ ext"
    and f: "\<forall>rs. res1 = Inr rs \<longrightarrow> freshRows (length h) h1 rs" by blast
  show "preserves h h'"
  proof (cases res1)
    case (Inl e)
    with assms r have "h' = h1" by (simp add: copyBoardAIH_def)
    with x show ?thesis by (simp add: preserves_def)
  next
    case (Inr rs)
    with assms r have "h' = h1 @ [BoardObj rs]" by (simp add: copyBoardAIH_def alloc_def)
    with x have "h' = h @ (ext @ [BoardObj rs])" by simp
    then show ?thesis by (simp add: preserves_def)
  qed
  show "freshBoard (length h) h' nb" if "res = Inr nb"
  proof (cases res1)
    case (Inl e)
    with assms r that show ?thesis by (simp add: copyBoardAIH_def)
  next
    case (Inr rs)
    with assms r that have e: "h' = h1 @ [BoardObj rs]" "nb = length h1"
      by (simp_all add: copyBoardAIH_def alloc_def)
    from f Inr have "freshRows (length h) h1 rs" by simp
    from newBoard_fresh[OF this] e show ?thesis by simp
  qed
qed

text \<open>
  \<^verbatim>\<open>simulateMove\<close> writes the board it is given: on a fresh board it touches no
  address below \<open>n\<close>.
\<close>

lemma simulateMoveH_fresh:
  assumes f: "freshBoard n h b" and s: "simulateMoveH h b m = (h', res)"
  shows "take n h' = take n h \<and> length h' = length h"
proof (cases "rowOf h b (fromY m)")
  case None
  with s show ?thesis by (simp add: simulateMoveH_def)
next
  case (Some rc)
  obtain rf cf where rc: "rc = (rf, cf)" by (cases rc)
  show ?thesis
  proof (cases "pieceOfCell h cf (fromX m)")
    case None
    with s Some rc show ?thesis by (simp add: simulateMoveH_def)
  next
    case (Some pp)
    obtain pa p where pp: "pp = (pa, p)" by (cases pp)
    from pieceOfCell_Some[OF Some[unfolded pp]] f \<open>rowOf h b (fromY m) = Some rc\<close> rc
    have pa: "n \<le> pa" by (auto simp: freshBoard_def)
    define h1 where "h1 = (if isJump m
                         then (case (captureX m, captureY m) of
                                 (Some capX, Some capY) \<Rightarrow>
                                   if isInBounds capX capY then clearCellH h b capX capY else h
                               | _ \<Rightarrow> h)
                         else h)"
    have c1: "take n h1 = take n h \<and> length h1 = length h \<and> freshBoard n h1 b"
      using f clearCellH_fresh[OF f]
      by (auto simp: h1_def split: option.splits)
    obtain h2 r2 where w2: "writeCellH h1 b (toX m) (toY m) (Some pa) = (h2, r2)"
      by (cases "writeCellH h1 b (toX m) (toY m) (Some pa)")
    from c1 have f1: "freshBoard n h1 b" by simp
    from writeCellH_fresh[OF f1 w2] pa
    have c2: "take n h2 = take n h1" "length h2 = length h1" "freshBoard n h2 b" by simp_all
    obtain h3 r3 where w3: "writeCellH h2 b (fromX m) (fromY m) None = (h3, r3)"
      by (cases "writeCellH h2 b (fromX m) (fromY m) None")
    from writeCellH_fresh[OF c2(3) w3]
    have c3: "take n h3 = take n h2" "length h3 = length h2" by simp_all
    have r: "(h', res) =
          (case r2 of
             Inl e \<Rightarrow> (h2, Inl e)
           | Inr u \<Rightarrow>
               (case r3 of
                  Inl e \<Rightarrow> (h3, Inl e)
                | Inr u' \<Rightarrow>
                    if \<not> isKing p \<and> shouldPromote (color p) (toY m)
                    then (h3[pa := PieceObj (p\<lparr>isKing := True\<rparr>)], Inr ())
                    else (h3, Inr ())))"
      using s \<open>rowOf h b (fromY m) = Some rc\<close> rc Some pp w2 w3
      unfolding simulateMoveH_def h1_def[symmetric] Let_def
      by (simp add: h1_def[symmetric] split: sum.splits)
    have "h' = h2 \<or> h' = h3 \<or> h' = h3[pa := PieceObj (p\<lparr>isKing := True\<rparr>)]"
      using r by (auto split: sum.splits if_splits)
    with c1 c2 c3 pa show ?thesis by auto
  qed
qed

text \<open>
  A simulation on a copy: what \<^verbatim>\<open>searchMove\<close>, \<^verbatim>\<open>quiescenceSearch\<close> and the
  \<^verbatim>\<open>tempBoard\<close> statements do with the board they are given.
\<close>

lemma copy_simulate_preserves:
  assumes c: "copyBoardAIH h b = (h1, Inr bc)" and s: "simulateMoveH h1 bc m = (h2, res)"
  shows "preserves h h2"
proof -
  note f = copyBoardAIH_fresh[OF c]
  from simulateMoveH_fresh[OF f(2)[OF refl] s]
  have "take (length h) h2 = take (length h) h1" by simp
  with f(1) show ?thesis by (simp add: preserves_def)
qed

text \<open>One round of the loop of \<^verbatim>\<open>findPaths\<close> writes only what it has allocated.\<close>

lemma jumpStepH_preserves:
  assumes "jumpStepH h b pos j = (h', res)"
  shows "preserves h h'"
proof (cases "length j \<noteq> 4")
  case True
  with assms show ?thesis by (simp add: jumpStepH_def preserves_def)
next
  case l: False
  obtain h1 nb where c: "copyBoardH h b = (h1, nb)" by (cases "copyBoardH h b")
  note f = copyBoardH_fresh[OF c]
  let ?n = "length h"
  have k: "take ?n g = take ?n h1 \<Longrightarrow> preserves h g" for g
    using f(1) by (simp add: preserves_def)
  show ?thesis
  proof (cases "rowOf h1 nb (snd pos)")
    case None
    with assms l c have "h' = h1" by (simp add: jumpStepH_def Let_def)
    with f(1) show ?thesis by simp
  next
    case (Some rc)
    obtain rp cp where rc: "rc = (rp, cp)" by (cases rc)
    show ?thesis
    proof (cases "pieceOfCell h1 cp (fst pos)")
      case None
      with assms l c Some rc have "h' = h1" by (simp add: jumpStepH_def Let_def)
      with f(1) show ?thesis by simp
    next
      case (Some pp)
      obtain pm pieceToMove where pp: "pp = (pm, pieceToMove)" by (cases pp)
      show ?thesis
      proof (cases "isInBounds (j ! 2) (j ! 3) \<and> isInBounds (j ! 0) (j ! 1)")
        case False
        with assms l c \<open>rowOf h1 nb (snd pos) = Some rc\<close> rc Some pp have "h' = h1"
          by (auto simp: jumpStepH_def Let_def split: if_splits)
        with f(1) show ?thesis by simp
      next
        case True
        define h2 where "h2 = h1 @ [PieceObj pieceToMove]"
        have a2: "alloc h1 (PieceObj pieceToMove) = (h2, length h1)"
          by (simp add: alloc_def h2_def)
        have n1: "?n \<le> length h1" using preserves_length[OF f(1)] .
        have f2: "freshBoard ?n h2 nb"
          using f(2) by (simp add: freshBoard_def h2_def rowOf_alloc_piece)
        have t2: "take ?n h2 = take ?n h1" using n1 by (simp add: h2_def)
        obtain h3 r3 where w3: "writeCellH h2 nb (j ! 0) (j ! 1) (Some (length h1)) = (h3, r3)"
          by (cases "writeCellH h2 nb (j ! 0) (j ! 1) (Some (length h1))")
        from writeCellH_fresh[OF f2 w3] n1
        have c3: "take ?n h3 = take ?n h2" "freshBoard ?n h3 nb" by simp_all
        obtain h4 r4 where w4: "writeCellH h3 nb (fst pos) (snd pos) None = (h4, r4)"
          by (cases "writeCellH h3 nb (fst pos) (snd pos) None")
        from writeCellH_fresh[OF c3(2) w4]
        have c4: "take ?n h4 = take ?n h3" "freshBoard ?n h4 nb" by simp_all
        define h5 where "h5 = clearCellH h4 nb (j ! 2) (j ! 3)"
        from clearCellH_fresh[OF c4(2), of "j ! 2" "j ! 3"]
        have c5: "take ?n h5 = take ?n h4" "freshBoard ?n h5 nb" by (simp_all add: h5_def)
        have r: "(h', res) =
          (case r3 of
             Inl e \<Rightarrow> (h3, Inl e)
           | Inr u \<Rightarrow>
               (case r4 of
                  Inl e \<Rightarrow> (h4, Inl e)
                | Inr u' \<Rightarrow>
                    (case rowOf h5 nb (j ! 1) of
                       None \<Rightarrow> (h5, Inl TypeError)
                     | Some (rn, cn) \<Rightarrow>
                         (case pieceOfCell h5 cn (j ! 0) of
                            None \<Rightarrow> (h5, Inl TypeError)
                          | Some (pj, pieceAfterJump) \<Rightarrow>
                              if \<not> isKing pieceAfterJump \<and>
                                 shouldPromote (color pieceAfterJump) (j ! 1)
                              then (h5[pj := PieceObj (pieceAfterJump\<lparr>isKing := True\<rparr>)],
                                    Inr None)
                              else (h5, Inr (Some (nb, (j ! 0, j ! 1), pj)))))))"
          using assms l c \<open>rowOf h1 nb (snd pos) = Some rc\<close> rc Some pp True a2 w3 w4
          unfolding jumpStepH_def Let_def h5_def
          by (simp split: sum.splits)
        have "take ?n h' = take ?n h1"
        proof (cases r3)
          case (Inl e)
          with r have "h' = h3" by simp
          with c3 t2 show ?thesis by simp
        next
          case u3: (Inr u)
          show ?thesis
          proof (cases r4)
            case (Inl e)
            with r u3 have "h' = h4" by simp
            with c4 c3 t2 show ?thesis by simp
          next
            case u4: (Inr u')
            show ?thesis
            proof (cases "rowOf h5 nb (j ! 1)")
              case None
              with r u3 u4 have "h' = h5" by simp
              with c5 c4 c3 t2 show ?thesis by simp
            next
              case (Some rcn)
              obtain rn cn where rcn: "rcn = (rn, cn)" by (cases rcn)
              show ?thesis
              proof (cases "pieceOfCell h5 cn (j ! 0)")
                case None
                with r u3 u4 Some rcn have "h' = h5" by simp
                with c5 c4 c3 t2 show ?thesis by simp
              next
                case pq: (Some pq)
                obtain pj q where pjq: "pq = (pj, q)" by (cases pq)
                from pieceOfCell_Some[OF pq[unfolded pjq]] c5(2) Some rcn
                have "?n \<le> pj" by (auto simp: freshBoard_def)
                moreover from r u3 u4 Some rcn pq pjq
                have "h' = h5 \<or> h' = h5[pj := PieceObj (q\<lparr>isKing := True\<rparr>)]"
                  by (auto split: if_splits)
                ultimately show ?thesis using c5 c4 c3 t2 by auto
              qed
            qed
          qed
        qed
        then show ?thesis by (rule k)
      qed
    qed
  qed
qed

subsection \<open>The calls of the search\<close>

text \<open>
  A call either returns or throws, and leaves a store. \<open>runs h call c h'\<close> says that
  \<open>call\<close>, started in the store \<open>h\<close>, can end with \<open>c\<close> in the store \<open>h'\<close>. Scores,
  bounds, the transposition table and the clock are not in the store. What they
  decide (which of the generated moves is searched next, whether a move is searched
  again with a full window, whether \<^verbatim>\<open>tempBoard\<close> is built for a new best move, when
  a loop is left, when the time limit throws) is left open: the relation has a rule
  for each way. What the board decides is modelled as the source has it.

  \<open>FindPaths\<close>, \<open>JumpLoop\<close>: \<^verbatim>\<open>findPaths\<close> of \<^verbatim>\<open>getJumpMoves\<close> and its loop over
  \<^verbatim>\<open>singleJumps\<close>. \<open>FirstPass\<close>: the first pair of loops of \<^verbatim>\<open>getAllPossibleMoves\<close>
  over the squares still to visit; the second pass only reads. \<open>Generate\<close>: the
  moves with jumps only, then, if there are none, all moves. \<open>SearchMove\<close>:
  \<^verbatim>\<open>searchMove\<close>. \<open>TempBoard\<close>: \<^verbatim>\<open>tempBoard = copyBoard(board)\<close> followed by
  \<^verbatim>\<open>simulateMove(tempBoard, move, ...)\<close>. \<open>Minimax\<close> and \<open>MoveLoop\<close>: \<^verbatim>\<open>minimax\<close> and
  its search of the generated moves. \<open>QuiescenceSearch\<close>, \<open>CaptureLoop\<close> and
  \<open>CaptureBranch\<close>: \<^verbatim>\<open>quiescenceSearch\<close>, its loop and one round of it.
  \<open>FindBestMoveAtDepth\<close>: \<^verbatim>\<open>findBestMoveAtDepth\<close>. \<open>MakeMoveSearch\<close>: \<^verbatim>\<open>makeMove\<close>
  up to the point where the chosen move is handed to the controller.
\<close>

datatype completion = Returned | Thrown

datatype call =
    FindPaths addr "int \<times> int" addr
  | JumpLoop addr "int \<times> int" "move list"
  | FirstPass addr color "(int \<times> int) list"
  | GetAllPossibleMoves addr color bool
  | Generate addr color
  | SearchMove addr aimove color
  | TempBoard addr aimove
  | Minimax addr color
  | MoveLoop addr color
  | QuiescenceSearch addr color
  | CaptureLoop addr color
  | CaptureBranch addr aimove color
  | FindBestMoveAtDepth addr color
  | MakeMoveSearch addr color

text \<open>
  The colour for which \<^verbatim>\<open>searchMove\<close> and \<^verbatim>\<open>quiescenceSearch\<close> go on after a
  simulated move: the same colour if a multi-jump continues, else the opponent.
\<close>

definition nextToMove :: "heap \<Rightarrow> addr \<Rightarrow> aimove \<Rightarrow> piece \<Rightarrow> color \<Rightarrow> color" where
  "nextToMove h boardCopy move pieceBeforeMove colr =
     (let pieceAfterMove =
            (case rowOf h boardCopy (toY move) of
               None \<Rightarrow> None
             | Some (r, cs) \<Rightarrow> map_option snd (pieceOfCell h cs (toX move)));
          promoted =
            (case pieceAfterMove of
               None \<Rightarrow> False
             | Some pa \<Rightarrow> \<not> isKing pieceBeforeMove \<and> shouldPromote (color pa) (toY move))
      in if jumpContinues (snap h boardCopy) (isJump move) promoted (toX move) (toY move)
              pieceAfterMove
         then colr else opponentOf colr)"

inductive runs :: "heap \<Rightarrow> call \<Rightarrow> completion \<Rightarrow> heap \<Rightarrow> bool" where
  fp_stop:
    "pieceAt h pa = Some p \<Longrightarrow> findSingleJumps (snap h b) pos p = [] \<Longrightarrow>
     runs h (FindPaths b pos pa) Returned h"
| fp_loop:
    "pieceAt h pa = Some p \<Longrightarrow> findSingleJumps (snap h b) pos p = js \<Longrightarrow> js \<noteq> [] \<Longrightarrow>
     runs h (JumpLoop b pos js) c h' \<Longrightarrow>
     runs h (FindPaths b pos pa) c h'"
| jl_end:
    "runs h (JumpLoop b pos []) Returned h"
| jl_throw:
    "jumpStepH h b pos j = (h1, Inl e) \<Longrightarrow>
     runs h (JumpLoop b pos (j # js)) Thrown h1"
| jl_next:
    "jumpStepH h b pos j = (h1, Inr None) \<Longrightarrow>
     runs h1 (JumpLoop b pos js) c h' \<Longrightarrow>
     runs h (JumpLoop b pos (j # js)) c h'"
| jl_deeper:
    "jumpStepH h b pos j = (h1, Inr (Some (nextBoard, nextPos, pieceAfterJump))) \<Longrightarrow>
     runs h1 (FindPaths nextBoard nextPos pieceAfterJump) Returned h2 \<Longrightarrow>
     runs h2 (JumpLoop b pos js) c h' \<Longrightarrow>
     runs h (JumpLoop b pos (j # js)) c h'"
| jl_deeper_throw:
    "jumpStepH h b pos j = (h1, Inr (Some (nextBoard, nextPos, pieceAfterJump))) \<Longrightarrow>
     runs h1 (FindPaths nextBoard nextPos pieceAfterJump) Thrown h2 \<Longrightarrow>
     runs h (JumpLoop b pos (j # js)) Thrown h2"
| pass_end:
    "runs h (FirstPass b colr []) Returned h"
| pass_no_row:
    "rowOf h b y = None \<Longrightarrow>
     runs h (FirstPass b colr ((x, y) # sqs)) Thrown h"
| pass_skip:
    "rowOf h b y = Some (r, cs) \<Longrightarrow>
     (case pieceOfCell h cs x of None \<Rightarrow> True | Some (pa, p) \<Rightarrow> color p \<noteq> colr) \<Longrightarrow>
     runs h (FirstPass b colr sqs) c h' \<Longrightarrow>
     runs h (FirstPass b colr ((x, y) # sqs)) c h'"
| pass_piece:
    "rowOf h b y = Some (r, cs) \<Longrightarrow> pieceOfCell h cs x = Some (pa, p) \<Longrightarrow> color p = colr \<Longrightarrow>
     runs h (FindPaths b (x, y) pa) Returned h1 \<Longrightarrow>
     runs h1 (FirstPass b colr sqs) c h' \<Longrightarrow>
     runs h (FirstPass b colr ((x, y) # sqs)) c h'"
| pass_piece_throw:
    "rowOf h b y = Some (r, cs) \<Longrightarrow> pieceOfCell h cs x = Some (pa, p) \<Longrightarrow> color p = colr \<Longrightarrow>
     runs h (FindPaths b (x, y) pa) Thrown h1 \<Longrightarrow>
     runs h (FirstPass b colr ((x, y) # sqs)) Thrown h1"
| moves_found:
    "runs h (FirstPass b colr squares) c h' \<Longrightarrow>
     runs h (GetAllPossibleMoves b colr jumpsOnly) c h'"
| moves_second_pass_throw:
    "runs h (FirstPass b colr squares) Returned h' \<Longrightarrow>
     runs h (GetAllPossibleMoves b colr False) Thrown h'"
| gen_jumps:
    "runs h (GetAllPossibleMoves b colr True) c h' \<Longrightarrow>
     runs h (Generate b colr) c h'"
| gen_regular:
    "runs h (GetAllPossibleMoves b colr True) Returned h1 \<Longrightarrow>
     runs h1 (GetAllPossibleMoves b colr False) c h' \<Longrightarrow>
     runs h (Generate b colr) c h'"
| sm_copy_throw:
    "copyBoardAIH h b = (h1, Inl e) \<Longrightarrow>
     runs h (SearchMove b move colr) Thrown h1"
| sm_read_throw:
    "copyBoardAIH h b = (h1, Inr boardCopy) \<Longrightarrow> rowOf h1 b (fromY move) = None \<Longrightarrow>
     runs h (SearchMove b move colr) Thrown h1"
| sm_no_piece:
    "copyBoardAIH h b = (h1, Inr boardCopy) \<Longrightarrow> rowOf h1 b (fromY move) = Some (r, cs) \<Longrightarrow>
     pieceOfCell h1 cs (fromX move) = None \<Longrightarrow>
     runs h (SearchMove b move colr) Returned h1"
| sm_simulate_throw:
    "copyBoardAIH h b = (h1, Inr boardCopy) \<Longrightarrow> rowOf h1 b (fromY move) = Some (r, cs) \<Longrightarrow>
     pieceOfCell h1 cs (fromX move) = Some (pa, pieceBeforeMove) \<Longrightarrow>
     simulateMoveH h1 boardCopy move = (h2, Inl e) \<Longrightarrow>
     runs h (SearchMove b move colr) Thrown h2"
| sm_after_throw:
    "copyBoardAIH h b = (h1, Inr boardCopy) \<Longrightarrow> rowOf h1 b (fromY move) = Some (r, cs) \<Longrightarrow>
     pieceOfCell h1 cs (fromX move) = Some (pa, pieceBeforeMove) \<Longrightarrow>
     simulateMoveH h1 boardCopy move = (h2, Inr u) \<Longrightarrow>
     rowOf h2 boardCopy (toY move) = None \<Longrightarrow>
     runs h (SearchMove b move colr) Thrown h2"
| sm_minimax:
    "copyBoardAIH h b = (h1, Inr boardCopy) \<Longrightarrow> rowOf h1 b (fromY move) = Some (r, cs) \<Longrightarrow>
     pieceOfCell h1 cs (fromX move) = Some (pa, pieceBeforeMove) \<Longrightarrow>
     simulateMoveH h1 boardCopy move = (h2, Inr u) \<Longrightarrow>
     rowOf h2 boardCopy (toY move) \<noteq> None \<Longrightarrow>
     runs h2 (Minimax boardCopy (nextToMove h2 boardCopy move pieceBeforeMove colr)) c h' \<Longrightarrow>
     runs h (SearchMove b move colr) c h'"
| temp_copy_throw:
    "copyBoardAIH h b = (h1, Inl e) \<Longrightarrow>
     runs h (TempBoard b move) Thrown h1"
| temp_simulate:
    "copyBoardAIH h b = (h1, Inr tempBoard) \<Longrightarrow> simulateMoveH h1 tempBoard move = (h2, res) \<Longrightarrow>
     runs h (TempBoard b move) (case res of Inl e \<Rightarrow> Thrown | Inr u \<Rightarrow> Returned) h2"
| mm_throw:
    "runs h (Minimax b colr) Thrown h"
| mm_return:
    "runs h (Minimax b colr) Returned h"
| mm_quiescence:
    "runs h (QuiescenceSearch b colr) c h' \<Longrightarrow>
     runs h (Minimax b colr) c h'"
| mm_generate_throw:
    "runs h (Generate b colr) Thrown h' \<Longrightarrow>
     runs h (Minimax b colr) Thrown h'"
| mm_moves:
    "runs h (Generate b colr) Returned h1 \<Longrightarrow> runs h1 (MoveLoop b colr) c h' \<Longrightarrow>
     runs h (Minimax b colr) c h'"
| ml_end:
    "runs h (MoveLoop b colr) Returned h"
| ml_throw:
    "runs h (MoveLoop b colr) Thrown h"
| ml_search:
    "runs h (SearchMove b move colr) Returned h1 \<Longrightarrow> runs h1 (MoveLoop b colr) c h' \<Longrightarrow>
     runs h (MoveLoop b colr) c h'"
| ml_search_throw:
    "runs h (SearchMove b move colr) Thrown h' \<Longrightarrow>
     runs h (MoveLoop b colr) Thrown h'"
| ml_temp:
    "runs h (TempBoard b move) Returned h1 \<Longrightarrow> runs h1 (MoveLoop b colr) c h' \<Longrightarrow>
     runs h (MoveLoop b colr) c h'"
| ml_temp_throw:
    "runs h (TempBoard b move) Thrown h' \<Longrightarrow>
     runs h (MoveLoop b colr) Thrown h'"
| qs_throw:
    "runs h (QuiescenceSearch b colr) Thrown h"
| qs_return:
    "runs h (QuiescenceSearch b colr) Returned h"
| qs_generate_throw:
    "runs h (GetAllPossibleMoves b colr True) Thrown h' \<Longrightarrow>
     runs h (QuiescenceSearch b colr) Thrown h'"
| qs_captures:
    "runs h (GetAllPossibleMoves b colr True) Returned h1 \<Longrightarrow>
     runs h1 (CaptureLoop b colr) c h' \<Longrightarrow>
     runs h (QuiescenceSearch b colr) c h'"
| cl_end:
    "runs h (CaptureLoop b colr) Returned h"
| cl_throw:
    "runs h (CaptureLoop b colr) Thrown h"
| cl_branch:
    "runs h (CaptureBranch b move colr) Returned h1 \<Longrightarrow> runs h1 (CaptureLoop b colr) c h' \<Longrightarrow>
     runs h (CaptureLoop b colr) c h'"
| cl_branch_throw:
    "runs h (CaptureBranch b move colr) Thrown h' \<Longrightarrow>
     runs h (CaptureLoop b colr) Thrown h'"
| cb_copy_throw:
    "copyBoardAIH h b = (h1, Inl e) \<Longrightarrow>
     runs h (CaptureBranch b move colr) Thrown h1"
| cb_read_throw:
    "copyBoardAIH h b = (h1, Inr boardCopy) \<Longrightarrow> rowOf h1 b (fromY move) = None \<Longrightarrow>
     runs h (CaptureBranch b move colr) Thrown h1"
| cb_no_piece:
    "copyBoardAIH h b = (h1, Inr boardCopy) \<Longrightarrow> rowOf h1 b (fromY move) = Some (r, cs) \<Longrightarrow>
     pieceOfCell h1 cs (fromX move) = None \<Longrightarrow>
     runs h (CaptureBranch b move colr) Returned h1"
| cb_simulate_throw:
    "copyBoardAIH h b = (h1, Inr boardCopy) \<Longrightarrow> rowOf h1 b (fromY move) = Some (r, cs) \<Longrightarrow>
     pieceOfCell h1 cs (fromX move) = Some (pa, pieceBeforeMove) \<Longrightarrow>
     simulateMoveH h1 boardCopy move = (h2, Inl e) \<Longrightarrow>
     runs h (CaptureBranch b move colr) Thrown h2"
| cb_after_throw:
    "copyBoardAIH h b = (h1, Inr boardCopy) \<Longrightarrow> rowOf h1 b (fromY move) = Some (r, cs) \<Longrightarrow>
     pieceOfCell h1 cs (fromX move) = Some (pa, pieceBeforeMove) \<Longrightarrow>
     simulateMoveH h1 boardCopy move = (h2, Inr u) \<Longrightarrow>
     rowOf h2 boardCopy (toY move) = None \<Longrightarrow>
     runs h (CaptureBranch b move colr) Thrown h2"
| cb_quiescence:
    "copyBoardAIH h b = (h1, Inr boardCopy) \<Longrightarrow> rowOf h1 b (fromY move) = Some (r, cs) \<Longrightarrow>
     pieceOfCell h1 cs (fromX move) = Some (pa, pieceBeforeMove) \<Longrightarrow>
     simulateMoveH h1 boardCopy move = (h2, Inr u) \<Longrightarrow>
     rowOf h2 boardCopy (toY move) \<noteq> None \<Longrightarrow>
     runs h2 (QuiescenceSearch boardCopy (nextToMove h2 boardCopy move pieceBeforeMove colr)) c h' \<Longrightarrow>
     runs h (CaptureBranch b move colr) c h'"
| fb_generate_throw:
    "runs h (Generate b colr) Thrown h' \<Longrightarrow>
     runs h (FindBestMoveAtDepth b colr) Thrown h'"
| fb_moves:
    "runs h (Generate b colr) Returned h1 \<Longrightarrow> runs h1 (MoveLoop b colr) c h' \<Longrightarrow>
     runs h (FindBestMoveAtDepth b colr) c h'"
| mk_end:
    "runs h (MakeMoveSearch b colr) Returned h"
| mk_depth:
    "runs h (FindBestMoveAtDepth b colr) c1 h1 \<Longrightarrow> runs h1 (MakeMoveSearch b colr) c h' \<Longrightarrow>
     runs h (MakeMoveSearch b colr) c h'"
| mk_fallback:
    "runs h (Generate b colr) Returned h1 \<Longrightarrow> runs h1 (MakeMoveSearch b colr) c h' \<Longrightarrow>
     runs h (MakeMoveSearch b colr) c h'"
| mk_fallback_throw:
    "runs h (Generate b colr) Thrown h' \<Longrightarrow>
     runs h (MakeMoveSearch b colr) Thrown h'"

lemma runs_preserves: "runs h call c h' \<Longrightarrow> preserves h h'"
proof (induction rule: runs.induct)
  case (jl_throw h b pos j h1 e js)
  then show ?case by (simp add: jumpStepH_preserves)
next
  case (jl_next h b pos j h1 js c h')
  from jumpStepH_preserves[OF jl_next(1)] jl_next(3) show ?case by (rule preserves_trans)
next
  case (jl_deeper h b pos j h1 nextBoard nextPos pieceAfterJump h2 js c h')
  from jumpStepH_preserves[OF jl_deeper(1)] jl_deeper(4)
  have "preserves h h2" by (rule preserves_trans)
  from this jl_deeper(5) show ?case by (rule preserves_trans)
next
  case (jl_deeper_throw h b pos j h1 nextBoard nextPos pieceAfterJump h2 js)
  from jumpStepH_preserves[OF jl_deeper_throw(1)] jl_deeper_throw(3)
  show ?case by (rule preserves_trans)
next
  case (sm_copy_throw h b h1 e move colr)
  then show ?case by (simp add: copyBoardAIH_fresh(1))
next
  case (sm_read_throw h b h1 boardCopy move colr)
  then show ?case by (simp add: copyBoardAIH_fresh(1))
next
  case (sm_no_piece h b h1 boardCopy move r cs colr)
  then show ?case by (simp add: copyBoardAIH_fresh(1))
next
  case (sm_simulate_throw h b h1 boardCopy move r cs pa pieceBeforeMove h2 e colr)
  then show ?case by (simp add: copy_simulate_preserves)
next
  case (sm_after_throw h b h1 boardCopy move r cs pa pieceBeforeMove h2 u colr)
  then show ?case by (simp add: copy_simulate_preserves)
next
  case (sm_minimax h b h1 boardCopy move r cs pa pieceBeforeMove h2 u colr c h')
  from copy_simulate_preserves[OF sm_minimax(1) sm_minimax(4)] sm_minimax(7)
  show ?case by (rule preserves_trans)
next
  case (temp_copy_throw h b h1 e move)
  then show ?case by (simp add: copyBoardAIH_fresh(1))
next
  case (temp_simulate h b h1 tempBoard move h2 res)
  then show ?case by (simp add: copy_simulate_preserves)
next
  case (cb_copy_throw h b h1 e move colr)
  then show ?case by (simp add: copyBoardAIH_fresh(1))
next
  case (cb_read_throw h b h1 boardCopy move colr)
  then show ?case by (simp add: copyBoardAIH_fresh(1))
next
  case (cb_no_piece h b h1 boardCopy move r cs colr)
  then show ?case by (simp add: copyBoardAIH_fresh(1))
next
  case (cb_simulate_throw h b h1 boardCopy move r cs pa pieceBeforeMove h2 e colr)
  then show ?case by (simp add: copy_simulate_preserves)
next
  case (cb_after_throw h b h1 boardCopy move r cs pa pieceBeforeMove h2 u colr)
  then show ?case by (simp add: copy_simulate_preserves)
next
  case (cb_quiescence h b h1 boardCopy move r cs pa pieceBeforeMove h2 u colr c h')
  from copy_simulate_preserves[OF cb_quiescence(1) cb_quiescence(4)] cb_quiescence(7)
  show ?case by (rule preserves_trans)
qed (auto intro: preserves_refl preserves_trans)

text \<open>
  \<open>closedBoard h b\<close>: the board array \<open>b\<close>, its rows and the pieces in their cells
  are objects of the store \<open>h\<close>. Such a board stands for the same board of the value
  model in every store that preserves \<open>h\<close>.
\<close>

definition closedBoard :: "heap \<Rightarrow> addr \<Rightarrow> bool" where
  "closedBoard h b =
     (case rowsAt h b of
        None \<Rightarrow> False
      | Some rs \<Rightarrow>
          list_all (\<lambda>r. case cellsAt h r of
                          None \<Rightarrow> False
                        | Some cs \<Rightarrow> list_all (\<lambda>(x, c). case c of None \<Rightarrow> True
                                                          | Some a \<Rightarrow> a < length h) cs)
            rs)"

lemma preserves_reads:
  assumes "preserves h h'" and "a < length h"
  shows "rowsAt h' a = rowsAt h a" and "cellsAt h' a = cellsAt h a"
    and "pieceAt h' a = pieceAt h a"
  using preserves_nth[OF assms] preserves_length[OF assms(1)] assms(2)
  by (simp_all add: rowsAt_def cellsAt_def pieceAt_def)

lemma snap_preserved:
  assumes p: "preserves h h'" and c: "closedBoard h b"
  shows "snap h' b = snap h b"
proof -
  from c obtain rs where rs: "rowsAt h b = Some rs"
    and all: "list_all (\<lambda>r. case cellsAt h r of
                          None \<Rightarrow> False
                        | Some cs \<Rightarrow> list_all (\<lambda>(x, c). case c of None \<Rightarrow> True
                                                          | Some a \<Rightarrow> a < length h) cs) rs"
    by (auto simp: closedBoard_def split: option.splits)
  from rs have "b < length h" by (simp add: rowsAt_Some)
  from preserves_reads(1)[OF p this] rs have rs': "rowsAt h' b = Some rs" by simp
  have row: "(case cellsAt h' r of None \<Rightarrow> []
              | Some cs \<Rightarrow> map (\<lambda>x. map_option snd (pieceOfCell h' cs x)) idx8)
           = (case cellsAt h r of None \<Rightarrow> []
              | Some cs \<Rightarrow> map (\<lambda>x. map_option snd (pieceOfCell h cs x)) idx8)"
    if r: "r \<in> set rs" for r
  proof -
    from all r obtain cs where cs: "cellsAt h r = Some cs"
      and ok: "list_all (\<lambda>(x, c). case c of None \<Rightarrow> True | Some a \<Rightarrow> a < length h) cs"
      by (auto simp: list_all_iff split: option.splits)
    from cs have "r < length h" by (simp add: cellsAt_Some)
    from preserves_reads(2)[OF p this] cs have cs': "cellsAt h' r = Some cs" by simp
    have "pieceOfCell h' cs x = pieceOfCell h cs x" for x
    proof (cases "map_of cs x")
      case None
      then show ?thesis by (simp add: pieceOfCell_def)
    next
      case (Some v)
      show ?thesis
      proof (cases v)
        case None
        with Some show ?thesis by (simp add: pieceOfCell_def)
      next
        case (Some a)
        with \<open>map_of cs x = Some v\<close> have "(x, Some a) \<in> set cs" by (auto dest: map_of_SomeD)
        with ok have "a < length h" by (auto simp: list_all_iff)
        from preserves_reads(3)[OF p this] Some \<open>map_of cs x = Some v\<close>
        show ?thesis by (simp add: pieceOfCell_def)
      qed
    qed
    with cs cs' show ?thesis by simp
  qed
  show ?thesis
    unfolding snap_def rs rs' option.case
    by (rule map_cong[OF refl]) (rule row)
qed

text \<open>
  Claim C8. Whatever call of the search or of the move generators it uses is made
  (\<^verbatim>\<open>findPaths\<close> of \<^verbatim>\<open>getJumpMoves\<close>, \<^verbatim>\<open>getAllPossibleMoves\<close>, \<^verbatim>\<open>searchMove\<close>,
  \<^verbatim>\<open>minimax\<close>, \<^verbatim>\<open>quiescenceSearch\<close>, \<^verbatim>\<open>findBestMoveAtDepth\<close>, or the search part
  of \<^verbatim>\<open>makeMove\<close> before the chosen move goes to the controller), and whether it
  returns or throws, every object that was in the store when the call started is
  unchanged when it ends: all writes go to objects the call has allocated itself.
  So every board of the store, the board passed to the call and the live board among
  them, stands for the same position afterwards.
\<close>

theorem search_leaves_boards_unchanged:
  "runs h call c h' \<longrightarrow> preserves h h' \<and> (closedBoard h b \<longrightarrow> snap h' b = snap h b)"
proof
  assume "runs h call c h'"
  then have "preserves h h'" by (rule runs_preserves)
  then show "preserves h h' \<and> (closedBoard h b \<longrightarrow> snap h' b = snap h b)"
    using snap_preserved by blast
qed

text \<open>
  Two instances. \<^verbatim>\<open>searchMove\<close> for the jump of the red man from (2,5) over (3,4),
  with a \<^verbatim>\<open>minimax\<close> that returns at once: the copy has changed (it stands for the
  board that \<open>simulateMove\<close> of the value model gives) and the board has not. \<^verbatim>\<open>findPaths\<close> for the red man on (1,2) that jumps to (3,0): the piece object
  that becomes a king is the one made for the copy.
\<close>

definition liveStore :: "heap \<times> addr" where
  "liveStore = storeBoard [] jumpBoard"

definition promotionStore :: "heap \<times> addr" where
  "promotionStore = storeBoard [] promotionBoard"

lemma pair_Inr: "(case snd x of Inl e \<Rightarrow> False | Inr v \<Rightarrow> True) \<Longrightarrow> x = (fst x, Inr (projr (snd x)))"
  by (cases x; cases "snd x") simp_all

lemma Some_pair: "x \<noteq> None \<Longrightarrow> x = Some (fst (the x), snd (the x))"
  by (cases x) simp_all

theorem search_leaves_boards_unchanged_witness:
  "(\<exists>h'. runs (fst liveStore) (SearchMove (snd liveStore) firstJump Red) Returned h' \<and>
         closedBoard (fst liveStore) (snd liveStore) \<and>
         snap (fst liveStore) (snd liveStore) = jumpBoard \<and>
         length (fst liveStore) < length h' \<and>
         snap h' (length h' - 1) \<noteq> jumpBoard \<and>
         Inr (snap h' (length h' - 1)) =
           map_sum id fst (simulateMove exampleKeys (snap (fst liveStore) (snd liveStore)) firstJump 0) \<and>
         preserves (fst liveStore) h' \<and>
         snap h' (snd liveStore) = jumpBoard) \<and>
   (\<exists>h'. runs (fst promotionStore) (FindPaths (snd promotionStore) (1, 2) 4) Returned h' \<and>
         closedBoard (fst promotionStore) (snd promotionStore) \<and>
         pieceAt (fst promotionStore) 4 = Some (man Red) \<and>
         pieceAt h' (length h' - 1) = Some (king Red) \<and>
         preserves (fst promotionStore) h' \<and>
         snap h' (snd promotionStore) = promotionBoard)"
proof -
  let ?h = "fst liveStore" and ?b = "snd liveStore"
  let ?c = "copyBoardAIH ?h ?b"
  let ?h1 = "fst ?c" and ?bc = "projr (snd ?c)"
  let ?row = "rowOf ?h1 ?b (fromY firstJump)"
  let ?pc = "pieceOfCell ?h1 (snd (the ?row)) (fromX firstJump)"
  let ?s = "simulateMoveH ?h1 ?bc firstJump"
  let ?h2 = "fst ?s"
  have c: "?c = (?h1, Inr ?bc)" by (rule pair_Inr) code_simp
  have r: "?row = Some (fst (the ?row), snd (the ?row))" by (rule Some_pair) code_simp
  have p: "?pc = Some (fst (the ?pc), snd (the ?pc))" by (rule Some_pair) code_simp
  have s: "?s = (?h2, Inr (projr (snd ?s)))" by (rule pair_Inr) code_simp
  have a: "rowOf ?h2 ?bc (toY firstJump) \<noteq> None" by code_simp
  have run: "runs ?h (SearchMove ?b firstJump Red) Returned ?h2"
    by (rule runs.sm_minimax[OF c r p s a]) (rule runs.mm_return)
  have cl: "closedBoard ?h ?b" by code_simp
  have sn: "snap ?h ?b = jumpBoard" by code_simp
  have ln: "length ?h < length ?h2" by code_simp
  have ch: "snap ?h2 (length ?h2 - 1) \<noteq> jumpBoard" by code_simp
  have vm: "Inr (snap ?h2 (length ?h2 - 1)) =
           map_sum id fst (simulateMove exampleKeys (snap ?h ?b) firstJump 0)" by code_simp
  from search_leaves_boards_unchanged[rule_format, OF run, of ?b] cl sn
  have k: "preserves ?h ?h2" "snap ?h2 ?b = jumpBoard" by simp_all
  have one: "\<exists>h'. runs ?h (SearchMove ?b firstJump Red) Returned h' \<and>
         closedBoard ?h ?b \<and> snap ?h ?b = jumpBoard \<and> length ?h < length h' \<and>
         snap h' (length h' - 1) \<noteq> jumpBoard \<and>
         Inr (snap h' (length h' - 1)) =
           map_sum id fst (simulateMove exampleKeys (snap ?h ?b) firstJump 0) \<and>
         preserves ?h h' \<and> snap h' ?b = jumpBoard"
    using run cl sn ln ch vm k by (intro exI[of _ ?h2]) simp
  let ?g = "fst promotionStore" and ?d = "snd promotionStore"
  let ?j = "jumpStepH ?g ?d (1, 2) [3, 0, 2, 1]"
  let ?g1 = "fst ?j"
  have pa: "pieceAt ?g 4 = Some (man Red)" by code_simp
  have js: "findSingleJumps (snap ?g ?d) (1, 2) (man Red) = [[3, 0, 2, 1]]" by code_simp
  have j: "?j = (?g1, Inr None)" by (simp add: prod_eq_iff) code_simp
  have run2: "runs ?g (FindPaths ?d (1, 2) 4) Returned ?g1"
    by (rule runs.fp_loop[OF pa js]) (simp, rule runs.jl_next[OF j], rule runs.jl_end)
  have cl2: "closedBoard ?g ?d" by code_simp
  have sn2: "snap ?g ?d = promotionBoard" by code_simp
  have kg: "pieceAt ?g1 (length ?g1 - 1) = Some (king Red)" by code_simp
  from search_leaves_boards_unchanged[rule_format, OF run2, of ?d] cl2 sn2
  have k2: "preserves ?g ?g1" "snap ?g1 ?d = promotionBoard" by simp_all
  have two: "\<exists>h'. runs ?g (FindPaths ?d (1, 2) 4) Returned h' \<and>
         closedBoard ?g ?d \<and> pieceAt ?g 4 = Some (man Red) \<and>
         pieceAt h' (length h' - 1) = Some (king Red) \<and>
         preserves ?g h' \<and> snap h' ?d = promotionBoard"
    using run2 cl2 pa kg k2 by (intro exI[of _ ?g1]) simp
  from one two show ?thesis by (rule conjI)
qed

end
